(* ===== verification/Prelude.thy ===== *)
theory Prelude
  imports Main "HOL-Library.Word"
begin

text \<open>
  Shared ground of the development: the machine integer types of \<open>include/types.h\<close>, the
  constants of \<open>include/param.h\<close> and \<open>include/riscv.h\<close>, the outcome of a kernel
  routine, and the generic lemmas the component theories use.

  A kernel routine is a function from a state to an \<open>outcome\<close>:
  \<^item> \<open>Ok x s\<close>: it returned \<open>x\<close> and left the state \<open>s\<close>;
  \<^item> \<open>Panic msg\<close>: it called \<open>panic(msg)\<close>, which never returns;
  \<^item> \<open>Block\<close>: it cannot proceed in this state (it spins on a lock another hart holds, or
    goes to sleep until another process changes the state);
  \<^item> \<open>Undef what\<close>: the C program has no defined behaviour from here (a null pointer is
    followed, an array is indexed out of range, a shift is as wide as its operand).
\<close>

unbundle bit_operations_syntax

section \<open>Machine integers\<close>

type_synonym u8 = "8 word"
type_synonym u16 = "16 word"
type_synonym u32 = "32 word"
type_synonym u64 = "64 word"

text \<open>Two's complement at 64 bits.\<close>

lemma sint_64: "sint (w :: 64 word) = (if uint w < 2 ^ 63 then uint w else uint w - 2 ^ 64)"
proof -
  define u where "u = uint w"
  have b: "0 \<le> u" "u < 2 ^ 64" using uint_lt2p [of w] by (simp_all add: u_def)
  have "sint w = (u + 2 ^ 63) mod 2 ^ 64 - 2 ^ 63"
    by (simp add: sint_uint signed_take_bit_eq_take_bit_shift take_bit_eq_mod u_def)
  moreover have "(u + 2 ^ 63) mod 2 ^ 64 = (u + 2 ^ 63 - 2 ^ 64) mod 2 ^ 64"
    by (rule minus_mod_self2 [symmetric])
  ultimately show ?thesis using b unfolding u_def [symmetric] by (cases "u < 2 ^ 63") simp_all
qed

lemma uint_minus_64: "w \<noteq> 0 \<Longrightarrow> uint (- w :: 64 word) = 2 ^ 64 - uint w"
proof -
  assume "w \<noteq> 0"
  define u where "u = uint w"
  have "u \<noteq> 0" using \<open>w \<noteq> 0\<close> by (simp add: u_def uint_0_iff)
  then have b: "0 < u" "u < 2 ^ 64" using uint_lt2p [of w] unsigned_greater_eq [of w] by (simp_all add: u_def order_less_le)
  have "uint (- w) = (- u) mod 2 ^ 64" by (simp add: uint_word_ariths u_def)
  also have "\<dots> = (- u + 2 ^ 64) mod 2 ^ 64" by simp
  also have "\<dots> = 2 ^ 64 - u" using b by (subst mod_pos_pos_trivial) simp_all
  finally show ?thesis by (simp add: u_def)
qed

lemma sint_neg_64: "sint (w :: 64 word) < 0 \<Longrightarrow> uint (- w) = - sint w"
  by (cases "w = 0") (auto simp: sint_64 uint_minus_64 split: if_splits)

lemma sint_nonneg_64: "0 \<le> sint (w :: 64 word) \<Longrightarrow> uint w = sint w"
  using uint_lt2p [of w] by (auto simp: sint_64 split: if_splits)

section \<open>Parameters of the kernel\<close>

text \<open>\<open>include/param.h\<close>, \<open>include/riscv.h\<close> and \<open>include/fs.h\<close>.\<close>

abbreviation (input) NPROC :: nat where "NPROC \<equiv> 64"
abbreviation (input) NOFILE :: nat where "NOFILE \<equiv> 16"
abbreviation (input) NFILE :: nat where "NFILE \<equiv> 100"
abbreviation (input) NINODE :: nat where "NINODE \<equiv> 50"
abbreviation (input) NDEV :: nat where "NDEV \<equiv> 10"
abbreviation (input) ROOTDEV :: u32 where "ROOTDEV \<equiv> 1"
abbreviation (input) MAXARG :: nat where "MAXARG \<equiv> 32"
abbreviation (input) MAXOPBLOCKS :: nat where "MAXOPBLOCKS \<equiv> 10"
abbreviation (input) LOGSIZE :: nat where "LOGSIZE \<equiv> 30"
abbreviation (input) NBUF :: nat where "NBUF \<equiv> 30"
abbreviation (input) MAXPATH :: nat where "MAXPATH \<equiv> 128"

section \<open>Outcomes of kernel routines\<close>

datatype ('a, 's) outcome = Ok 'a 's | Panic string | Block | Undef string

definition bnd :: "('a, 's) outcome \<Rightarrow> ('a \<Rightarrow> 's \<Rightarrow> ('b, 't) outcome) \<Rightarrow> ('b, 't) outcome" where
  "bnd m f = (case m of Ok x s \<Rightarrow> f x s | Panic e \<Rightarrow> Panic e | Block \<Rightarrow> Block | Undef e \<Rightarrow> Undef e)"

text \<open>\<open>runs m P\<close>: the routine returns, and its result and final state satisfy \<open>P\<close>.\<close>

definition runs :: "('a, 's) outcome \<Rightarrow> ('a \<Rightarrow> 's \<Rightarrow> bool) \<Rightarrow> bool" where
  "runs m P = (case m of Ok x s \<Rightarrow> P x s | _ \<Rightarrow> False)"

lemma bnd_simps [simp]:
  "bnd (Ok x s) f = f x s"
  "bnd (Panic e) f = Panic e"
  "bnd Block f = Block"
  "bnd (Undef e) f = Undef e"
  by (simp_all add: bnd_def)

lemma bnd_assoc: "bnd (bnd m f) g = bnd m (\<lambda>x s. bnd (f x s) g)"
  by (cases m) simp_all

lemma bnd_eq_Ok:
  "bnd m f = Ok y t \<longleftrightarrow> (\<exists>x s. m = Ok x s \<and> f x s = Ok y t)"
  by (cases m) simp_all

lemma bnd_cong [fundef_cong]:
  "m = m' \<Longrightarrow> (\<And>x s. m' = Ok x s \<Longrightarrow> f x s = g x s) \<Longrightarrow> bnd m f = bnd m' g"
  by (cases m') simp_all

lemma runs_simps [simp]:
  "runs (Ok x s) P = P x s"
  "runs (Panic e) P = False"
  "runs Block P = False"
  "runs (Undef e) P = False"
  by (simp_all add: runs_def)

lemma runs_bnd [simp]: "runs (bnd m f) P = runs m (\<lambda>x s. runs (f x s) P)"
  by (cases m) simp_all

lemma runs_iff: "runs m P \<longleftrightarrow> (\<exists>x s. m = Ok x s \<and> P x s)"
  by (cases m) auto

lemma runs_mono: "runs m P \<Longrightarrow> (\<And>x s. P x s \<Longrightarrow> Q x s) \<Longrightarrow> runs m Q"
  by (cases m) auto

lemma runs_bndI: "runs m P \<Longrightarrow> (\<And>x s. P x s \<Longrightarrow> runs (f x s) Q) \<Longrightarrow> runs (bnd m f) Q"
  by (cases m) auto

lemma runs_conj: "runs m P \<Longrightarrow> runs m Q \<Longrightarrow> runs m (\<lambda>x s. P x s \<and> Q x s)"
  by (cases m) auto

section \<open>Transition systems\<close>

text \<open>
  The states reachable from \<open>init\<close> by \<open>step\<close>, and the contract under which a predicate
  holds in all of them. Component theories interpret \<open>safety\<close> on their own step relations.
\<close>

inductive reach :: "('s \<Rightarrow> bool) \<Rightarrow> ('s \<Rightarrow> 's \<Rightarrow> bool) \<Rightarrow> 's \<Rightarrow> bool"
  for init step where
  reach_init: "init s \<Longrightarrow> reach init step s"
| reach_step: "reach init step s \<Longrightarrow> step s t \<Longrightarrow> reach init step t"

locale safety =
  fixes init :: "'s \<Rightarrow> bool" and step :: "'s \<Rightarrow> 's \<Rightarrow> bool" and inv :: "'s \<Rightarrow> bool"
  assumes inv_init: "init s \<Longrightarrow> inv s"
    and inv_step: "inv s \<Longrightarrow> step s t \<Longrightarrow> inv t"
begin

lemma inv_reach: "reach init step s \<Longrightarrow> inv s"
  by (induction rule: reach.induct) (auto intro: inv_init inv_step)

end

end
