(* ===== verification/Spinlock.thy ===== *)
theory Spinlock
  imports Prelude
begin

text \<open>
  Harts, their interrupt state, and spin locks: \<open>kernel/spinlock.c\<close>, \<open>kernel/cpu.c\<close>,
  the structures of \<open>include/spinlock.h\<close> and \<open>include/cpu.h\<close>, and the interrupt
  helpers of \<open>include/riscv.h\<close>.

  The record \<open>machine\<close> is the bottom layer of every component's state: later theories
  extend it. It holds the hart that is executing (\<open>tp\<close>), the per-hart structures and
  every spin lock of the kernel, named by \<open>lockid\<close>. A routine that finds a lock taken by
  another hart spins; its outcome is \<open>Block\<close>. The last section opens that atomic view up:
  it steps any number of harts through \<open>acquire\<close> and \<open>release\<close> one memory access at a time.
\<close>

section \<open>State\<close>

text \<open>The spin locks of the kernel, one constructor per \<open>struct spinlock\<close> object.\<close>

datatype lockid =
    KmemLock | PidLock | WaitLock | ProcLock nat | TicksLock | ConsLock | UartTxLock | PrLock
  | PipeLock u64 | BcacheLock | LogLock | ItableLock | FtableLock | VdiskLock
  | BufSleepLk nat | InodeSleepLk nat | BootmemLock nat

record spinlock =
  lk_locked :: bool
  lk_name :: string
  lk_cpu :: "nat option"

record cpu =
  c_proc :: "nat option"
  c_noff :: int
  c_intena :: bool
  c_sie :: bool

text \<open>
  \<open>c_proc\<close>, \<open>c_noff\<close> and \<open>c_intena\<close> are the fields of \<open>struct cpu\<close>; \<open>c_sie\<close> is the
  bit \<open>SSTATUS_SIE\<close> of the hart. The saved registers \<open>context\<close> belong to \<open>swtch.S\<close>.
\<close>

record machine =
  tp :: nat
  cpus :: "nat \<Rightarrow> cpu"
  locks :: "lockid \<Rightarrow> spinlock"
  klog :: "string list"

text \<open>
  \<open>klog\<close> lists the diagnostics handed to \<open>printk\<close> by the modelled routines, oldest first;
  how \<open>printk\<close> formats and emits them is the subject of the theory \<open>Printk\<close>.
\<close>

section \<open>Operations\<close>

definition cpu_id :: "('a) machine_scheme \<Rightarrow> nat" where
  "cpu_id s = tp s"

definition this_cpu :: "'a machine_scheme \<Rightarrow> cpu" where
  "this_cpu s = cpus s (cpu_id s)"

definition set_this_cpu :: "cpu \<Rightarrow> 'a machine_scheme \<Rightarrow> 'a machine_scheme" where
  "set_this_cpu c s = s\<lparr>cpus := (cpus s)(cpu_id s := c)\<rparr>"

definition intr_get :: "'a machine_scheme \<Rightarrow> bool" where
  "intr_get s = c_sie (this_cpu s)"

definition intr_on :: "'a machine_scheme \<Rightarrow> 'a machine_scheme" where
  "intr_on s = set_this_cpu ((this_cpu s)\<lparr>c_sie := True\<rparr>) s"

definition intr_off :: "'a machine_scheme \<Rightarrow> 'a machine_scheme" where
  "intr_off s = set_this_cpu ((this_cpu s)\<lparr>c_sie := False\<rparr>) s"

definition pr :: "string \<Rightarrow> 'a machine_scheme \<Rightarrow> 'a machine_scheme" where
  "pr msg s = s\<lparr>klog := klog s @ [msg]\<rparr>"

definition push_off :: "'a machine_scheme \<Rightarrow> 'a machine_scheme" where
  "push_off s =
     (let old = intr_get s;
          s = intr_off s;
          s = (if c_noff (this_cpu s) = 0 then set_this_cpu ((this_cpu s)\<lparr>c_intena := old\<rparr>) s else s)
      in set_this_cpu ((this_cpu s)\<lparr>c_noff := c_noff (this_cpu s) + 1\<rparr>) s)"

definition pop_off :: "'a machine_scheme \<Rightarrow> (unit, 'a machine_scheme) outcome" where
  "pop_off s =
     (if intr_get s then Panic ''pop_off - interruptible''
      else if c_noff (this_cpu s) < 1 then Panic ''pop_off''
      else let s = set_this_cpu ((this_cpu s)\<lparr>c_noff := c_noff (this_cpu s) - 1\<rparr>) s
           in Ok () (if c_noff (this_cpu s) = 0 \<and> c_intena (this_cpu s) then intr_on s else s))"

definition set_lock :: "lockid \<Rightarrow> spinlock \<Rightarrow> 'a machine_scheme \<Rightarrow> 'a machine_scheme" where
  "set_lock L k s = s\<lparr>locks := (locks s)(L := k)\<rparr>"

definition initlock :: "lockid \<Rightarrow> string \<Rightarrow> 'a machine_scheme \<Rightarrow> 'a machine_scheme" where
  "initlock L name s = set_lock L \<lparr>lk_locked = False, lk_name = name, lk_cpu = None\<rparr> s"

definition holding :: "lockid \<Rightarrow> 'a machine_scheme \<Rightarrow> bool" where
  "holding L s \<longleftrightarrow> lk_locked (locks s L) \<and> lk_cpu (locks s L) = Some (cpu_id s)"

definition acquire :: "lockid \<Rightarrow> 'a machine_scheme \<Rightarrow> (unit, 'a machine_scheme) outcome" where
  "acquire L s =
     (let s = push_off s
      in if holding L s then Panic ''acquire''
         else if lk_locked (locks s L) then Block
         else Ok () (set_lock L ((locks s L)\<lparr>lk_locked := True, lk_cpu := Some (cpu_id s)\<rparr>) s))"

definition release :: "lockid \<Rightarrow> 'a machine_scheme \<Rightarrow> (unit, 'a machine_scheme) outcome" where
  "release L s =
     (if \<not> holding L s then Panic ''release''
      else pop_off (set_lock L ((locks s L)\<lparr>lk_cpu := None, lk_locked := False\<rparr>) s))"

lemmas machine_defs = cpu_id_def this_cpu_def set_this_cpu_def intr_get_def intr_on_def
  intr_off_def set_lock_def

section \<open>The bracket of a critical section\<close>

text \<open>
  \<open>cpu_ok\<close>: the nesting count is not negative and interrupts are off inside a bracket.
  \<open>calm\<close> is what a matched \<open>push_off\<close>/\<open>pop_off\<close> pair leaves behind: outside any
  bracket \<open>intena\<close> records the interrupt bit, nothing else changes.
\<close>

definition cpu_ok :: "'a machine_scheme \<Rightarrow> bool" where
  "cpu_ok s \<longleftrightarrow> 0 \<le> c_noff (this_cpu s) \<and> (0 < c_noff (this_cpu s) \<longrightarrow> \<not> intr_get s)"

definition lock_free :: "lockid \<Rightarrow> 'a machine_scheme \<Rightarrow> bool" where
  "lock_free L s \<longleftrightarrow> \<not> lk_locked (locks s L) \<and> lk_cpu (locks s L) = None"

definition calm :: "'a machine_scheme \<Rightarrow> 'a machine_scheme" where
  "calm s = (if c_noff (this_cpu s) = 0
     then set_this_cpu ((this_cpu s)\<lparr>c_intena := intr_get s\<rparr>) s else s)"

definition enter :: "lockid \<Rightarrow> 'a machine_scheme \<Rightarrow> 'a machine_scheme" where
  "enter L s = set_lock L ((locks s L)\<lparr>lk_locked := True, lk_cpu := Some (cpu_id s)\<rparr>) (push_off s)"

lemma push_off_eq:
  "push_off s = s\<lparr>cpus := (cpus s)(tp s := (cpus s (tp s))\<lparr>c_sie := False,
     c_intena := (if c_noff (cpus s (tp s)) = 0 then c_sie (cpus s (tp s)) else c_intena (cpus s (tp s))),
     c_noff := c_noff (cpus s (tp s)) + 1\<rparr>)\<rparr>"
  by (simp add: push_off_def machine_defs Let_def)

lemma acquire_free: "lock_free L s \<Longrightarrow> acquire L s = Ok () (enter L s)"
  by (simp add: acquire_def enter_def lock_free_def holding_def push_off_eq machine_defs)

text \<open>
  Whatever the body of a critical section does to the state outside \<open>cpus\<close> and \<open>locks\<close>,
  leaving it gives the lock back and puts the interrupt state back.
\<close>

lemma cpu_sie_idem: "c_sie c = b \<Longrightarrow> c\<lparr>c_sie := b\<rparr> = c"
  by (cases c) simp

lemma spinlock_free_idem:
  "\<not> lk_locked k \<Longrightarrow> lk_cpu k = None \<Longrightarrow> k\<lparr>lk_cpu := None, lk_locked := False\<rparr> = k"
  by (cases k) simp

lemma locks_idem: "locks t = ls \<Longrightarrow> t\<lparr>locks := ls\<rparr> = t" for t :: "'a machine_scheme"
  by (cases t) simp

lemma cpus_idem: "cpus t = cs \<Longrightarrow> t\<lparr>cpus := cs\<rparr> = t" for t :: "'a machine_scheme"
  by (cases t) simp

lemma pop_after_push:
  assumes "cpu_ok s" "tp t = tp s" "cpus t = cpus (push_off s)"
  shows "pop_off t = Ok () (t\<lparr>cpus := cpus (calm s)\<rparr>)"
proof -
  obtain p n i e where c: "cpus s (tp s) = \<lparr>c_proc = p, c_noff = n, c_intena = i, c_sie = e\<rparr>"
    by (cases "cpus s (tp s)")
  have n: "0 \<le> n" "e \<Longrightarrow> n = 0"
    using assms(1) c by (auto simp: cpu_ok_def machine_defs)
  have t: "cpus t = (cpus s)(tp s := \<lparr>c_proc = p, c_noff = n + 1,
      c_intena = (if n = 0 then e else i), c_sie = False\<rparr>)"
    using assms(3) by (simp add: push_off_eq c)
  have "pop_off t = Ok () (t\<lparr>cpus := (cpus s)(tp s := \<lparr>c_proc = p, c_noff = n,
      c_intena = (if n = 0 then e else i), c_sie = e\<rparr>)\<rparr>)"
    using n by (cases e) (simp_all add: pop_off_def machine_defs assms(2) t)
  also have "(cpus s)(tp s := \<lparr>c_proc = p, c_noff = n,
      c_intena = (if n = 0 then e else i), c_sie = e\<rparr>) = cpus (calm s)"
    using c by (simp add: calm_def machine_defs fun_upd_idem)
  finally show ?thesis .
qed

lemma release_bracket:
  assumes "cpu_ok s" "lock_free L s"
    and "tp t = tp s" "cpus t = cpus (enter L s)" "locks t = locks (enter L s)"
  shows "release L t = Ok () (t\<lparr>cpus := cpus (calm s), locks := locks s\<rparr>)"
proof -
  let ?t = "set_lock L ((locks t L)\<lparr>lk_cpu := None, lk_locked := False\<rparr>) t"
  have "locks t L = (locks s L)\<lparr>lk_locked := True, lk_cpu := Some (tp s)\<rparr>"
    using assms(5) by (simp add: enter_def set_lock_def push_off_eq cpu_id_def)
  then have "(locks t L)\<lparr>lk_cpu := None, lk_locked := False\<rparr> = locks s L"
    using assms(2) by (simp add: lock_free_def spinlock_free_idem)
  then have t: "?t = t\<lparr>locks := locks s\<rparr>"
    using assms(5) by (simp add: enter_def set_lock_def push_off_eq)
  have "release L t = pop_off ?t"
    using assms(3,5) by (simp add: release_def holding_def enter_def set_lock_def push_off_eq cpu_id_def)
  also have "\<dots> = Ok () (?t\<lparr>cpus := cpus (calm s)\<rparr>)"
    using assms(1,3,4) by (intro pop_after_push) (simp_all add: set_lock_def enter_def)
  finally show ?thesis by (simp add: t)
qed

lemma push_pop:
  assumes "cpu_ok s"
  shows "pop_off (push_off s) = Ok () (calm s)"
proof -
  have "pop_off (push_off s) = Ok () ((push_off s)\<lparr>cpus := cpus (calm s)\<rparr>)"
    using assms by (intro pop_after_push) (simp_all add: push_off_eq)
  also have "(push_off s)\<lparr>cpus := cpus (calm s)\<rparr> = calm s"
    by (simp add: push_off_eq calm_def set_this_cpu_def cpus_idem)
  finally show ?thesis .
qed

lemma calm_simps [simp]:
  "tp (calm s) = tp s" "locks (calm s) = locks s"
  "cpus (calm (calm s)) = cpus (calm s)"
  "calm (calm s) = calm s"
  "cpu_ok (calm s) = cpu_ok s" "lock_free L (calm s) = lock_free L s"
  by (auto simp: calm_def machine_defs cpu_ok_def lock_free_def)

text \<open>
  A \<open>settled\<close> state is one that a matched pair leaves exactly as it was. Every state a
  routine leaves after its last bracket is settled, and so is the inside of a bracket; the
  lemmas of the component theories start from settled states, where a critical section has no
  effect besides that of its body.
\<close>

definition settled :: "'a machine_scheme \<Rightarrow> bool" where
  "settled s \<longleftrightarrow> cpu_ok s \<and> (c_noff (this_cpu s) = 0 \<longrightarrow> c_intena (this_cpu s) = intr_get s)"

lemma settled_cpu_ok: "settled s \<Longrightarrow> cpu_ok s"
  by (simp add: settled_def)

lemma cpu_intena_idem: "c_intena c = b \<Longrightarrow> c\<lparr>c_intena := b\<rparr> = c"
  by (cases c) simp

lemma settled_calm: "settled s \<Longrightarrow> calm s = s"
  by (auto simp: settled_def calm_def machine_defs cpu_intena_idem cpus_idem)

lemma settled_cong: "tp t = tp s \<Longrightarrow> cpus t = cpus s \<Longrightarrow> settled t = settled s"
  by (simp add: settled_def cpu_ok_def machine_defs)

lemma calm_settled: "cpu_ok s \<Longrightarrow> settled (calm s)"
  by (auto simp: settled_def calm_def cpu_ok_def machine_defs)

lemma enter_simps [simp]:
  "tp (enter L s) = tp s"
  "locks (enter L s) = (locks s)(L := (locks s L)\<lparr>lk_locked := True, lk_cpu := Some (tp s)\<rparr>)"
  "klog (enter L s) = klog s"
  "lock_free K (enter L s) \<longleftrightarrow> K \<noteq> L \<and> lock_free K s"
  by (auto simp: enter_def set_lock_def push_off_eq cpu_id_def lock_free_def)

lemma settled_enter [simp]: "settled s \<Longrightarrow> settled (enter L s)"
  by (auto simp: settled_def cpu_ok_def enter_def push_off_eq machine_defs)

lemma c_proc_enter [simp]: "c_proc (cpus (enter L s) i) = c_proc (cpus s i)"
  by (auto simp: enter_def push_off_eq machine_defs)

lemma release_settled:
  assumes "settled s" "lock_free L s"
    and "tp t = tp s" "cpus t = cpus (enter L s)" "locks t = locks (enter L s)"
  shows "release L t = Ok () (t\<lparr>cpus := cpus s, locks := locks s\<rparr>)"
  using release_bracket [OF settled_cpu_ok [OF assms(1)] assms(2-5)] settled_calm [OF assms(1)] by simp

lemma push_pop_settled: "settled s \<Longrightarrow> pop_off (push_off s) = Ok () s"
  using push_pop [of s] settled_calm [of s] by (simp add: settled_def)

lemma enter_eq: "enter L s = s\<lparr>cpus := cpus (enter L s), locks := locks (enter L s)\<rparr>"
  by (simp add: enter_def set_lock_def push_off_eq)

lemma lock_free_cong: "locks t = locks s \<Longrightarrow> lock_free L t = lock_free L s"
  by (simp add: lock_free_def)

section \<open>Nesting\<close>

fun pop_offs :: "nat \<Rightarrow> 'a machine_scheme \<Rightarrow> (unit, 'a machine_scheme) outcome" where
  "pop_offs 0 s = Ok () s"
| "pop_offs (Suc n) s = bnd (pop_off s) (\<lambda>_ s. pop_offs n s)"

lemma cpu_ok_push: "cpu_ok s \<Longrightarrow> cpu_ok (push_off s)"
  by (simp add: cpu_ok_def push_off_eq machine_defs)

lemma cpu_ok_pushes: "cpu_ok s \<Longrightarrow> cpu_ok ((push_off ^^ n) s)"
  by (induction n) (simp_all add: cpu_ok_push)

lemma calm_push: "cpu_ok s \<Longrightarrow> calm (push_off s) = push_off s"
  by (simp add: cpu_ok_def calm_def push_off_eq machine_defs)

lemma intr_get_push [simp]: "\<not> intr_get (push_off s)"
  by (simp add: push_off_eq machine_defs)

lemma pop_offs_pushes:
  assumes "cpu_ok s"
  shows "m < n \<Longrightarrow> pop_offs m ((push_off ^^ n) s) = Ok () ((push_off ^^ (n - m)) s)"
proof (induction m arbitrary: n)
  case (Suc m)
  then obtain k where n: "n = Suc (Suc k)" by (cases n; cases "n - 1") auto
  have "pop_off ((push_off ^^ n) s) = Ok () ((push_off ^^ Suc k) s)"
    using assms by (simp add: n push_pop cpu_ok_pushes cpu_ok_push calm_push)
  with Suc.prems Suc.IH [of "Suc k"] n show ?case by simp
qed simp

lemma pop_offs_add: "pop_offs (m + n) s = bnd (pop_offs m s) (\<lambda>_ t. pop_offs n t)"
proof (induction m arbitrary: s)
  case (Suc m)
  then show ?case by (cases "pop_off s") simp_all
qed simp

lemma pop_offs_all:
  assumes "cpu_ok s" "0 < n"
  shows "pop_offs n ((push_off ^^ n) s) = Ok () (calm s)"
proof -
  obtain k where n: "n = k + 1" using assms(2) by (metis add.commute less_imp_Suc_add plus_1_eq_Suc add_0)
  show ?thesis
    unfolding n pop_offs_add using assms(1) by (simp add: pop_offs_pushes [of s k "Suc k", simplified] push_pop)
qed

section \<open>Harts contending for one lock\<close>

text \<open>
  One lock, any number of harts, one memory access per step (sequentially consistent, as the
  fences of the source ask for). A hart runs \<open>acquire\<close>: it reads \<open>locked\<close> and, if set,
  \<open>cpu\<close> (the call \<open>holding\<close>), swaps 1 into \<open>locked\<close> until the old value is 0, then
  records itself in \<open>cpu\<close>. It runs \<open>release\<close>: it reads \<open>locked\<close> and \<open>cpu\<close>, clears
  \<open>cpu\<close>, then clears \<open>locked\<close>. A failed check is a panic.
\<close>

datatype hart_pc =
    Outside | AcqCpuRead | Spinning | Swapped | Inside | RelCpuRead | RelChecked | RelCleared
  | Panicked string

record lock_sys =
  sys_locked :: bool
  sys_cpu :: "nat option"
  sys_pc :: "nat \<Rightarrow> hart_pc"

definition goto :: "nat \<Rightarrow> hart_pc \<Rightarrow> lock_sys \<Rightarrow> lock_sys" where
  "goto i p s = s\<lparr>sys_pc := (sys_pc s)(i := p)\<rparr>"

definition lock_init :: "lock_sys \<Rightarrow> bool" where
  "lock_init s \<longleftrightarrow> \<not> sys_locked s \<and> sys_cpu s = None \<and> (\<forall>i. sys_pc s i = Outside)"

inductive hart_step :: "lock_sys \<Rightarrow> lock_sys \<Rightarrow> bool" where
  acq_read_locked: "sys_pc s i = Outside \<Longrightarrow>
     hart_step s (goto i (if sys_locked s then AcqCpuRead else Spinning) s)"
| acq_read_cpu: "sys_pc s i = AcqCpuRead \<Longrightarrow>
     hart_step s (goto i (if sys_cpu s = Some i then Panicked ''acquire'' else Spinning) s)"
| acq_swap: "sys_pc s i = Spinning \<Longrightarrow>
     hart_step s ((goto i (if sys_locked s then Spinning else Swapped) s)\<lparr>sys_locked := True\<rparr>)"
| acq_record: "sys_pc s i = Swapped \<Longrightarrow>
     hart_step s ((goto i Inside s)\<lparr>sys_cpu := Some i\<rparr>)"
| rel_read_locked: "sys_pc s i = Inside \<Longrightarrow>
     hart_step s (goto i (if sys_locked s then RelCpuRead else Panicked ''release'') s)"
| rel_read_cpu: "sys_pc s i = RelCpuRead \<Longrightarrow>
     hart_step s (goto i (if sys_cpu s = Some i then RelChecked else Panicked ''release'') s)"
| rel_clear_cpu: "sys_pc s i = RelChecked \<Longrightarrow>
     hart_step s ((goto i RelCleared s)\<lparr>sys_cpu := None\<rparr>)"
| rel_unlock: "sys_pc s i = RelCleared \<Longrightarrow>
     hart_step s ((goto i Outside s)\<lparr>sys_locked := False\<rparr>)"

fun owning :: "hart_pc \<Rightarrow> bool" where
  "owning Outside = False" | "owning AcqCpuRead = False" | "owning Spinning = False"
| "owning (Panicked m) = False" | "owning _ = True"

fun recorded :: "hart_pc \<Rightarrow> bool" where
  "recorded Inside = True" | "recorded RelCpuRead = True" | "recorded RelChecked = True"
| "recorded _ = False"

lemma recorded_owning: "recorded p \<Longrightarrow> owning p"
  by (cases p) simp_all

text \<open>The invariant names the owner, if there is one.\<close>

definition lock_inv_at :: "nat option \<Rightarrow> lock_sys \<Rightarrow> bool" where
  "lock_inv_at w s \<longleftrightarrow>
     (\<forall>i. owning (sys_pc s i) \<longleftrightarrow> w = Some i) \<and> (sys_locked s \<longleftrightarrow> w \<noteq> None) \<and>
     (\<forall>i. recorded (sys_pc s i) \<longleftrightarrow> sys_cpu s = Some i) \<and> (\<forall>i m. sys_pc s i \<noteq> Panicked m)"

definition lock_inv :: "lock_sys \<Rightarrow> bool" where
  "lock_inv s \<longleftrightarrow> (\<exists>w. lock_inv_at w s)"

text \<open>A step moves one hart; the other harts see at most a change of the two lock fields.\<close>

lemma lock_inv_at_move:
  assumes "lock_inv_at w s" "sys_pc t = (sys_pc s)(i := q)"
    and "owning q \<longleftrightarrow> w' = Some i" "\<And>j. j \<noteq> i \<Longrightarrow> w' = Some j \<longleftrightarrow> w = Some j"
    and "sys_locked t \<longleftrightarrow> w' \<noteq> None"
    and "recorded q \<longleftrightarrow> sys_cpu t = Some i" "\<And>j. j \<noteq> i \<Longrightarrow> sys_cpu t = Some j \<longleftrightarrow> sys_cpu s = Some j"
    and "\<And>m. q \<noteq> Panicked m"
  shows "lock_inv t"
  using assms unfolding lock_inv_def lock_inv_at_def by (intro exI [of _ w']) simp

lemma lock_inv_step: "hart_step s t \<Longrightarrow> lock_inv s \<Longrightarrow> lock_inv t"
proof -
  assume step: "hart_step s t" and "lock_inv s"
  then obtain w where w: "lock_inv_at w s" by (auto simp: lock_inv_def)
  have at: "owning (sys_pc s i) \<longleftrightarrow> w = Some i" "recorded (sys_pc s i) \<longleftrightarrow> sys_cpu s = Some i"
    and l: "sys_locked s \<longleftrightarrow> w \<noteq> None" for i
    using w by (simp_all add: lock_inv_at_def)
  have sc: "sys_cpu s = Some j \<Longrightarrow> w = Some j" for j
    using at [of j] recorded_owning by auto
  from step show "lock_inv t"
  proof cases
    case (acq_read_locked i)
    then show ?thesis using at [of i] l
      by (intro lock_inv_at_move [OF w, of t i _ w]) (auto simp: goto_def)
  next
    case (acq_read_cpu i)
    then show ?thesis using at [of i] l
      by (intro lock_inv_at_move [OF w, of t i _ w]) (auto simp: goto_def)
  next
    case (acq_swap i)
    then show ?thesis using at [of i] l
      by (intro lock_inv_at_move [OF w, of t i _ "if sys_locked s then w else Some i"])
         (auto simp: goto_def)
  next
    case (acq_record i)
    then show ?thesis using at [of i] l sc
      by (intro lock_inv_at_move [OF w, of t i _ w]) (auto simp: goto_def)
  next
    case (rel_read_locked i)
    then show ?thesis using at [of i] l
      by (intro lock_inv_at_move [OF w, of t i _ w]) (auto simp: goto_def)
  next
    case (rel_read_cpu i)
    then show ?thesis using at [of i] l
      by (intro lock_inv_at_move [OF w, of t i _ w]) (auto simp: goto_def)
  next
    case (rel_clear_cpu i)
    then show ?thesis using at [of i] l
      by (intro lock_inv_at_move [OF w, of t i _ w]) (auto simp: goto_def)
  next
    case (rel_unlock i)
    then show ?thesis using at [of i] l
      by (intro lock_inv_at_move [OF w, of t i _ None]) (auto simp: goto_def)
  qed
qed

interpretation spin: safety lock_init hart_step lock_inv
proof unfold_locales
  fix s assume "lock_init s"
  then have "lock_inv_at None s" by (auto simp: lock_init_def lock_inv_at_def)
  then show "lock_inv s" by (auto simp: lock_inv_def)
qed (blast intro: lock_inv_step)

section \<open>Properties\<close>

text \<open>
  C31. Mutual exclusion of spin locks. In every state that any number of harts can reach by
  interleaving the memory accesses of \<open>acquire\<close> and \<open>release\<close> on one lock, at most one
  hart is between its successful swap and its unlock, and no hart has run into the panics
  \<open>acquire\<close> or \<open>release\<close>.
\<close>

theorem spinlock_mutual_exclusion:
  assumes "reach lock_init hart_step s"
  shows "(owning (sys_pc s i) \<and> owning (sys_pc s j) \<longrightarrow> i = j) \<and> sys_pc s i \<noteq> Panicked m"
  using spin.inv_reach [OF assms] by (auto simp: lock_inv_def lock_inv_at_def)

definition lock_idle :: lock_sys where
  "lock_idle = \<lparr>sys_locked = False, sys_cpu = None, sys_pc = (\<lambda>_. Outside)\<rparr>"

lemma reach_contended:
  "reach lock_init hart_step
     \<lparr>sys_locked = True, sys_cpu = None, sys_pc = (\<lambda>_. Outside)(0 := Swapped, 1 := Spinning)\<rparr>"
  (is "reach _ _ ?s")
proof -
  let ?a = "goto 0 Spinning lock_idle" let ?b = "goto 1 Spinning ?a"
  have "reach lock_init hart_step lock_idle"
    by (rule reach_init) (simp add: lock_init_def lock_idle_def)
  moreover have "hart_step lock_idle ?a"
    using acq_read_locked [of lock_idle 0] by (simp add: lock_idle_def)
  moreover have "hart_step ?a ?b"
    using acq_read_locked [of ?a 1] by (simp add: lock_idle_def goto_def)
  moreover have "hart_step ?b ?s"
    using acq_swap [of ?b 0] by (simp add: lock_idle_def goto_def fun_upd_twist)
  ultimately show ?thesis by (blast intro: reach_step)
qed

theorem spinlock_mutual_exclusion_witness:
  "let s = \<lparr>sys_locked = True, sys_cpu = None, sys_pc = (\<lambda>_. Outside)(0 := Swapped, 1 := Spinning)\<rparr>
   in reach lock_init hart_step s \<and> owning (sys_pc s 0) \<and> \<not> owning (sys_pc s 1)"
  using reach_contended spinlock_mutual_exclusion [OF reach_contended, of 0 1] by (simp add: Let_def)

text \<open>
  C32. \<open>push_off\<close>/\<open>pop_off\<close> nest: after \<open>n\<close> calls of \<open>push_off\<close>, fewer than \<open>n\<close> calls
  of \<open>pop_off\<close> succeed and leave interrupts off, and the \<open>n\<close>-th one puts the interrupt
  bit back to what it was before the first \<open>push_off\<close>, on or off.
\<close>

theorem push_pop_nesting:
  assumes "cpu_ok s" "m \<le> n" "0 < n"
  shows "runs (pop_offs m ((push_off ^^ n) s))
    (\<lambda>_ t. intr_get t = (m = n \<and> intr_get s) \<and> c_noff (this_cpu t) = c_noff (this_cpu s) + int (n - m))"
proof (cases "m = n")
  case True
  then show ?thesis
    using assms by (simp add: pop_offs_all) (simp add: calm_def machine_defs)
next
  case False
  have noff: "c_noff (this_cpu ((push_off ^^ k) s)) = c_noff (this_cpu s) + int k" for k
    by (induction k) (simp_all add: push_off_eq machine_defs)
  from False assms obtain k where "n - m = Suc k" by (metis Suc_diff_Suc le_neq_implies_less)
  with False assms noff [of "n - m"] show ?thesis by (simp add: pop_offs_pushes)
qed

theorem push_pop_nesting_witness:
  "let c = \<lparr>c_proc = None, c_noff = 0, c_intena = False, c_sie = True\<rparr>;
       s = \<lparr>tp = 0, cpus = (\<lambda>_. c), locks = (\<lambda>_. \<lparr>lk_locked = False, lk_name = [], lk_cpu = None\<rparr>), klog = []\<rparr>
   in cpu_ok s \<and> runs (pop_offs 2 ((push_off ^^ 2) s)) (\<lambda>_ t. intr_get t)
        \<and> runs (pop_offs 1 ((push_off ^^ 2) s)) (\<lambda>_ t. \<not> intr_get t)"
proof -
  let ?c = "\<lparr>c_proc = None, c_noff = 0, c_intena = False, c_sie = True\<rparr>"
  let ?s = "\<lparr>tp = 0, cpus = (\<lambda>_. ?c), locks = (\<lambda>_. \<lparr>lk_locked = False, lk_name = [], lk_cpu = None\<rparr>), klog = []\<rparr>"
  have ok: "cpu_ok ?s" and on: "intr_get ?s" by (simp_all add: cpu_ok_def machine_defs)
  show ?thesis
    using ok push_pop_nesting [OF ok, of 2 2] push_pop_nesting [OF ok, of 1 2] on
    by (auto simp: Let_def elim: runs_mono)
qed

end
