(* ===== verification/Kstring.thy ===== *)
theory Kstring
  imports Prelude
begin

text \<open>
  Byte memory and the C string routines over it: \<open>kernel/string.c\<close> and
  \<open>lib/sbi/sbi_string.c\<close>. Memory is a map from 64-bit addresses to bytes; a routine that
  writes returns the new memory, pointer arithmetic wraps at 64 bits, and \<open>char\<close> is unsigned
  as on RISC-V. A loop over a count is recursion on that count. A loop that runs until it finds
  a zero byte is a \<open>partial_function\<close>: on a memory without one it has no result.
\<close>

section \<open>Byte memory\<close>

type_synonym bytes = "u64 \<Rightarrow> u8"

text \<open>Little-endian encodings of machine words.\<close>

definition word_of_bytes :: "u8 list \<Rightarrow> 'a::len word" where
  "word_of_bytes xs = foldr (\<lambda>x w. ucast x OR push_bit 8 w) xs 0"

definition bytes_of_word :: "nat \<Rightarrow> 'a::len word \<Rightarrow> u8 list" where
  "bytes_of_word n v = map (\<lambda>i. ucast (drop_bit (8 * i) v)) [0..<n]"

definition load_bytes :: "bytes \<Rightarrow> u64 \<Rightarrow> nat \<Rightarrow> u8 list" where
  "load_bytes m a n = map (\<lambda>i. m (a + of_nat i)) [0..<n]"

fun store_bytes :: "u64 \<Rightarrow> u8 list \<Rightarrow> bytes \<Rightarrow> bytes" where
  "store_bytes a [] m = m"
| "store_bytes a (x # xs) m = store_bytes (a + 1) xs (m(a := x))"

definition load64 :: "bytes \<Rightarrow> u64 \<Rightarrow> u64" where
  "load64 m a = word_of_bytes (load_bytes m a 8)"

definition store64 :: "u64 \<Rightarrow> u64 \<Rightarrow> bytes \<Rightarrow> bytes" where
  "store64 a v m = store_bytes a (bytes_of_word 8 v) m"

section \<open>kernel/string.c\<close>

fun memset_loop :: "nat \<Rightarrow> u64 \<Rightarrow> u8 \<Rightarrow> bytes \<Rightarrow> bytes" where
  "memset_loop 0 d c m = m"
| "memset_loop (Suc n) d c m = memset_loop n (d + 1) c (m(d := c))"

definition memset :: "u64 \<Rightarrow> u32 \<Rightarrow> u32 \<Rightarrow> bytes \<Rightarrow> bytes" where
  "memset dst c n m = memset_loop (unat n) dst (ucast c) m"

fun memcmp_loop :: "nat \<Rightarrow> u64 \<Rightarrow> u64 \<Rightarrow> bytes \<Rightarrow> int" where
  "memcmp_loop 0 s1 s2 m = 0"
| "memcmp_loop (Suc n) s1 s2 m =
     (if m s1 \<noteq> m s2 then uint (m s1) - uint (m s2) else memcmp_loop n (s1 + 1) (s2 + 1) m)"

definition memcmp :: "u64 \<Rightarrow> u64 \<Rightarrow> u32 \<Rightarrow> bytes \<Rightarrow> int" where
  "memcmp v1 v2 n m = memcmp_loop (unat n) v1 v2 m"

fun copy_up :: "nat \<Rightarrow> u64 \<Rightarrow> u64 \<Rightarrow> bytes \<Rightarrow> bytes" where
  "copy_up 0 d s m = m"
| "copy_up (Suc n) d s m = copy_up n (d + 1) (s + 1) (m(d := m s))"

fun copy_down :: "nat \<Rightarrow> u64 \<Rightarrow> u64 \<Rightarrow> bytes \<Rightarrow> bytes" where
  "copy_down 0 d s m = m"
| "copy_down (Suc n) d s m = copy_down n (d - 1) (s - 1) (m(d - 1 := m (s - 1)))"

definition memmove :: "u64 \<Rightarrow> u64 \<Rightarrow> u32 \<Rightarrow> bytes \<Rightarrow> bytes" where
  "memmove dst src n m =
     (if n = 0 then m
      else if src < dst \<and> src + ucast n > dst
        then copy_down (unat n) (dst + ucast n) (src + ucast n) m
        else copy_up (unat n) dst src m)"

definition memcpy :: "u64 \<Rightarrow> u64 \<Rightarrow> u32 \<Rightarrow> bytes \<Rightarrow> bytes" where
  "memcpy dst src n m = memmove dst src n m"

fun strncmp_loop :: "nat \<Rightarrow> u64 \<Rightarrow> u64 \<Rightarrow> bytes \<Rightarrow> int" where
  "strncmp_loop 0 p q m = 0"
| "strncmp_loop (Suc n) p q m =
     (if m p \<noteq> 0 \<and> m p = m q then strncmp_loop n (p + 1) (q + 1) m else uint (m p) - uint (m q))"

definition strncmp :: "u64 \<Rightarrow> u64 \<Rightarrow> u32 \<Rightarrow> bytes \<Rightarrow> int" where
  "strncmp p q n m = strncmp_loop (unat n) p q m"

fun strncpy_loop :: "nat \<Rightarrow> u64 \<Rightarrow> u64 \<Rightarrow> bytes \<Rightarrow> bytes" where
  "strncpy_loop 0 s t m = m"
| "strncpy_loop (Suc n) s t m =
     (let c = m t; m = m(s := c)
      in if c \<noteq> 0 then strncpy_loop n (s + 1) (t + 1) m else memset_loop n (s + 1) 0 m)"

definition strncpy :: "u64 \<Rightarrow> u64 \<Rightarrow> int \<Rightarrow> bytes \<Rightarrow> bytes" where
  "strncpy s t n m = strncpy_loop (nat n) s t m"

fun safestrcpy_loop :: "nat \<Rightarrow> u64 \<Rightarrow> u64 \<Rightarrow> bytes \<Rightarrow> bytes" where
  "safestrcpy_loop 0 s t m = m(s := 0)"
| "safestrcpy_loop (Suc n) s t m =
     (let c = m t; m = m(s := c)
      in if c \<noteq> 0 then safestrcpy_loop n (s + 1) (t + 1) m else m(s + 1 := 0))"

definition safestrcpy :: "u64 \<Rightarrow> u64 \<Rightarrow> int \<Rightarrow> bytes \<Rightarrow> bytes" where
  "safestrcpy s t n m = (if n \<le> 0 then m else safestrcpy_loop (nat (n - 1)) s t m)"

partial_function (option) strlen_loop :: "int \<Rightarrow> u64 \<Rightarrow> bytes \<Rightarrow> int option" where
  "strlen_loop n s m = (if m (s + of_int n) \<noteq> 0 then strlen_loop (n + 1) s m else Some n)"

definition strlen :: "u64 \<Rightarrow> bytes \<Rightarrow> int option" where
  "strlen s m = strlen_loop 0 s m"

section \<open>lib/sbi/sbi\_string.c\<close>

partial_function (option) sbi_strcmp :: "u64 \<Rightarrow> u64 \<Rightarrow> bytes \<Rightarrow> int option" where
  "sbi_strcmp a b m =
     (if m a = m b \<and> m a \<noteq> 0 then sbi_strcmp (a + 1) (b + 1) m else Some (uint (m a) - uint (m b)))"

fun sbi_strncmp_loop :: "nat \<Rightarrow> u64 \<Rightarrow> u64 \<Rightarrow> bytes \<Rightarrow> int" where
  "sbi_strncmp_loop 0 a b m = 0"
| "sbi_strncmp_loop (Suc n) a b m =
     (if m a = m b \<and> m a \<noteq> 0 then sbi_strncmp_loop n (a + 1) (b + 1) m else uint (m a) - uint (m b))"

definition sbi_strncmp :: "u64 \<Rightarrow> u64 \<Rightarrow> u64 \<Rightarrow> bytes \<Rightarrow> int" where
  "sbi_strncmp a b count m = sbi_strncmp_loop (unat count) a b m"

partial_function (option) sbi_strlen_loop :: "u64 \<Rightarrow> u64 \<Rightarrow> bytes \<Rightarrow> u64 option" where
  "sbi_strlen_loop ret str m = (if m str \<noteq> 0 then sbi_strlen_loop (ret + 1) (str + 1) m else Some ret)"

definition sbi_strlen :: "u64 \<Rightarrow> bytes \<Rightarrow> u64 option" where
  "sbi_strlen str m = sbi_strlen_loop 0 str m"

fun sbi_strnlen_loop :: "nat \<Rightarrow> u64 \<Rightarrow> u64 \<Rightarrow> bytes \<Rightarrow> u64" where
  "sbi_strnlen_loop 0 ret str m = ret"
| "sbi_strnlen_loop (Suc n) ret str m =
     (if m str \<noteq> 0 then sbi_strnlen_loop n (ret + 1) (str + 1) m else ret)"

definition sbi_strnlen :: "u64 \<Rightarrow> u64 \<Rightarrow> bytes \<Rightarrow> u64" where
  "sbi_strnlen str count m = sbi_strnlen_loop (unat count) 0 str m"

partial_function (option) sbi_strcpy :: "u64 \<Rightarrow> u64 \<Rightarrow> bytes \<Rightarrow> bytes option" where
  "sbi_strcpy dest src m =
     (if m src \<noteq> 0 then sbi_strcpy (dest + 1) (src + 1) (m(dest := m src)) else Some m)"

fun sbi_strncpy_loop :: "nat \<Rightarrow> u64 \<Rightarrow> u64 \<Rightarrow> bytes \<Rightarrow> bytes" where
  "sbi_strncpy_loop 0 dest src m = m"
| "sbi_strncpy_loop (Suc n) dest src m =
     (if m src \<noteq> 0 then sbi_strncpy_loop n (dest + 1) (src + 1) (m(dest := m src)) else m)"

definition sbi_strncpy :: "u64 \<Rightarrow> u64 \<Rightarrow> u64 \<Rightarrow> bytes \<Rightarrow> bytes" where
  "sbi_strncpy dest src count m = sbi_strncpy_loop (unat count) dest src m"

partial_function (option) sbi_strchr :: "u64 \<Rightarrow> u8 \<Rightarrow> bytes \<Rightarrow> u64 option" where
  "sbi_strchr s c m =
     (if m s \<noteq> 0 \<and> m s \<noteq> c then sbi_strchr (s + 1) c m else Some (if m s = 0 then 0 else s))"

fun sbi_strrchr_loop :: "nat \<Rightarrow> u64 \<Rightarrow> u8 \<Rightarrow> bytes \<Rightarrow> u64" where
  "sbi_strrchr_loop 0 lst c m = lst"
| "sbi_strrchr_loop (Suc n) lst c m = (if m lst \<noteq> c then sbi_strrchr_loop n (lst - 1) c m else lst)"

definition sbi_strrchr :: "u64 \<Rightarrow> u8 \<Rightarrow> bytes \<Rightarrow> u64 option" where
  "sbi_strrchr s c m =
     Option.bind (sbi_strlen s m) (\<lambda>n.
       let lst = sbi_strrchr_loop (if s + n > s then unat n else 0) (s + n) c m
       in Some (if m lst \<noteq> c then 0 else lst))"

definition sbi_memset :: "u64 \<Rightarrow> u32 \<Rightarrow> u64 \<Rightarrow> bytes \<Rightarrow> bytes" where
  "sbi_memset s c count m = memset_loop (unat count) s (ucast c) m"

definition sbi_memcpy :: "u64 \<Rightarrow> u64 \<Rightarrow> u64 \<Rightarrow> bytes \<Rightarrow> bytes" where
  "sbi_memcpy dest src count m = copy_up (unat count) dest src m"

definition sbi_memmove :: "u64 \<Rightarrow> u64 \<Rightarrow> u64 \<Rightarrow> bytes \<Rightarrow> bytes" where
  "sbi_memmove dest src count m =
     (if src = dest then m
      else if dest < src then copy_up (unat count) dest src m
      else copy_down (unat count) (dest + count) (src + count) m)"

fun sbi_memcmp_loop :: "nat \<Rightarrow> u64 \<Rightarrow> u64 \<Rightarrow> bytes \<Rightarrow> int" where
  "sbi_memcmp_loop 0 s1 s2 m = 0"
| "sbi_memcmp_loop (Suc n) s1 s2 m =
     (if m s1 = m s2 then sbi_memcmp_loop n (s1 + 1) (s2 + 1) m else uint (m s1) - uint (m s2))"

definition sbi_memcmp :: "u64 \<Rightarrow> u64 \<Rightarrow> u64 \<Rightarrow> bytes \<Rightarrow> int" where
  "sbi_memcmp s1 s2 count m = sbi_memcmp_loop (unat count) s1 s2 m"

fun sbi_memchr_loop :: "nat \<Rightarrow> u64 \<Rightarrow> u8 \<Rightarrow> bytes \<Rightarrow> u64" where
  "sbi_memchr_loop 0 s c m = 0"
| "sbi_memchr_loop (Suc n) s c m = (if c = m s then s else sbi_memchr_loop n (s + 1) c m)"

definition sbi_memchr :: "u64 \<Rightarrow> u8 \<Rightarrow> u64 \<Rightarrow> bytes \<Rightarrow> u64" where
  "sbi_memchr s c count m = sbi_memchr_loop (unat count) s c m"

section \<open>Memory lemmas\<close>

lemma unat_minus_1: "x \<noteq> 0 \<Longrightarrow> unat (x - 1 :: 'a::len word) = unat x - 1"
  by (metis unat_minus_one)

lemma unat_sub: "unat (x - y :: u64) = (if unat y \<le> unat x then unat x - unat y else unat x + 2 ^ 64 - unat y)"
  by (simp add: unat_sub_if')

lemma unat_of_nat_u64: "n < 2 ^ 64 \<Longrightarrow> unat (of_nat n :: u64) = n"
  by (simp add: unat_of_nat)

lemma unat_minus_one_u64: "unat (- 1 :: u64) = 2 ^ 64 - 1"
  by (simp add: unsigned_minus_1_eq_mask mask_eq_exp_minus_1)

lemma word_of_bytes_map:
  "foldr (\<lambda>x w. ucast x OR push_bit 8 w) (map (\<lambda>i. ucast (drop_bit (8 * i) v) :: u8) [k..<k + n]) 0 =
     take_bit (8 * n) (drop_bit (8 * k) v)" for v :: "'a::len word"
proof (induction n arbitrary: k)
  case (Suc n)
  have "[k..<k + Suc n] = k # [Suc k..<Suc k + n]" using upt_conv_Cons [of k "k + Suc n"] by simp
  then have "foldr (\<lambda>x w. ucast x OR push_bit 8 w) (map (\<lambda>i. ucast (drop_bit (8 * i) v) :: u8) [k..<k + Suc n]) 0 =
      ucast (ucast (drop_bit (8 * k) v) :: u8) OR push_bit 8 (take_bit (8 * n) (drop_bit (8 * Suc k) v))"
    using Suc.IH [of "Suc k"] by (simp del: upt_Suc)
  also have "\<dots> = take_bit (8 * Suc n) (drop_bit (8 * k) v)"
    by (rule bit_word_eqI) (auto simp: bit_simps bit_ucast_iff)
  finally show ?case .
qed simp

lemma word_of_bytes_of_word [simp]:
  "LENGTH('a) \<le> 8 * n \<Longrightarrow> word_of_bytes (bytes_of_word n v) = (v :: 'a::len word)"
  using word_of_bytes_map [of v 0 n] by (simp add: word_of_bytes_def bytes_of_word_def take_bit_word_eq_self)

lemma length_bytes_of_word [simp]: "length (bytes_of_word n v) = n"
  by (simp add: bytes_of_word_def)

lemma store_bytes_at:
  "length xs \<le> 2 ^ 64 \<Longrightarrow>
    store_bytes a xs m b = (if unat (b - a) < length xs then xs ! unat (b - a) else m b)"
proof (induction xs arbitrary: a m)
  case (Cons x xs)
  show ?case
  proof (cases "b = a")
    case True
    have "unat (b - (a + 1)) = 2 ^ 64 - 1" by (simp add: True unat_minus_one_u64)
    then show ?thesis using Cons True by simp
  next
    case False
    then have "b - a \<noteq> 0" "unat (b - a) \<noteq> 0" by (simp_all add: unat_eq_zero)
    then have "unat (b - a) = Suc (unat (b - a - 1))" using unat_minus_1 [of "b - a"] by simp
    then have "unat (b - a) = Suc (unat (b - (a + 1)))" by (simp add: diff_diff_eq)
    then show ?thesis using Cons False by auto
  qed
qed simp

lemma load_store_bytes:
  "length xs \<le> 2 ^ 64 \<Longrightarrow> n = length xs \<Longrightarrow> load_bytes (store_bytes a xs m) a n = xs"
  by (auto simp: load_bytes_def store_bytes_at unat_of_nat_u64 intro!: nth_equalityI)

lemma load_bytes_cong:
  "(\<And>i. i < n \<Longrightarrow> m (a + of_nat i) = m' (a + of_nat i)) \<Longrightarrow> load_bytes m a n = load_bytes m' a n"
  by (simp add: load_bytes_def)

lemma load64_store64 [simp]: "load64 (store64 a v m) a = v"
  by (simp add: load64_def store64_def load_store_bytes)

text \<open>Two words that do not overlap.\<close>

definition apart :: "nat \<Rightarrow> u64 \<Rightarrow> u64 \<Rightarrow> bool" where
  "apart n a b \<longleftrightarrow> n \<le> unat (a - b) \<and> n \<le> unat (b - a)"

lemma store64_other: "8 \<le> unat (b - a) \<Longrightarrow> store64 a v m b = m b"
  by (simp add: store64_def store_bytes_at)

lemma apart_off:
  assumes "apart n a b" "i < n" "n < 2 ^ 63"
  shows "n \<le> unat (b + of_nat i - a)"
proof -
  have d: "b + of_nat i - a = (b - a) + of_nat i" by simp
  have i: "unat (of_nat i :: u64) = i" using assms by (simp add: unat_of_nat_u64)
  have "b \<noteq> a" using assms by (auto simp: apart_def)
  then have "unat (a - b) = 2 ^ 64 - unat (b - a)"
    using unsigned_less [of a, where ?'a = nat] unsigned_less [of b, where ?'a = nat] word_unat_eq_iff [of a b]
    by (auto simp: unat_sub)
  then have "unat (b - a) + i < 2 ^ 64" using assms by (auto simp: apart_def)
  then have "unat ((b - a) + of_nat i) = unat (b - a) + i" using i unat_add_lem [of "b - a" "of_nat i"] by simp
  then show ?thesis using assms unfolding d by (simp add: apart_def)
qed

lemma load64_other: "apart 8 a b \<Longrightarrow> load64 (store64 a v m) b = load64 m b"
  unfolding load64_def
  by (intro arg_cong [of _ _ word_of_bytes] load_bytes_cong store64_other) (simp add: apart_off)

lemma memset_loop_at:
  "n \<le> 2 ^ 64 \<Longrightarrow> memset_loop n d c m b = (if unat (b - d) < n then c else m b)"
proof -
  have "memset_loop n d c m = store_bytes d (replicate n c) m"
    by (induction n arbitrary: d m) simp_all
  then show "n \<le> 2 ^ 64 \<Longrightarrow> ?thesis" by (simp add: store_bytes_at)
qed

lemma memset_at: "memset d c n m b = (if unat (b - d) < unat n then ucast c else m b)"
  using unsigned_less [of n, where ?'a = nat] by (simp add: memset_def memset_loop_at)

section \<open>Copying\<close>

text \<open>
  Copying upwards is right unless the destination starts inside the source, copying downwards
  unless the source starts inside the destination.
\<close>

lemma unat_pred_less: "x \<noteq> 0 \<Longrightarrow> unat (x - 1 :: u64) < n \<longleftrightarrow> unat x < Suc n"
  using unat_minus_1 [of x] unat_0_iff [of x] by auto

lemma copy_up_at:
  assumes "n \<le> 2 ^ 64" "d = s \<or> n \<le> unat (d - s)"
  shows "copy_up n d s m b = (if unat (b - d) < n then m (s + (b - d)) else m b)"
  using assms
proof (induction n arbitrary: d s m)
  case (Suc n)
  define m1 where "m1 = m(d := m s)"
  have e: "b - (d + 1) = b - d - 1" "s + 1 + (b - d - 1) = s + (b - d)" by simp_all
  have "n \<le> 2 ^ 64" "d + 1 = s + 1 \<or> n \<le> unat ((d + 1) - (s + 1))" using Suc.prems by auto
  from Suc.IH [OF this, of m1]
  have IH: "copy_up n (d + 1) (s + 1) m1 b = (if unat (b - d - 1) < n then m1 (s + (b - d)) else m1 b)"
    unfolding e .
  show ?case
  proof (cases "b = d")
    case True
    then show ?thesis using IH Suc.prems by (simp add: unat_minus_one_u64 m1_def)
  next
    case False
    then have "b - d \<noteq> 0" by simp
    moreover have "s + (b - d) \<noteq> d" if "unat (b - d) < Suc n"
    proof
      assume "s + (b - d) = d"
      then have "b - d = d - s" by (metis add_diff_cancel_left')
      with False that Suc.prems show False by auto
    qed
    ultimately show ?thesis using IH False by (simp add: unat_pred_less m1_def)
  qed
qed simp

lemma copy_down_at:
  assumes "n \<le> 2 ^ 64" "d = s \<or> n \<le> unat (s - d)"
  shows "copy_down n d s m b = (if unat (d - 1 - b) < n then m (s - (d - b)) else m b)"
  using assms
proof (induction n arbitrary: d s m)
  case (Suc n)
  define m1 where "m1 = m(d - 1 := m (s - 1))"
  have e: "d - 1 - 1 - b = d - 1 - b - 1" "s - 1 - (d - 1 - b) = s - (d - b)" by simp_all
  have "n \<le> 2 ^ 64" "d - 1 = s - 1 \<or> n \<le> unat ((s - 1) - (d - 1))" using Suc.prems by auto
  from Suc.IH [OF this, of m1]
  have IH: "copy_down n (d - 1) (s - 1) m1 b = (if unat (d - 1 - b - 1) < n then m1 (s - (d - b)) else m1 b)"
    unfolding e .
  show ?case
  proof (cases "b = d - 1")
    case True
    then show ?thesis using IH Suc.prems by (simp add: unat_minus_one_u64 m1_def)
  next
    case False
    then have x: "unat (d - 1 - b - 1) < n \<longleftrightarrow> unat (d - 1 - b) < Suc n" by (intro unat_pred_less) simp
    have "s - (d - b) \<noteq> d - 1" if "unat (d - 1 - b) < Suc n"
    proof
      assume "s - (d - b) = d - 1"
      then have "s = (d - 1 - b) + d" by (simp add: algebra_simps)
      then have "d - 1 - b = s - d" by simp
      with False that Suc.prems show False by auto
    qed
    then have "unat (d - 1 - b) < Suc n \<Longrightarrow> m1 (s - (d - b)) = m (s - (d - b))" "m1 b = m b"
      using False by (simp_all only: m1_def fun_upd_other not_False_eq_True)
    then show ?thesis using IH x by (auto simp only: copy_down.simps m1_def [symmetric] if_True if_False)
  qed
qed simp

text \<open>Ranges that do not run over the end of the address space.\<close>

abbreviation in_range :: "u64 \<Rightarrow> nat \<Rightarrow> bool" where
  "in_range a n \<equiv> unat a + n < 2 ^ 64"

lemma up_distance:
  "in_range d n \<Longrightarrow> in_range s n \<Longrightarrow> unat d \<le> unat s \<or> unat s + n \<le> unat d \<Longrightarrow> d = s \<or> n \<le> unat (d - s)"
  by (auto simp: unat_sub word_unat_eq_iff)

lemma down_distance: "in_range d n \<Longrightarrow> unat s \<le> unat d \<Longrightarrow> d = s \<or> n \<le> unat (s - d)"
  by (auto simp: unat_sub word_unat_eq_iff)

lemma down_index:
  assumes "in_range d n" "0 < n"
  shows "unat (d + of_nat n - 1 - b) < n \<longleftrightarrow> unat (b - d) < n"
proof -
  define x where "x = b - d"
  have "d + of_nat n - 1 - b = of_nat (n - 1) - x" using assms(2) by (simp add: x_def of_nat_diff)
  moreover have "unat (of_nat (n - 1) :: u64) = n - 1" using assms by (intro unat_of_nat_u64) simp
  ultimately have "unat (d + of_nat n - 1 - b) = (if unat x \<le> n - 1 then n - 1 - unat x else n - 1 + 2 ^ 64 - unat x)"
    by (simp add: unat_sub)
  moreover have "unat x < 2 ^ 64" using unsigned_less [of x, where ?'a = nat] by simp
  ultimately show ?thesis using assms(2) by (auto simp flip: x_def)
qed

lemma copy_down_from_end:
  assumes "in_range d n" "unat s \<le> unat d"
  shows "copy_down n (d + of_nat n) (s + of_nat n) m b = (if unat (b - d) < n then m (s + (b - d)) else m b)"
proof (cases "n = 0")
  case False
  have "(d + of_nat n = s + of_nat n) \<or> n \<le> unat ((s + of_nat n) - (d + of_nat n))"
    using down_distance [OF assms] by simp
  then have "copy_down n (d + of_nat n) (s + of_nat n) m b =
      (if unat (d + of_nat n - 1 - b) < n then m (s + of_nat n - (d + of_nat n - b)) else m b)"
    using assms by (intro copy_down_at) simp_all
  also have "s + of_nat n - (d + of_nat n - b) = s + (b - d)" by simp
  finally show ?thesis using down_index [of d n b] assms False by simp
qed simp

lemma memmove_at:
  assumes "in_range dst (unat n)" "in_range src (unat n)"
  shows "memmove dst src n m b = (if unat (b - dst) < unat n then m (src + (b - dst)) else m b)"
proof -
  have n: "ucast n = (of_nat (unat n) :: u64)" "unat n \<le> 2 ^ 64"
    using unsigned_less [of n, where ?'a = nat] by simp_all
  have u: "unat (ucast n :: u64) = unat n"
    using unsigned_less [of n, where ?'a = nat] by (simp add: unsigned_ucast_eq take_bit_nat_eq_self_iff)
  have c: "src < dst \<and> src + ucast n > dst \<longleftrightarrow> unat src < unat dst \<and> unat dst < unat src + unat n"
    using assms(2) unat_add_lem [of src "ucast n"] u by (simp add: word_less_nat_alt)
  show ?thesis
  proof (cases "unat src < unat dst \<and> unat dst < unat src + unat n")
    case True
    then show ?thesis
      using copy_down_from_end [OF assms(1), of src m b, folded n(1)] c by (auto simp: memmove_def)
  next
    case False
    then have "dst = src \<or> unat n \<le> unat (dst - src)" using assms by (intro up_distance) auto
    then show ?thesis using copy_up_at [OF n(2)] c False by (auto simp: memmove_def)
  qed
qed

lemma sbi_memmove_at:
  assumes "in_range dest (unat count)" "in_range src (unat count)"
  shows "sbi_memmove dest src count m b =
    (if unat (b - dest) < unat count then m (src + (b - dest)) else m b)"
proof -
  have n: "unat count \<le> 2 ^ 64" "(of_nat (unat count) :: u64) = count" using assms by simp_all
  consider "src = dest" | "dest < src" | "src < dest" by fastforce
  then show ?thesis
  proof cases
    case 1
    then show ?thesis by (simp add: sbi_memmove_def)
  next
    case 2
    then have "dest = src \<or> unat count \<le> unat (dest - src)"
      using assms by (intro up_distance) (auto simp: word_less_nat_alt)
    then show ?thesis using 2 copy_up_at [OF n(1), of dest src m b] by (simp add: sbi_memmove_def)
  next
    case 3
    then show ?thesis
      using copy_down_from_end [OF assms(1), of src m b] n(2)
      by (auto simp: sbi_memmove_def word_less_nat_alt)
  qed
qed

section \<open>C strings\<close>

fun cstring :: "bytes \<Rightarrow> u64 \<Rightarrow> u8 list \<Rightarrow> bool" where
  "cstring m a [] \<longleftrightarrow> m a = 0"
| "cstring m a (x # xs) \<longleftrightarrow> m a = x \<and> x \<noteq> 0 \<and> cstring m (a + 1) xs"

lemma cstring_cong:
  "(\<And>i. i \<le> length xs \<Longrightarrow> m (a + of_nat i) = m' (a + of_nat i)) \<Longrightarrow> cstring m a xs = cstring m' a xs"
proof (induction xs arbitrary: a)
  case (Cons x xs)
  have "m (a + 1 + of_nat i) = m' (a + 1 + of_nat i)" if "i \<le> length xs" for i
    using Cons.prems [of "Suc i"] that by (simp add: algebra_simps)
  then show ?case using Cons.IH [of "a + 1"] Cons.prems [of 0] by simp
next
  case Nil
  show ?case using Nil [of 0] by simp
qed

lemma sbi_strlen_cstring: "cstring m a xs \<Longrightarrow> sbi_strlen_loop r a m = Some (r + of_nat (length xs))"
  by (induction xs arbitrary: a r) (simp_all add: sbi_strlen_loop.simps algebra_simps)

lemma strlen_cstring: "cstring m (a + of_int n) xs \<Longrightarrow> strlen_loop n a m = Some (n + int (length xs))"
proof (induction xs arbitrary: n)
  case (Cons x xs)
  have "a + of_int (n + 1) = a + of_int n + 1" by simp
  then show ?case using Cons by (subst strlen_loop.simps) (simp add: algebra_simps)
qed (simp add: strlen_loop.simps)

lemma sbi_strcmp_cstring:
  "cstring m a xs \<Longrightarrow> cstring m b ys \<Longrightarrow>
    \<exists>r. sbi_strcmp a b m = Some r \<and> (r = 0 \<longleftrightarrow> xs = ys)"
proof (induction xs arbitrary: a b ys)
  case Nil
  then show ?case by (cases ys) (auto simp: sbi_strcmp.simps uint_0_iff)
next
  case (Cons x xs)
  then show ?case
    using word_uint_eq_iff [of "m a" "m b"] by (cases ys) (auto simp: sbi_strcmp.simps [of a b] uint_0_iff)
qed

lemma strncpy_loop_store:
  assumes "cstring m t xs" "\<And>i j. i < n \<Longrightarrow> j \<le> length xs \<Longrightarrow> s + of_nat i \<noteq> t + of_nat j"
  shows "strncpy_loop n s t m = store_bytes s (take n (xs @ replicate n 0)) m"
  using assms
proof (induction n arbitrary: s t m xs)
  case (Suc n)
  show ?case
  proof (cases xs)
    case Nil
    have "memset_loop n' d c m = store_bytes d (replicate n' c) m" for n' d c m
      by (induction n' arbitrary: d m) simp_all
    with Nil Suc.prems show ?thesis by (simp add: Let_def)
  next
    case (Cons x ys)
    have d: "(s + 1) + of_nat i \<noteq> (t + 1) + of_nat j" if "i < n" "j \<le> length ys" for i j
      using Suc.prems(2) [of "Suc i" "Suc j"] that Cons by (simp add: algebra_simps)
    have "t + 1 + of_nat j \<noteq> s" if "j \<le> length ys" for j
      using Suc.prems(2) [of 0 "Suc j"] that Cons by (auto simp: algebra_simps)
    then have "cstring (m(s := x)) (t + 1) ys = cstring m (t + 1) ys" by (intro cstring_cong) simp
    then have "cstring (m(s := x)) (t + 1) ys" using Suc.prems Cons by simp
    have r: "take k (0 # replicate n 0) = replicate (min k (Suc n)) (0 :: u8)" for k
      by (simp flip: replicate_Suc)
    from Suc.IH [OF \<open>cstring (m(s := x)) (t + 1) ys\<close> d] show ?thesis
      using Suc.prems Cons by (simp add: Let_def fun_upd_def r)
  qed
qed simp

lemma safestrcpy_loop_at:
  assumes "cstring m t xs"
    and "\<And>i j. i \<le> n \<Longrightarrow> j \<le> length xs \<Longrightarrow> s + of_nat i \<noteq> t + of_nat j"
    and "n < 2 ^ 63"
  shows "cstring (safestrcpy_loop n s t m) s (take n xs) \<and>
    (\<forall>b. n < unat (b - s) \<longrightarrow> safestrcpy_loop n s t m b = m b)"
  using assms
proof (induction n arbitrary: s t m xs)
  case (Suc n)
  have u: "unat (b - (s + 1)) = unat (b - s) - 1" if "b \<noteq> s" for b
    using that unat_minus_1 [of "b - s"] by (simp add: diff_diff_eq)
  show ?case
  proof (cases xs)
    case Nil
    have "b \<noteq> s \<and> b \<noteq> s + 1" if "Suc n < unat (b - s)" for b using that by auto
    then show ?thesis using Suc.prems(1) Nil by (auto simp: Let_def)
  next
    case (Cons x ys)
    let ?m = "m(s := x)" let ?r = "safestrcpy_loop n (s + 1) (t + 1) ?m"
    have d: "(s + 1) + of_nat i \<noteq> (t + 1) + of_nat j" if "i \<le> n" "j \<le> length ys" for i j
      using Suc.prems(2) [of "Suc i" "Suc j"] that Cons by (simp add: algebra_simps)
    have "t + 1 + of_nat j \<noteq> s" if "j \<le> length ys" for j
      using Suc.prems(2) [of 0 "Suc j"] that Cons by (auto simp: algebra_simps)
    then have "cstring ?m (t + 1) ys = cstring m (t + 1) ys" by (intro cstring_cong) simp
    then have "cstring ?m (t + 1) ys" using Suc.prems Cons by simp
    from Suc.IH [OF this d] Suc.prems(3)
    have r: "cstring ?r (s + 1) (take n ys)" "\<And>b. n < unat (b - (s + 1)) \<Longrightarrow> ?r b = ?m b"
      by (simp_all add: fun_upd_def)
    have "?r s = x" using r(2) [of s] Suc.prems(3) by (simp add: unat_minus_one_u64)
    moreover have "?r b = m b" if "Suc n < unat (b - s)" for b
      using r(2) [of b] u [of b] that by (cases "b = s") auto
    ultimately show ?thesis
      using Suc.prems(1) Cons r(1) by (auto simp: Let_def)
  qed
qed auto

section \<open>Properties\<close>

text \<open>
  C29. \<open>memmove\<close> and \<open>sbi_memmove\<close>, which choose the direction of their copy loop by
  different tests, both compute the copy a temporary buffer would give, however source and
  destination overlap, and change nothing else.
\<close>

theorem memmove_overlapping:
  assumes "unat dst + unat n < 2 ^ 64" "unat src + unat n < 2 ^ 64"
  shows "memmove dst src n m = store_bytes dst (load_bytes m src (unat n)) m \<and>
    sbi_memmove dst src (ucast n) m = memmove dst src n m"
proof -
  have u: "unat (ucast n :: u64) = unat n" "unat n < 2 ^ 32"
    using unsigned_less [of n, where ?'a = nat] by (simp_all add: unsigned_ucast_eq take_bit_nat_eq_self_iff)
  have "memmove dst src n m b = store_bytes dst (load_bytes m src (unat n)) m b" for b
    using memmove_at [OF assms, of m b] u(2) by (simp add: store_bytes_at load_bytes_def)
  moreover have "sbi_memmove dst src (ucast n) m b = memmove dst src n m b" for b
    using memmove_at [OF assms, of m b] sbi_memmove_at [of dst "ucast n" src m b] assms u by simp
  ultimately show ?thesis by blast
qed

theorem memmove_overlapping_witness:
  "let m = (\<lambda>a. ucast a :: u8)
   in load_bytes (memmove 0x1002 0x1000 4 m) 0x1002 4 = [0, 1, 2, 3] \<and>
      load_bytes (memmove 0x1000 0x1002 4 m) 0x1000 4 = [2, 3, 4, 5] \<and>
      sbi_memmove 0x1002 0x1000 4 m = memmove 0x1002 0x1000 4 m"
proof -
  let ?m = "\<lambda>a. ucast a :: u8"
  have "memmove 0x1002 0x1000 4 ?m = store_bytes 0x1002 (load_bytes ?m 0x1000 4) ?m"
    "memmove 0x1000 0x1002 4 ?m = store_bytes 0x1000 (load_bytes ?m 0x1002 4) ?m"
    "sbi_memmove 0x1002 0x1000 4 ?m = memmove 0x1002 0x1000 4 ?m"
    using memmove_overlapping [of "0x1002" 4 "0x1000" ?m] memmove_overlapping [of "0x1000" 4 "0x1002" ?m] by simp_all
  moreover have "load_bytes ?m 0x1000 4 = [0, 1, 2, 3]" "load_bytes ?m 0x1002 4 = [2, 3, 4, 5]"
    by (simp_all add: load_bytes_def upt_rec)
  ultimately show ?thesis by (simp add: Let_def load_store_bytes del: store_bytes.simps)
qed

text \<open>
  C30. \<open>safestrcpy\<close> into a buffer of \<open>n\<close> bytes: the buffer then holds the first \<open>n - 1\<close>
  characters of the source (all of it if shorter) as a terminated string, and no byte outside the
  buffer changes.
\<close>

theorem safestrcpy_terminates_string:
  assumes "cstring m t xs" "0 < n" "n < 2 ^ 31"
    and "\<And>i j. i < nat n \<Longrightarrow> j \<le> length xs \<Longrightarrow> s + of_nat i \<noteq> t + of_nat j"
  shows "cstring (safestrcpy s t n m) s (take (nat n - 1) xs) \<and>
    (\<forall>b. nat n \<le> unat (b - s) \<longrightarrow> safestrcpy s t n m b = m b)"
proof -
  have e: "safestrcpy s t n m = safestrcpy_loop (nat n - 1) s t m"
    using assms(2) by (simp add: safestrcpy_def nat_diff_distrib)
  have "nat n - 1 < 2 ^ 63" using assms(3) by simp
  then show ?thesis
    using safestrcpy_loop_at [OF assms(1), of "nat n - 1" s] assms(2,4) unfolding e by fastforce
qed

theorem safestrcpy_terminates_string_witness:
  "let m = (\<lambda>_. 0)(0x100 := 97, 0x101 := 98, 0x102 := 99)
   in cstring (safestrcpy 0x200 0x100 3 m) 0x200 [97, 98]"
proof -
  let ?m = "(\<lambda>_. 0)(0x100 := 97, 0x101 := 98, 0x102 := 99) :: bytes"
  have "0x200 + (of_nat i :: u64) \<noteq> 0x100 + of_nat j" if "i < 3" "j \<le> 3" for i j :: nat
  proof -
    have "unat (0x200 + of_nat i :: u64) = 0x200 + i" "unat (0x100 + of_nat j :: u64) = 0x100 + j"
      using that unat_of_nat_u64 [of "0x200 + i"] unat_of_nat_u64 [of "0x100 + j"] by simp_all
    moreover have "0x200 + i \<noteq> 0x100 + j" using that by simp
    ultimately show ?thesis by metis
  qed
  then show ?thesis
    using safestrcpy_terminates_string [of ?m "0x100" "[97, 98, 99]" 3 "0x200"] by (simp add: Let_def)
qed

end
