(* ===== verification/Proc_Table.thy ===== *)
theory Proc_Table
  imports Spinlock Kstring
begin

text \<open>
  The process table and the routines of \<open>kernel/proc.c\<close> that schedule, sleep, wake and
  kill: \<open>struct proc\<close> of \<open>include/proc.h\<close>, \<open>procinit\<close>, \<open>this_proc\<close>, \<open>allocpid\<close>,
  \<open>sched\<close>, \<open>yield\<close>, \<open>sleep\<close>, \<open>wakeup\<close>, \<open>kill\<close>, \<open>setkilled\<close>, \<open>killed\<close>, \<open>reparent\<close>
  and the body of the scheduler's loop.

  A process is named by its index in \<open>proc[NPROC]\<close>, a sleep channel by the object whose
  address it is. \<open>swtch\<close> is assembly and moves control to another thread: a routine that
  calls it is split there, into the part before (\<open>\<dots>_leave\<close>) and the part after
  (\<open>\<dots>_return\<close>), which runs when the scheduler comes back to the process.
\<close>

section \<open>State\<close>

datatype procstate = UNUSED | USED | SLEEPING | RUNNABLE | RUNNING | ZOMBIE

datatype chan =
    ChanProc nat | ChanBuf nat | ChanInode nat | ChanLog | ChanTicks | ChanPipeRead u64 | ChanPipeWrite u64
  | ChanCons | ChanUartTx | ChanDiskFree | ChanDiskBuf nat

record proc =
  p_state :: procstate
  p_chan :: "chan option"
  p_killed :: bool
  p_xstate :: u32
  p_pid :: int
  p_parent :: "nat option"
  p_kstack :: u64
  p_sz :: u64
  p_pagetable :: u64
  p_trapframe :: u64
  p_ra :: u64
  p_sp :: u64
  p_ofile :: "nat \<Rightarrow> nat option"
  p_cwd :: "nat option"
  p_name :: "u8 list"

text \<open>
  \<open>p_ra\<close> and \<open>p_sp\<close> are the fields of \<open>p->context\<close> that C code writes. Null pointers are
  \<open>None\<close> for pointers into kernel tables and 0 for physical addresses.
\<close>

record proc_st = machine +
  procs :: "nat \<Rightarrow> proc"
  nextpid :: int
  initproc :: "nat option"

definition set_proc :: "nat \<Rightarrow> (proc \<Rightarrow> proc) \<Rightarrow> 'a proc_st_scheme \<Rightarrow> 'a proc_st_scheme" where
  "set_proc i f s = s\<lparr>procs := (procs s)(i := f (procs s i))\<rparr>"

section \<open>Operations\<close>

definition MAX_VA :: u64 where "MAX_VA = push_bit 47 1"
definition PGSIZE :: u64 where "PGSIZE = 4096"
definition TRAMPOLINE :: u64 where "TRAMPOLINE = MAX_VA - PGSIZE"
definition TRAPFRAME :: u64 where "TRAPFRAME = TRAMPOLINE - PGSIZE"
definition KSTACK :: "nat \<Rightarrow> u64" where "KSTACK p = TRAMPOLINE - (of_nat p + 1) * 2 * PGSIZE"

fun procinit_loop :: "nat list \<Rightarrow> 'a proc_st_scheme \<Rightarrow> 'a proc_st_scheme" where
  "procinit_loop [] s = s"
| "procinit_loop (i # is) s =
     procinit_loop is (set_proc i (\<lambda>p. p\<lparr>p_state := UNUSED, p_kstack := KSTACK i\<rparr>)
       (initlock (ProcLock i) ''proc'' s))"

definition procinit :: "'a proc_st_scheme \<Rightarrow> 'a proc_st_scheme" where
  "procinit s = procinit_loop [0..<NPROC] (initlock WaitLock ''wait_lock'' (initlock PidLock ''nextpid'' s))"

definition this_proc :: "'a machine_scheme \<Rightarrow> (nat option, 'a machine_scheme) outcome" where
  "this_proc s = (let s = push_off s; p = c_proc (this_cpu s) in bnd (pop_off s) (\<lambda>_ s. Ok p s))"

text \<open>Following the pointer \<open>this_proc()\<close>.\<close>

definition this_proc_deref :: "'a machine_scheme \<Rightarrow> (nat, 'a machine_scheme) outcome" where
  "this_proc_deref s = bnd (this_proc s) (\<lambda>p s. case p of None \<Rightarrow> Undef ''null proc'' | Some i \<Rightarrow> Ok i s)"

definition allocpid :: "'a proc_st_scheme \<Rightarrow> (int, 'a proc_st_scheme) outcome" where
  "allocpid s =
     bnd (acquire PidLock s) (\<lambda>_ s.
     let pid = nextpid s; s = s\<lparr>nextpid := nextpid s + 1\<rparr>
     in bnd (release PidLock s) (\<lambda>_ s. Ok pid s))"

text \<open>\<open>sched\<close>: the checks, then \<open>swtch\<close>; on return the saved \<open>intena\<close> is put back.\<close>

definition sched_leave :: "'a proc_st_scheme \<Rightarrow> (bool, 'a proc_st_scheme) outcome" where
  "sched_leave s =
     bnd (this_proc_deref s) (\<lambda>p s.
     if \<not> holding (ProcLock p) s then Panic ''sched p->lock''
     else if c_noff (this_cpu s) \<noteq> 1 then Panic ''sched locks''
     else if p_state (procs s p) = RUNNING then Panic ''sched running''
     else if intr_get s then Panic ''sched interruptible''
     else Ok (c_intena (this_cpu s)) s)"

definition sched_return :: "bool \<Rightarrow> 'a proc_st_scheme \<Rightarrow> 'a proc_st_scheme" where
  "sched_return intena s = set_this_cpu ((this_cpu s)\<lparr>c_intena := intena\<rparr>) s"

definition yield_leave :: "'a proc_st_scheme \<Rightarrow> (bool, 'a proc_st_scheme) outcome" where
  "yield_leave s =
     bnd (this_proc_deref s) (\<lambda>p s.
     bnd (acquire (ProcLock p) s) (\<lambda>_ s.
     sched_leave (set_proc p (\<lambda>q. q\<lparr>p_state := RUNNABLE\<rparr>) s)))"

definition yield_return :: "nat \<Rightarrow> bool \<Rightarrow> 'a proc_st_scheme \<Rightarrow> (unit, 'a proc_st_scheme) outcome" where
  "yield_return p intena s = release (ProcLock p) (sched_return intena s)"

definition sleep_leave :: "chan \<Rightarrow> lockid \<Rightarrow> 'a proc_st_scheme \<Rightarrow> (bool, 'a proc_st_scheme) outcome" where
  "sleep_leave ch lk s =
     bnd (this_proc_deref s) (\<lambda>p s.
     bnd (acquire (ProcLock p) s) (\<lambda>_ s.
     bnd (release lk s) (\<lambda>_ s.
     sched_leave (set_proc p (\<lambda>q. q\<lparr>p_chan := Some ch, p_state := SLEEPING\<rparr>) s))))"

definition sleep_return :: "nat \<Rightarrow> lockid \<Rightarrow> bool \<Rightarrow> 'a proc_st_scheme \<Rightarrow> (unit, 'a proc_st_scheme) outcome" where
  "sleep_return p lk intena s =
     (let s = set_proc p (\<lambda>q. q\<lparr>p_chan := None\<rparr>) (sched_return intena s)
      in bnd (release (ProcLock p) s) (\<lambda>_ s. acquire lk s))"

text \<open>The end of \<open>exit\<close>, with \<open>wait_lock\<close> held, up to the switch that does not come back.\<close>

definition exit_leave :: "nat \<Rightarrow> u32 \<Rightarrow> 'a proc_st_scheme \<Rightarrow> (bool, 'a proc_st_scheme) outcome" where
  "exit_leave p status s =
     bnd (acquire (ProcLock p) s) (\<lambda>_ s.
     bnd (release WaitLock (set_proc p (\<lambda>x. x\<lparr>p_xstate := status, p_state := ZOMBIE\<rparr>) s)) (\<lambda>_ s.
     sched_leave s))"

fun wakeup_loop :: "nat list \<Rightarrow> chan option \<Rightarrow> 'a proc_st_scheme \<Rightarrow> (unit, 'a proc_st_scheme) outcome" where
  "wakeup_loop [] ch s = Ok () s"
| "wakeup_loop (i # is) ch s =
     bnd (this_proc s) (\<lambda>q s.
     if q \<noteq> Some i then
       bnd (acquire (ProcLock i) s) (\<lambda>_ s.
       let s = (if p_state (procs s i) = SLEEPING \<and> p_chan (procs s i) = ch
                then set_proc i (\<lambda>p. p\<lparr>p_state := RUNNABLE\<rparr>) s else s)
       in bnd (release (ProcLock i) s) (\<lambda>_ s. wakeup_loop is ch s))
     else wakeup_loop is ch s)"

definition wakeup :: "chan option \<Rightarrow> 'a proc_st_scheme \<Rightarrow> (unit, 'a proc_st_scheme) outcome" where
  "wakeup ch s = wakeup_loop [0..<NPROC] ch s"

fun kill_loop :: "nat list \<Rightarrow> int \<Rightarrow> 'a proc_st_scheme \<Rightarrow> (int, 'a proc_st_scheme) outcome" where
  "kill_loop [] pid s = Ok (- 1) s"
| "kill_loop (i # is) pid s =
     bnd (acquire (ProcLock i) s) (\<lambda>_ s.
     if p_pid (procs s i) = pid then
       let s = set_proc i (\<lambda>p. p\<lparr>p_killed := True\<rparr>) s;
           s = (if p_state (procs s i) = SLEEPING then set_proc i (\<lambda>p. p\<lparr>p_state := RUNNABLE\<rparr>) s else s)
       in bnd (release (ProcLock i) s) (\<lambda>_ s. Ok 0 s)
     else bnd (release (ProcLock i) s) (\<lambda>_ s. kill_loop is pid s))"

definition kill :: "int \<Rightarrow> 'a proc_st_scheme \<Rightarrow> (int, 'a proc_st_scheme) outcome" where
  "kill pid s = kill_loop [0..<NPROC] pid s"

definition setkilled :: "nat \<Rightarrow> 'a proc_st_scheme \<Rightarrow> (unit, 'a proc_st_scheme) outcome" where
  "setkilled p s =
     bnd (acquire (ProcLock p) s) (\<lambda>_ s.
     release (ProcLock p) (set_proc p (\<lambda>q. q\<lparr>p_killed := True\<rparr>) s))"

definition killed :: "nat \<Rightarrow> 'a proc_st_scheme \<Rightarrow> (bool, 'a proc_st_scheme) outcome" where
  "killed p s =
     bnd (acquire (ProcLock p) s) (\<lambda>_ s.
     let k = p_killed (procs s p) in bnd (release (ProcLock p) s) (\<lambda>_ s. Ok k s))"

fun reparent_loop :: "nat list \<Rightarrow> nat \<Rightarrow> 'a proc_st_scheme \<Rightarrow> (unit, 'a proc_st_scheme) outcome" where
  "reparent_loop [] p s = Ok () s"
| "reparent_loop (i # is) p s =
     (if p_parent (procs s i) = Some p then
        bnd (wakeup (map_option ChanProc (initproc s)) (set_proc i (\<lambda>q. q\<lparr>p_parent := initproc s\<rparr>) s))
          (\<lambda>_ s. reparent_loop is p s)
      else reparent_loop is p s)"

definition reparent :: "nat \<Rightarrow> 'a proc_st_scheme \<Rightarrow> (unit, 'a proc_st_scheme) outcome" where
  "reparent p s = reparent_loop [0..<NPROC] p s"

text \<open>
  One turn of the scheduler's inner loop: the part before \<open>swtch\<close> returns whether the process
  was dispatched; if so the loop body continues when the process switches back.
\<close>

definition scheduler_dispatch :: "nat \<Rightarrow> 'a proc_st_scheme \<Rightarrow> (bool, 'a proc_st_scheme) outcome" where
  "scheduler_dispatch i s =
     bnd (acquire (ProcLock i) s) (\<lambda>_ s.
     if p_state (procs s i) = RUNNABLE then
       Ok True (set_this_cpu ((this_cpu s)\<lparr>c_proc := Some i\<rparr>) (set_proc i (\<lambda>p. p\<lparr>p_state := RUNNING\<rparr>) s))
     else bnd (release (ProcLock i) s) (\<lambda>_ s. Ok False s))"

definition scheduler_resume :: "nat \<Rightarrow> 'a proc_st_scheme \<Rightarrow> (unit, 'a proc_st_scheme) outcome" where
  "scheduler_resume i s = release (ProcLock i) (set_this_cpu ((this_cpu s)\<lparr>c_proc := None\<rparr>) s)"

section \<open>Critical sections over the process table\<close>

lemma enter_proc_simps [simp]:
  "procs (enter L s) = procs s" "nextpid (enter L s) = nextpid s" "initproc (enter L s) = initproc s"
  by (simp_all add: enter_def set_lock_def push_off_eq)

lemma set_proc_simps [simp]:
  "tp (set_proc i f s) = tp s" "cpus (set_proc i f s) = cpus s" "locks (set_proc i f s) = locks s"
  "klog (set_proc i f s) = klog s" "nextpid (set_proc i f s) = nextpid s" "initproc (set_proc i f s) = initproc s"
  "procs (set_proc i f s) = (procs s)(i := f (procs s i))"
  "settled (set_proc i f s) = settled s" "lock_free L (set_proc i f s) = lock_free L s"
  by (simp_all add: set_proc_def settled_def cpu_ok_def machine_defs lock_free_def)

lemma this_proc_settled: "settled s \<Longrightarrow> this_proc s = Ok (c_proc (cpus s (tp s))) s"
  by (simp add: this_proc_def Let_def push_pop_settled) (simp add: push_off_eq machine_defs)

lemma this_proc_deref_settled:
  "settled s \<Longrightarrow> c_proc (cpus s (tp s)) = Some p \<Longrightarrow> this_proc_deref s = Ok p s"
  by (simp add: this_proc_deref_def this_proc_settled)

lemma bracket_same:
  assumes "settled s" "lock_free L s"
  shows "release L (enter L s) = Ok () s"
proof -
  have "release L (enter L s) = Ok () ((enter L s)\<lparr>cpus := cpus s, locks := locks s\<rparr>)"
    using assms by (intro release_settled) simp_all
  also have "(enter L s)\<lparr>cpus := cpus s, locks := locks s\<rparr> = s"
    by (subst enter_eq) (simp add: locks_idem cpus_idem)
  finally show ?thesis .
qed

lemma bracket_procs:
  assumes "settled s" "lock_free L s"
  shows "release L ((enter L s)\<lparr>procs := X\<rparr>) = Ok () (s\<lparr>procs := X\<rparr>)"
proof -
  let ?t = "(enter L s)\<lparr>procs := X\<rparr>"
  have "release L ?t = Ok () (?t\<lparr>cpus := cpus s, locks := locks s\<rparr>)"
    using assms by (intro release_settled) simp_all
  also have "?t\<lparr>cpus := cpus s, locks := locks s\<rparr> = s\<lparr>procs := X\<rparr>"
    by (subst enter_eq) (simp add: locks_idem cpus_idem)
  finally show ?thesis .
qed

lemma bracket_set_proc:
  "settled s \<Longrightarrow> lock_free L s \<Longrightarrow> release L (set_proc i f (enter L s)) = Ok () (set_proc i f s)"
  using bracket_procs [of s L "(procs s)(i := f (procs s i))"] by (simp add: set_proc_def)

lemma bracket_nextpid:
  assumes "settled s" "lock_free L s"
  shows "release L ((enter L s)\<lparr>nextpid := n\<rparr>) = Ok () (s\<lparr>nextpid := n\<rparr>)"
proof -
  let ?t = "(enter L s)\<lparr>nextpid := n\<rparr>"
  have "release L ?t = Ok () (?t\<lparr>cpus := cpus s, locks := locks s\<rparr>)"
    using assms by (intro release_settled) simp_all
  also have "?t\<lparr>cpus := cpus s, locks := locks s\<rparr> = s\<lparr>nextpid := n\<rparr>"
    by (subst enter_eq) (simp add: locks_idem cpus_idem)
  finally show ?thesis .
qed

lemma allocpid_fresh:
  "settled s \<Longrightarrow> lock_free PidLock s \<Longrightarrow> allocpid s = Ok (nextpid s) (s\<lparr>nextpid := nextpid s + 1\<rparr>)"
  by (simp add: allocpid_def acquire_free Let_def bracket_nextpid)

lemma killed_settled: "settled s \<Longrightarrow> lock_free (ProcLock p) s \<Longrightarrow> killed p s = Ok (p_killed (procs s p)) s"
  by (simp add: killed_def acquire_free bracket_same)

section \<open>Waking up\<close>

definition wakes :: "chan option \<Rightarrow> nat option \<Rightarrow> nat \<Rightarrow> proc \<Rightarrow> bool" where
  "wakes ch me i p \<longleftrightarrow> Some i \<noteq> me \<and> p_state p = SLEEPING \<and> p_chan p = ch"

definition woken :: "nat set \<Rightarrow> chan option \<Rightarrow> nat option \<Rightarrow> (nat \<Rightarrow> proc) \<Rightarrow> nat \<Rightarrow> proc" where
  "woken A ch me ps i = (if i \<in> A \<and> wakes ch me i (ps i) then (ps i)\<lparr>p_state := RUNNABLE\<rparr> else ps i)"

lemma procs_idem: "procs s = X \<Longrightarrow> s\<lparr>procs := X\<rparr> = s" for s :: "'a proc_st_scheme"
  by (cases s) simp

text \<open>The locks of the process table are free, except that of the running process perhaps.\<close>

definition table_free :: "'a machine_scheme \<Rightarrow> bool" where
  "table_free s \<longleftrightarrow> (\<forall>i. Some i \<noteq> c_proc (cpus s (tp s)) \<longrightarrow> lock_free (ProcLock i) s)"

text \<open>
  States with the same harts and locks, and critical sections whose body leaves the harts and the
  locks alone.
\<close>

definition same_harts :: "'a machine_scheme \<Rightarrow> 'a machine_scheme \<Rightarrow> bool" where
  "same_harts s t \<longleftrightarrow> tp t = tp s \<and> cpus t = cpus s \<and> locks t = locks s"

lemma same_harts_cong:
  assumes "same_harts s t"
  shows "settled t = settled s" "lock_free L t = lock_free L s" "table_free t = table_free s" "c_proc (cpus t (tp t)) = c_proc (cpus s (tp s))"
  using assms by (simp_all add: same_harts_def settled_def cpu_ok_def machine_defs lock_free_def table_free_def)

lemma same_harts_refl [simp]: "same_harts s s"
  by (simp add: same_harts_def)

lemma same_harts_trans: "same_harts s t \<Longrightarrow> same_harts t u \<Longrightarrow> same_harts s u"
  by (simp add: same_harts_def)

lemma release_critical:
  assumes "settled s" "lock_free L s" "same_harts (enter L s) t" "P (t\<lparr>cpus := cpus s, locks := locks s\<rparr>)"
  shows "runs (release L t) (\<lambda>_ t. same_harts s t \<and> P t)"
  using release_settled [OF assms(1,2), of t] assms(3,4) by (simp add: same_harts_def)

lemma critical:
  assumes "settled s" "lock_free L s" "runs (body (enter L s)) (\<lambda>_ t. same_harts (enter L s) t \<and> P t)"
    and "\<And>t. P t \<Longrightarrow> P (t\<lparr>cpus := cpus s, locks := locks s\<rparr>)"
  shows "runs (bnd (acquire L s) (\<lambda>_ s. bnd (body s) (\<lambda>_ s. release L s))) (\<lambda>_ t. same_harts s t \<and> P t)"
proof -
  have "runs (body (enter L s)) (\<lambda>_ t. runs (release L t) (\<lambda>_ t. same_harts s t \<and> P t))"
    by (rule runs_mono [OF assms(3)]) (use release_critical [OF assms(1,2)] assms(4) in blast)
  then show ?thesis using assms(2) by (simp add: acquire_free)
qed

lemma wakeup_loop_woken:
  assumes "settled s" "table_free s" "distinct is"
  shows "wakeup_loop is ch s = Ok () (s\<lparr>procs := woken (set is) ch (c_proc (cpus s (tp s))) (procs s)\<rparr>)"
  using assms
proof (induction "is" arbitrary: s)
  case Nil
  then show ?case by (simp add: woken_def procs_idem)
next
  case (Cons i "is")
  let ?me = "c_proc (cpus s (tp s))"
  let ?t = "if wakes ch ?me i (procs s i) then set_proc i (\<lambda>p. p\<lparr>p_state := RUNNABLE\<rparr>) s else s"
  have step: "wakeup_loop (i # is) ch s = wakeup_loop is ch ?t"
  proof (cases "?me = Some i")
    case True
    then show ?thesis using Cons.prems by (simp add: this_proc_settled wakes_def)
  next
    case False
    then have f: "lock_free (ProcLock i) s" using Cons.prems(2) by (auto simp: table_free_def)
    then show ?thesis using Cons.prems False
      by (auto simp: this_proc_settled acquire_free bracket_same bracket_set_proc wakes_def Let_def)
  qed
  have t: "settled ?t" "table_free ?t" "cpus ?t = cpus s" "tp ?t = tp s"
    using Cons.prems by (simp_all add: table_free_def)
  have w: "procs ?t = woken {i} ch ?me (procs s)" by (auto simp: woken_def fun_eq_iff)
  have "woken (set is) ch ?me (procs ?t) = woken (set (i # is)) ch ?me (procs s)"
    using Cons.prems(3) by (auto simp: woken_def fun_eq_iff w wakes_def)
  moreover have "?t\<lparr>procs := X\<rparr> = s\<lparr>procs := X\<rparr>" for X by (simp add: set_proc_def)
  ultimately show ?case
    unfolding step using Cons.IH [OF t(1,2)] Cons.prems(3) t(3,4) by (simp del: set_proc_simps)
qed

lemma wakeup_woken:
  assumes "settled s" "table_free s"
  shows "wakeup ch s = Ok () (s\<lparr>procs := woken {..<NPROC} ch (c_proc (cpus s (tp s))) (procs s)\<rparr>)"
  using wakeup_loop_woken [OF assms, of "[0..<NPROC]" ch] unfolding wakeup_def by (simp add: atLeast0LessThan)

lemma woken_state: "p_state (woken A ch me ps i) =
    (if i \<in> A \<and> wakes ch me i (ps i) then RUNNABLE else p_state (ps i))"
  by (simp add: woken_def)

end
