(* ===== verification/Sleeplock.thy ===== *)
theory Sleeplock
  imports Proc_Table
begin

text \<open>
  Sleep locks: \<open>kernel/sleeplock.c\<close> and \<open>struct sleeplock\<close> of \<open>include/sleeplock.h\<close>. The
  kernel has one per buffer and one per in-memory inode. A process that finds the lock taken goes
  to sleep inside \<open>acquire_sleep\<close>, which in the sequential view is the outcome \<open>Block\<close>;
  \<open>acquire_sleep_wait\<close> is the body of that loop, up to the switch to the scheduler.
\<close>

section \<open>Operations\<close>

datatype sleepid = BufSleep nat | InodeSleep nat

fun sl_lk :: "sleepid \<Rightarrow> lockid" where
  "sl_lk (BufSleep i) = BufSleepLk i"
| "sl_lk (InodeSleep i) = InodeSleepLk i"

fun sl_chan :: "sleepid \<Rightarrow> chan" where
  "sl_chan (BufSleep i) = ChanBuf i"
| "sl_chan (InodeSleep i) = ChanInode i"

record sleeplock =
  sl_locked :: bool
  sl_name :: string
  sl_pid :: int

record sleep_st = proc_st +
  sleeplocks :: "sleepid \<Rightarrow> sleeplock"

definition set_sleeplock :: "sleepid \<Rightarrow> sleeplock \<Rightarrow> 'a sleep_st_scheme \<Rightarrow> 'a sleep_st_scheme" where
  "set_sleeplock l v s = s\<lparr>sleeplocks := (sleeplocks s)(l := v)\<rparr>"

definition init_sleeplock :: "sleepid \<Rightarrow> string \<Rightarrow> 'a sleep_st_scheme \<Rightarrow> 'a sleep_st_scheme" where
  "init_sleeplock l name s =
     set_sleeplock l \<lparr>sl_locked = False, sl_name = name, sl_pid = 0\<rparr> (initlock (sl_lk l) ''sleep lock'' s)"

definition acquire_sleep :: "sleepid \<Rightarrow> 'a sleep_st_scheme \<Rightarrow> (unit, 'a sleep_st_scheme) outcome" where
  "acquire_sleep l s =
     bnd (acquire (sl_lk l) s) (\<lambda>_ s.
     if sl_locked (sleeplocks s l) then Block
     else let s = set_sleeplock l ((sleeplocks s l)\<lparr>sl_locked := True\<rparr>) s
     in bnd (this_proc_deref s) (\<lambda>p s.
     let s = set_sleeplock l ((sleeplocks s l)\<lparr>sl_pid := p_pid (procs s p)\<rparr>) s
     in release (sl_lk l) s))"

definition acquire_sleep_wait :: "sleepid \<Rightarrow> 'a sleep_st_scheme \<Rightarrow> (bool option, 'a sleep_st_scheme) outcome" where
  "acquire_sleep_wait l s =
     (if sl_locked (sleeplocks s l) then bnd (sleep_leave (sl_chan l) (sl_lk l) s) (\<lambda>ie s. Ok (Some ie) s)
      else Ok None s)"

definition release_sleep :: "sleepid \<Rightarrow> 'a sleep_st_scheme \<Rightarrow> (unit, 'a sleep_st_scheme) outcome" where
  "release_sleep l s =
     bnd (acquire (sl_lk l) s) (\<lambda>_ s.
     let s = set_sleeplock l ((sleeplocks s l)\<lparr>sl_locked := False, sl_pid := 0\<rparr>) s
     in bnd (wakeup (Some (sl_chan l)) s) (\<lambda>_ s. release (sl_lk l) s))"

definition holding_sleep :: "sleepid \<Rightarrow> 'a sleep_st_scheme \<Rightarrow> (bool, 'a sleep_st_scheme) outcome" where
  "holding_sleep l s =
     bnd (acquire (sl_lk l) s) (\<lambda>_ s.
     bnd (if sl_locked (sleeplocks s l)
          then bnd (this_proc_deref s) (\<lambda>p s. Ok (sl_pid (sleeplocks s l) = p_pid (procs s p)) s)
          else Ok False s) (\<lambda>r s.
     bnd (release (sl_lk l) s) (\<lambda>_ s. Ok r s)))"

section \<open>Lemmas\<close>

lemma enter_sleep_simps [simp]: "sleeplocks (enter L s) = sleeplocks s"
  by (simp add: enter_def set_lock_def push_off_eq)

lemma set_sleeplock_simps [simp]:
  "tp (set_sleeplock l v s) = tp s" "cpus (set_sleeplock l v s) = cpus s" "locks (set_sleeplock l v s) = locks s"
  "procs (set_sleeplock l v s) = procs s" "sleeplocks (set_sleeplock l v s) = (sleeplocks s)(l := v)"
  "settled (set_sleeplock l v s) = settled s" "lock_free L (set_sleeplock l v s) = lock_free L s"
  "table_free (set_sleeplock l v s) = table_free s"
  "set_sleeplock l v (set_sleeplock l w s) = set_sleeplock l v s"
  by (simp_all add: set_sleeplock_def settled_def cpu_ok_def machine_defs lock_free_def table_free_def)

lemma sl_lk_neq [simp]: "sl_lk l \<noteq> ProcLock i" "ProcLock i \<noteq> sl_lk l" "sl_lk l = sl_lk k \<longleftrightarrow> l = k"
  by (cases l; cases k; simp)+

lemma table_free_enter [simp]: "table_free s \<Longrightarrow> table_free (enter (sl_lk l) s)"
  by (auto simp: table_free_def)

lemma bracket_sleep:
  assumes "settled s" "lock_free L s"
  shows "release L ((enter L s)\<lparr>sleeplocks := X\<rparr>) = Ok () (s\<lparr>sleeplocks := X\<rparr>)"
    and "release L ((enter L s)\<lparr>sleeplocks := X, procs := Y\<rparr>) = Ok () (s\<lparr>sleeplocks := X, procs := Y\<rparr>)"
proof -
  have u: "(enter L s)\<lparr>sleeplocks := X\<rparr>\<lparr>cpus := cpus s, locks := locks s\<rparr> = s\<lparr>sleeplocks := X\<rparr>"
    "(enter L s)\<lparr>sleeplocks := X, procs := Y\<rparr>\<lparr>cpus := cpus s, locks := locks s\<rparr> = s\<lparr>sleeplocks := X, procs := Y\<rparr>"
    by (subst enter_eq, simp add: locks_idem cpus_idem)+
  show "release L ((enter L s)\<lparr>sleeplocks := X\<rparr>) = Ok () (s\<lparr>sleeplocks := X\<rparr>)"
    using assms unfolding u(1) [symmetric] by (intro release_settled) simp_all
  show "release L ((enter L s)\<lparr>sleeplocks := X, procs := Y\<rparr>) = Ok () (s\<lparr>sleeplocks := X, procs := Y\<rparr>)"
    using assms unfolding u(2) [symmetric] by (intro release_settled) simp_all
qed

lemma acquire_sleep_free:
  assumes "settled s" "lock_free (sl_lk l) s" "\<not> sl_locked (sleeplocks s l)" "c_proc (cpus s (tp s)) = Some p"
  shows "acquire_sleep l s =
    Ok () (set_sleeplock l ((sleeplocks s l)\<lparr>sl_locked := True, sl_pid := p_pid (procs s p)\<rparr>) s)"
proof -
  have "this_proc_deref (set_sleeplock l v (enter (sl_lk l) s)) = Ok p (set_sleeplock l v (enter (sl_lk l) s))" for v
    using assms by (intro this_proc_deref_settled) simp_all
  then show ?thesis
    using assms by (simp add: acquire_sleep_def acquire_free Let_def) (simp add: set_sleeplock_def bracket_sleep)
qed

lemma acquire_sleep_taken:
  "lock_free (sl_lk l) s \<Longrightarrow> sl_locked (sleeplocks s l) \<Longrightarrow> acquire_sleep l s = Block"
  by (simp add: acquire_sleep_def acquire_free)

lemma holding_sleep_settled:
  assumes "settled s" "lock_free (sl_lk l) s" "c_proc (cpus s (tp s)) = Some p"
  shows "holding_sleep l s = Ok (sl_locked (sleeplocks s l) \<and> sl_pid (sleeplocks s l) = p_pid (procs s p)) s"
proof -
  have "this_proc_deref (enter (sl_lk l) s) = Ok p (enter (sl_lk l) s)"
    using assms by (intro this_proc_deref_settled) simp_all
  then show ?thesis using assms by (simp add: holding_sleep_def acquire_free bracket_same)
qed

lemma release_sleep_settled:
  assumes "settled s" "lock_free (sl_lk l) s" "table_free s"
  shows "release_sleep l s =
    Ok () (s\<lparr>sleeplocks := (sleeplocks s)(l := (sleeplocks s l)\<lparr>sl_locked := False, sl_pid := 0\<rparr>),
      procs := woken {..<NPROC} (Some (sl_chan l)) (c_proc (cpus s (tp s))) (procs s)\<rparr>)"
proof -
  let ?v = "(sleeplocks s l)\<lparr>sl_locked := False, sl_pid := 0\<rparr>"
  let ?t = "set_sleeplock l ?v (enter (sl_lk l) s)"
  have "wakeup (Some (sl_chan l)) ?t =
      Ok () (?t\<lparr>procs := woken {..<NPROC} (Some (sl_chan l)) (c_proc (cpus s (tp s))) (procs s)\<rparr>)"
    using assms wakeup_woken [of ?t "Some (sl_chan l)"] by simp
  then show ?thesis
    using assms by (simp add: release_sleep_def acquire_free Let_def) (simp add: set_sleeplock_def bracket_sleep)
qed

end
