(* ===== verification/Kalloc.thy ===== *)
theory Kalloc
  imports Sleeplock
begin

text \<open>
  The physical page allocator of \<open>kernel/kalloc.c\<close>. Physical memory is a byte memory; the free
  pages form a singly linked list whose \<open>next\<close> pointers are the first eight bytes of the free
  pages themselves, exactly as \<open>struct run\<close> lays them out. The linker symbols
  \<open>kernel_start\<close> and \<open>kernel_end\<close> and the memory bounds read from the device tree are
  arguments of \<open>kinit\<close>.
\<close>

section \<open>Operations\<close>

record mem_st = sleep_st +
  mem :: bytes
  freelist :: u64
  npage :: u64
  km_ram_start :: u64
  km_ram_avail_start :: u64
  km_ram_size :: u64
  km_ram_avail_size :: u64
  km_ram_stop :: u64
  km_kernel_start :: u64
  km_kernel_end :: u64

definition PGROUNDUP :: "u64 \<Rightarrow> u64" where
  "PGROUNDUP sz = (sz + PGSIZE - 1) AND NOT (PGSIZE - 1)"

definition PGROUNDDOWN :: "u64 \<Rightarrow> u64" where
  "PGROUNDDOWN a = a AND NOT (PGSIZE - 1)"

definition kfree :: "u64 \<Rightarrow> 'a mem_st_scheme \<Rightarrow> (unit, 'a mem_st_scheme) outcome" where
  "kfree pa s =
     (if pa mod PGSIZE \<noteq> 0 \<or> pa < km_kernel_end s \<or> pa \<ge> km_ram_stop s then Panic ''kfree''
      else let s = s\<lparr>mem := memset pa 1 (ucast PGSIZE) (mem s)\<rparr>
      in bnd (acquire KmemLock s) (\<lambda>_ s.
         let s = s\<lparr>mem := store64 pa (freelist s) (mem s)\<rparr>;
             s = s\<lparr>freelist := pa\<rparr>;
             s = s\<lparr>npage := npage s + 1\<rparr>
         in release KmemLock s))"

definition kalloc :: "'a mem_st_scheme \<Rightarrow> (u64, 'a mem_st_scheme) outcome" where
  "kalloc s =
     bnd (acquire KmemLock s) (\<lambda>_ s.
     let r = freelist s;
         s = (if r \<noteq> 0 then s\<lparr>freelist := load64 (mem s) r, npage := npage s - 1\<rparr> else s)
     in bnd (release KmemLock s) (\<lambda>_ s.
        Ok r (if r \<noteq> 0 then s\<lparr>mem := memset r 5 (ucast PGSIZE) (mem s)\<rparr> else s)))"

text \<open>
  The loop of \<open>freerange\<close>; its fuel is the number of pages in the range and two more turns,
  the last test and the turn after a wrap-around of \<open>p\<close>, in which \<open>kfree\<close> panics.
\<close>

fun freerange_loop :: "nat \<Rightarrow> u64 \<Rightarrow> u64 \<Rightarrow> 'a mem_st_scheme \<Rightarrow> (unit, 'a mem_st_scheme) outcome" where
  "freerange_loop 0 p pa_end s = Block"
| "freerange_loop (Suc n) p pa_end s =
     (if p + PGSIZE \<le> pa_end then bnd (kfree p s) (\<lambda>_ s. freerange_loop n (p + PGSIZE) pa_end s)
      else Ok () s)"

definition freerange :: "u64 \<Rightarrow> u64 \<Rightarrow> 'a mem_st_scheme \<Rightarrow> (unit, 'a mem_st_scheme) outcome" where
  "freerange pa_start pa_end s = freerange_loop (unat ((pa_end - PGROUNDUP pa_start) div PGSIZE) + 2) (PGROUNDUP pa_start) pa_end s"

definition kinit :: "u64 \<Rightarrow> u64 \<Rightarrow> u64 \<Rightarrow> u64 \<Rightarrow> 'a mem_st_scheme \<Rightarrow> (unit, 'a mem_st_scheme) outcome" where
  "kinit kernel_start kernel_end ram_start ram_size s =
     (let s = initlock KmemLock ''kmem'' s;
          s = s\<lparr>freelist := 0, npage := 0, km_kernel_start := kernel_start, km_kernel_end := kernel_end,
                km_ram_start := ram_start, km_ram_avail_start := kernel_end, km_ram_size := ram_size\<rparr>;
          s = s\<lparr>km_ram_stop := km_ram_start s + km_ram_size s\<rparr>;
          s = s\<lparr>km_ram_avail_size := km_ram_stop s - km_ram_avail_start s\<rparr>
      in bnd (freerange (km_ram_avail_start s) (km_ram_stop s) s) (\<lambda>_ s.
         Ok () (pr ''kinit'' (pr ''kernel_end: %p, phystop: %p'' s))))"

definition freemem_amount :: "'a mem_st_scheme \<Rightarrow> u64" where
  "freemem_amount s = push_bit 12 (npage s)"

section \<open>The free list\<close>

text \<open>\<open>chain_of m r xs\<close>: following the links from \<open>r\<close> visits the pages \<open>xs\<close> and ends.\<close>

fun chain_of :: "bytes \<Rightarrow> u64 \<Rightarrow> u64 list \<Rightarrow> bool" where
  "chain_of m r [] \<longleftrightarrow> r = 0"
| "chain_of m r (x # xs) \<longleftrightarrow> r = x \<and> x \<noteq> 0 \<and> chain_of m (load64 m x) xs"

definition page_ok :: "'a mem_st_scheme \<Rightarrow> u64 \<Rightarrow> bool" where
  "page_ok s pa \<longleftrightarrow> pa mod PGSIZE = 0 \<and> km_kernel_end s \<le> pa \<and> pa < km_ram_stop s"

definition kmem_inv :: "'a mem_st_scheme \<Rightarrow> u64 list \<Rightarrow> bool" where
  "kmem_inv s xs \<longleftrightarrow> chain_of (mem s) (freelist s) xs \<and> distinct xs \<and> (\<forall>x \<in> set xs. page_ok s x) \<and>
     npage s = of_nat (length xs) \<and> 0 < km_kernel_end s"

lemma enter_mem_simps [simp]:
  "mem (enter L s) = mem s" "freelist (enter L s) = freelist s" "npage (enter L s) = npage s"
  "km_kernel_end (enter L s) = km_kernel_end s" "km_ram_stop (enter L s) = km_ram_stop s"
  by (simp_all add: enter_def set_lock_def push_off_eq)

lemma PGSIZE_simps [simp]: "unat PGSIZE = 4096" "unat (ucast PGSIZE :: u32) = 4096"
  by (simp_all add: PGSIZE_def unsigned_ucast_eq)

lemma page_apart:
  assumes "x mod PGSIZE = 0" "y mod PGSIZE = 0" "x \<noteq> y"
  shows "apart 4096 x y"
proof -
  have m: "unat x mod 4096 = 0" "unat y mod 4096 = 0"
    using arg_cong [OF assms(1), of unat] arg_cong [OF assms(2), of unat] by (simp_all add: unat_mod)
  then have d: "4096 dvd unat (x - y)" "4096 dvd unat (y - x)"
    by (auto simp: unat_sub mod_eq_0_iff_dvd intro!: dvd_diff_nat dvd_add)
  have "unat (x - y) \<noteq> 0" "unat (y - x) \<noteq> 0" using assms(3) by (simp_all add: unat_0_iff)
  with d show ?thesis unfolding apart_def by (auto dest: dvd_imp_le)
qed

lemma load64_memset_other:
  assumes "apart 4096 p x"
  shows "load64 (memset p c (ucast PGSIZE) m) x = load64 m x"
  unfolding load64_def
proof (intro arg_cong [of _ _ word_of_bytes] load_bytes_cong)
  fix i :: nat assume "i < 8"
  then have "4096 \<le> unat (x + of_nat i - p)" using apart_off [OF assms] by simp
  then show "memset p c (ucast PGSIZE) m (x + of_nat i) = m (x + of_nat i)" by (simp add: memset_at)
qed

lemma apart_mono: "apart n x y \<Longrightarrow> k \<le> n \<Longrightarrow> apart k x y"
  by (auto simp: apart_def)

lemma apart_sym: "apart n x y \<longleftrightarrow> apart n y x"
  by (auto simp: apart_def)

lemma chain_of_cong:
  "chain_of m r xs \<Longrightarrow> (\<And>x. x \<in> set xs \<Longrightarrow> load64 m' x = load64 m x) \<Longrightarrow> chain_of m' r xs"
  by (induction xs arbitrary: r) auto

lemma bracket_mem:
  assumes "settled s" "lock_free L s"
  shows "release L ((enter L s)\<lparr>freelist := f, npage := n\<rparr>) = Ok () (s\<lparr>freelist := f, npage := n\<rparr>)"
    and "release L ((enter L s)\<lparr>mem := m, freelist := f, npage := n\<rparr>) = Ok () (s\<lparr>mem := m, freelist := f, npage := n\<rparr>)"
proof -
  have u: "(enter L s)\<lparr>freelist := f, npage := n\<rparr>\<lparr>cpus := cpus s, locks := locks s\<rparr> = s\<lparr>freelist := f, npage := n\<rparr>"
    "(enter L s)\<lparr>mem := m, freelist := f, npage := n\<rparr>\<lparr>cpus := cpus s, locks := locks s\<rparr> = s\<lparr>mem := m, freelist := f, npage := n\<rparr>"
    by (subst enter_eq, simp add: locks_idem cpus_idem)+
  show "release L ((enter L s)\<lparr>freelist := f, npage := n\<rparr>) = Ok () (s\<lparr>freelist := f, npage := n\<rparr>)"
    using assms unfolding u(1) [symmetric] by (intro release_settled) simp_all
  show "release L ((enter L s)\<lparr>mem := m, freelist := f, npage := n\<rparr>) = Ok () (s\<lparr>mem := m, freelist := f, npage := n\<rparr>)"
    using assms unfolding u(2) [symmetric] by (intro release_settled) simp_all
qed

lemma settled_mem [simp]:
  "settled (s\<lparr>mem := m\<rparr>) = settled s" "lock_free L (s\<lparr>mem := m\<rparr>) = lock_free L s"
  by (simp_all add: settled_def cpu_ok_def machine_defs lock_free_def)

lemma kalloc_empty:
  "settled s \<Longrightarrow> lock_free KmemLock s \<Longrightarrow> kmem_inv s [] \<Longrightarrow> kalloc s = Ok 0 s"
  by (simp add: kalloc_def acquire_free kmem_inv_def bracket_same)

definition kalloc_post :: "u64 \<Rightarrow> 'a mem_st_scheme \<Rightarrow> 'a mem_st_scheme" where
  "kalloc_post x s = s\<lparr>freelist := load64 (mem s) x, npage := npage s - 1,
      mem := memset x 5 (ucast PGSIZE) (mem s)\<rparr>"

definition kfree_post :: "u64 \<Rightarrow> 'a mem_st_scheme \<Rightarrow> 'a mem_st_scheme" where
  "kfree_post pa s = s\<lparr>mem := store64 pa (freelist s) (memset pa 1 (ucast PGSIZE) (mem s)),
      freelist := pa, npage := npage s + 1\<rparr>"

lemma kalloc_pop:
  assumes "settled s" "lock_free KmemLock s" "kmem_inv s (x # xs)"
  shows "kalloc s = Ok x (kalloc_post x s)" "kmem_inv (kalloc_post x s) xs" "x \<noteq> 0"
proof -
  have f: "freelist s = x" "x \<noteq> 0" "chain_of (mem s) (load64 (mem s) x) xs" "x \<notin> set xs" "page_ok s x"
    using assms(3) by (auto simp: kmem_inv_def)
  show "kalloc s = Ok x (kalloc_post x s)" "x \<noteq> 0"
    using assms f by (simp_all add: kalloc_def acquire_free Let_def bracket_mem kalloc_post_def)
  have "load64 (memset x 5 (ucast PGSIZE) (mem s)) y = load64 (mem s) y" if "y \<in> set xs" for y
    using that assms(3) f by (intro load64_memset_other page_apart) (auto simp: kmem_inv_def page_ok_def)
  then have "chain_of (memset x 5 (ucast PGSIZE) (mem s)) (load64 (mem s) x) xs"
    by (rule chain_of_cong [OF f(3)])
  then show "kmem_inv (kalloc_post x s) xs" using assms(3) by (auto simp: kmem_inv_def page_ok_def kalloc_post_def)
qed

lemma kfree_push:
  assumes "settled s" "lock_free KmemLock s" "kmem_inv s xs" "page_ok s pa" "pa \<notin> set xs"
  shows "kfree pa s = Ok () (kfree_post pa s)" "kmem_inv (kfree_post pa s) (pa # xs)"
proof -
  let ?m = "memset pa 1 (ucast PGSIZE) (mem s)"
  have e: "settled (s\<lparr>mem := ?m\<rparr>)" "lock_free KmemLock (s\<lparr>mem := ?m\<rparr>)" using assms by simp_all
  show "kfree pa s = Ok () (kfree_post pa s)"
    using assms(4) bracket_mem(2) [OF e] acquire_free [OF e(2)]
    by (simp add: kfree_def Let_def page_ok_def not_less not_le kfree_post_def)
  have "pa \<noteq> 0" using assms(3,4) by (auto simp: kmem_inv_def page_ok_def)
  have "load64 (store64 pa (freelist s) ?m) x = load64 (mem s) x" if "x \<in> set xs" for x
  proof -
    have a: "apart 4096 pa x" using that assms by (intro page_apart) (auto simp: kmem_inv_def page_ok_def)
    then show ?thesis using load64_other [of pa x] load64_memset_other [of pa x] apart_mono [OF a, of 8] by simp
  qed
  moreover have "chain_of (mem s) (freelist s) xs" using assms(3) by (simp add: kmem_inv_def)
  ultimately have "chain_of (store64 pa (freelist s) ?m) (freelist s) xs" by (blast intro: chain_of_cong)
  then show "kmem_inv (kfree_post pa s) (pa # xs)"
    using assms \<open>pa \<noteq> 0\<close> by (auto simp: kmem_inv_def page_ok_def kfree_post_def)
qed

section \<open>The interface of a page pool\<close>

text \<open>
  What the clients of the allocator rely on: in a state \<open>calm\<close> enough to run (\<open>ready\<close>),
  with the free pages \<open>xs\<close>, allocation takes a page off the pool or reports that there is none,
  and freeing a page that is not in the pool puts it back. Over any sequence of allocations the
  pages handed out are pairwise different.
\<close>

fun allocs :: "('s \<Rightarrow> ('p, 's) outcome) \<Rightarrow> nat \<Rightarrow> 's \<Rightarrow> ('p list, 's) outcome" where
  "allocs alloc 0 s = Ok [] s"
| "allocs alloc (Suc n) s = bnd (alloc s) (\<lambda>r s. bnd (allocs alloc n s) (\<lambda>rs s. Ok (r # rs) s))"

locale page_pool =
  fixes ready :: "'s \<Rightarrow> bool" and pool :: "'s \<Rightarrow> 'p list \<Rightarrow> bool" and null :: 'p
    and alloc :: "'s \<Rightarrow> ('p, 's) outcome"
  assumes alloc_none: "ready s \<Longrightarrow> pool s [] \<Longrightarrow> runs (alloc s) (\<lambda>r t. r = null \<and> t = s)"
    and alloc_some: "ready s \<Longrightarrow> pool s (x # xs) \<Longrightarrow> runs (alloc s) (\<lambda>r t. r = x \<and> ready t \<and> pool t xs)"
    and pool_distinct: "pool s xs \<Longrightarrow> distinct xs \<and> null \<notin> set xs"
begin

lemma allocs_take:
  "ready s \<Longrightarrow> pool s xs \<Longrightarrow> n \<le> length xs \<Longrightarrow>
    runs (allocs alloc n s) (\<lambda>rs t. rs = take n xs \<and> ready t \<and> pool t (drop n xs))"
proof (induction n arbitrary: s xs)
  case (Suc n)
  then obtain y ys where x: "xs = y # ys" by (cases xs) auto
  then have "runs (alloc s) (\<lambda>r t. r = y \<and> ready t \<and> pool t ys)" using Suc alloc_some by simp
  then obtain t where t: "alloc s = Ok y t" "ready t" "pool t ys" by (auto simp: runs_iff)
  then show ?case using Suc.IH [OF t(2,3)] Suc.prems(3) x by (auto intro: runs_mono)
qed simp

lemma allocs_distinct:
  "ready s \<Longrightarrow> pool s xs \<Longrightarrow> n \<le> length xs \<Longrightarrow> runs (allocs alloc n s) (\<lambda>rs t. distinct rs \<and> null \<notin> set rs)"
  using allocs_take [of s xs n] pool_distinct [of s xs] by (auto simp: runs_iff dest: in_set_takeD)

end

definition kmem_ready :: "'a mem_st_scheme \<Rightarrow> bool" where
  "kmem_ready s \<longleftrightarrow> settled s \<and> lock_free KmemLock s"

lemma kalloc_post_ready: "kmem_ready (kalloc_post x s) = kmem_ready s"
  by (simp add: kmem_ready_def kalloc_post_def settled_def cpu_ok_def machine_defs lock_free_def)

lemma kfree_post_ready: "kmem_ready (kfree_post x s) = kmem_ready s"
  by (simp add: kmem_ready_def kfree_post_def settled_def cpu_ok_def machine_defs lock_free_def)

lemma chain_of_nonnull: "chain_of m r xs \<Longrightarrow> 0 \<notin> set xs"
  by (induction xs arbitrary: r) auto

interpretation kpool: page_pool kmem_ready kmem_inv 0 kalloc
proof unfold_locales
  show "kmem_ready s \<Longrightarrow> kmem_inv s [] \<Longrightarrow> runs (kalloc s) (\<lambda>r t. r = 0 \<and> t = s)" for s
    by (simp add: kmem_ready_def kalloc_empty)
  show "kmem_ready s \<Longrightarrow> kmem_inv s (x # xs) \<Longrightarrow> runs (kalloc s) (\<lambda>r t. r = x \<and> kmem_ready t \<and> kmem_inv t xs)" for s x xs
    using kalloc_pop [of s x xs] kalloc_post_ready [of x s] by (simp add: kmem_ready_def)
  show "kmem_inv s xs \<Longrightarrow> distinct xs \<and> 0 \<notin> set xs" for s xs
    by (auto simp: kmem_inv_def dest: chain_of_nonnull)
qed

section \<open>Initialisation\<close>

text \<open>The pages from \<open>p\<close> on, in the order in which \<open>freerange\<close> frees them.\<close>

definition pages :: "u64 \<Rightarrow> nat \<Rightarrow> u64 list" where
  "pages p n = map (\<lambda>i. p + of_nat i * PGSIZE) [0..<n]"

lemma pages_Suc: "pages p (Suc n) = p # pages (p + PGSIZE) n"
proof -
  have "[0..<Suc n] = 0 # map Suc [0..<n]" by (simp add: map_Suc_upt upt_conv_Cons del: upt_Suc)
  then show ?thesis by (simp add: pages_def algebra_simps)
qed

lemma unat_next_page: "unat p + 4096 < 2 ^ 64 \<Longrightarrow> unat (p + PGSIZE) = unat p + 4096"
  using unat_add_lem [of p PGSIZE] by simp

lemma next_page_aligned: "p mod PGSIZE = 0 \<Longrightarrow> unat p + 4096 < 2 ^ 64 \<Longrightarrow> (p + PGSIZE) mod PGSIZE = 0"
  by (simp add: word_unat_eq_iff unat_mod unat_next_page)

lemma freerange_loop_pages:
  assumes "kmem_ready s" "kmem_inv s xs" "p mod PGSIZE = 0" "\<forall>x \<in> set xs. x < p" "km_kernel_end s \<le> p"
    and "unat p + 4096 * n \<le> unat e" "unat e < unat p + 4096 * (n + 1)" "e \<le> km_ram_stop s"
    and "unat e < 2 ^ 64 - 4096" "n < fuel"
  shows "runs (freerange_loop fuel p e s) (\<lambda>_ t. kmem_ready t \<and> kmem_inv t (rev (pages p n) @ xs))"
  using assms
proof (induction n arbitrary: fuel p s xs)
  case 0
  then have "\<not> p + PGSIZE \<le> e" using unat_next_page [of p] by (simp add: word_le_nat_alt)
  with 0 show ?case by (cases fuel) (simp_all add: pages_def)
next
  case (Suc n)
  obtain f where f: "fuel = Suc f" using Suc.prems(10) by (cases fuel) auto
  have u: "unat (p + PGSIZE) = unat p + 4096" using Suc.prems by (intro unat_next_page) simp
  have lt: "p < e" using Suc.prems(6) by (simp add: word_less_nat_alt)
  then have "page_ok s p" using Suc.prems by (auto simp: page_ok_def)
  then have k: "kfree p s = Ok () (kfree_post p s)" "kmem_inv (kfree_post p s) (p # xs)"
    using kfree_push [of s xs p] Suc.prems by (auto simp: kmem_ready_def)
  have "runs (freerange_loop f (p + PGSIZE) e (kfree_post p s))
      (\<lambda>_ t. kmem_ready t \<and> kmem_inv t (rev (pages (p + PGSIZE) n) @ p # xs))"
  proof (rule Suc.IH)
    show "\<forall>x \<in> set (p # xs). x < p + PGSIZE"
      using Suc.prems(4) u by (auto simp: word_less_nat_alt dest!: bspec)
    show "(p + PGSIZE) mod PGSIZE = 0" using Suc.prems by (intro next_page_aligned) simp_all
    show "km_kernel_end (kfree_post p s) \<le> p + PGSIZE"
      using Suc.prems(5) u by (simp add: kfree_post_def word_le_nat_alt)
  qed (use Suc.prems u k f in \<open>simp_all add: kfree_post_ready, simp_all add: kfree_post_def\<close>)
  moreover have "p + PGSIZE \<le> e" using Suc.prems(6) u by (simp add: word_le_nat_alt)
  ultimately show ?case using k f by (simp add: pages_Suc)
qed

text \<open>Rounding to page boundaries.\<close>

lemma pg_round: "x AND NOT (PGSIZE - 1) = (x div PGSIZE) * PGSIZE"
proof -
  have "PGSIZE - 1 = mask 12" "PGSIZE = 2 ^ 12" by (simp_all add: PGSIZE_def mask_eq_exp_minus_1)
  then have "x AND NOT (PGSIZE - 1) = push_bit 12 (drop_bit 12 x)"
    by (auto intro!: bit_word_eqI simp: bit_simps)
  then show ?thesis using \<open>PGSIZE = 2 ^ 12\<close> by (simp add: push_bit_eq_mult drop_bit_eq_div)
qed

lemma unat_pg_round: "unat (x AND NOT (PGSIZE - 1)) = unat x div 4096 * 4096"
proof -
  have "unat x div 4096 * 4096 < 2 ^ 64"
    using unsigned_less [of x, where ?'a = nat] div_times_less_eq_dividend [of "unat x" 4096] by simp
  then show ?thesis
    unfolding pg_round by (simp add: unat_mult_lem [THEN iffD1] unat_div)
qed

lemma unat_PGROUNDUP:
  "unat a + 4095 < 2 ^ 64 \<Longrightarrow> unat (PGROUNDUP a) = (unat a + 4095) div 4096 * 4096"
proof -
  assume a: "unat a + 4095 < 2 ^ 64"
  have e: "a + PGSIZE - 1 = a + 4095" by (simp add: PGSIZE_def)
  have "unat (a + 4095) = unat a + 4095" using a unat_add_lem [of a 4095] by simp
  then show ?thesis unfolding PGROUNDUP_def e unat_pg_round by simp
qed

lemma PGROUNDUP_props:
  assumes "unat a + 4095 < 2 ^ 64"
  shows "PGROUNDUP a mod PGSIZE = 0" "a \<le> PGROUNDUP a" "unat (PGROUNDUP a) \<le> unat a + 4095"
proof -
  show "PGROUNDUP a mod PGSIZE = 0"
    using unat_PGROUNDUP [OF assms] by (simp add: word_unat_eq_iff unat_mod)
  show "a \<le> PGROUNDUP a" "unat (PGROUNDUP a) \<le> unat a + 4095"
    unfolding word_le_nat_alt unat_PGROUNDUP [OF assms]
    using div_mult_mod_eq [of "unat a + 4095" 4096] mod_less_divisor [of 4096 "unat a + 4095"] by linarith+
qed

section \<open>Properties\<close>

text \<open>
  C24. The free list invariant, and what the allocator does to it. If the list links the pages
  \<open>xs\<close>, \<open>kfree\<close> of a page of the managed range that is not free pushes it, and the next
  \<open>kalloc\<close> hands out exactly that page, filled with 5s, with the old list behind it; and
  \<open>npage\<close> counts the pages at each step.
\<close>

theorem kfree_kalloc_roundtrip:
  assumes "settled s" "lock_free KmemLock s" "kmem_inv s xs" "page_ok s pa" "pa \<notin> set xs"
  shows "runs (kfree pa s) (\<lambda>_ t. kmem_inv t (pa # xs) \<and> npage t = npage s + 1 \<and>
    runs (kalloc t) (\<lambda>r u. r = pa \<and> kmem_inv u xs \<and> npage u = npage s \<and>
      load_bytes (mem u) pa 4096 = replicate 4096 5))"
proof -
  let ?t = "kfree_post pa s"
  have t: "kmem_ready ?t" using assms(1,2) by (simp add: kfree_post_ready) (simp add: kmem_ready_def)
  have i: "kmem_inv ?t (pa # xs)" "kfree pa s = Ok () ?t" using kfree_push [OF assms] by simp_all
  have k: "kalloc ?t = Ok pa (kalloc_post pa ?t)" "kmem_inv (kalloc_post pa ?t) xs"
    using kalloc_pop [of ?t pa xs] t i by (simp_all add: kmem_ready_def)
  have "load_bytes (mem (kalloc_post pa ?t)) pa 4096 = replicate 4096 5"
    by (auto simp: load_bytes_def kalloc_post_def memset_at unat_of_nat_u64 intro!: nth_equalityI)
  then show ?thesis using i k by (simp add: kalloc_post_def kfree_post_def)
qed

text \<open>
  C25. Pages handed out by successive calls of \<open>kalloc\<close> are pairwise different and not null,
  as long as the pool has enough pages.
\<close>

theorem kalloc_no_double_allocation:
  assumes "settled s" "lock_free KmemLock s" "kmem_inv s xs" "n \<le> length xs"
  shows "runs (allocs kalloc n s) (\<lambda>rs t. distinct rs \<and> 0 \<notin> set rs)"
  using assms by (intro kpool.allocs_distinct) (simp_all add: kmem_ready_def)

text \<open>
  C26. \<open>kinit\<close> puts every whole page between the end of the kernel and the end of memory on
  the free list, each once, and \<open>freemem_amount\<close> is their size in bytes.
\<close>

theorem kinit_frees_memory:
  assumes "settled s" "0 < kernel_end" "unat ram_start + unat ram_size < 2 ^ 64 - 4096"
    and "PGROUNDUP kernel_end \<le> ram_start + ram_size" "unat kernel_end + 4095 < 2 ^ 64"
    and "n = (unat (ram_start + ram_size) - unat (PGROUNDUP kernel_end)) div 4096"
  shows "runs (kinit kernel_start kernel_end ram_start ram_size s) (\<lambda>_ t.
    kmem_inv t (rev (pages (PGROUNDUP kernel_end) n)) \<and> freemem_amount t = of_nat n * PGSIZE)"
proof -
  define stop where "stop = ram_start + ram_size"
  define e where "e = PGROUNDUP kernel_end"
  have st: "unat stop = unat ram_start + unat ram_size" "unat stop < 2 ^ 64 - 4096"
    using assms(3) unat_add_lem [of ram_start ram_size] by (simp_all add: stop_def)
  have le: "unat e \<le> unat stop" using assms(4) by (simp add: word_le_nat_alt stop_def e_def)
  have n: "unat e + 4096 * n \<le> unat stop" "unat stop < unat e + 4096 * (n + 1)"
  proof -
    have "n = (unat stop - unat e) div 4096" using assms(6) by (simp add: stop_def e_def)
    then have "4096 * n \<le> unat stop - unat e" "unat stop - unat e < 4096 * (n + 1)"
      using div_mult_mod_eq [of "unat stop - unat e" 4096] mod_less_divisor [of 4096 "unat stop - unat e"] by simp_all
    then show "unat e + 4096 * n \<le> unat stop" "unat stop < unat e + 4096 * (n + 1)" using le by simp_all
  qed
  let ?s = "(initlock KmemLock ''kmem'' s)\<lparr>freelist := 0, npage := 0, km_kernel_start := kernel_start,
      km_kernel_end := kernel_end, km_ram_start := ram_start, km_ram_avail_start := kernel_end,
      km_ram_size := ram_size, km_ram_stop := stop, km_ram_avail_size := stop - kernel_end\<rparr>"
  have r: "kmem_ready ?s" using assms(1)
    by (simp add: kmem_ready_def settled_def cpu_ok_def machine_defs lock_free_def initlock_def)
  have i: "kmem_inv ?s []" using assms(2) by (simp add: kmem_inv_def)
  have "unat ((stop - e) div PGSIZE) = (unat stop - unat e) div 4096"
    using le by (simp add: unat_div unat_sub)
  then have f: "n < unat ((stop - e) div PGSIZE) + 2" using assms(6) by (simp add: stop_def e_def)
  have "runs (freerange_loop (unat ((stop - e) div PGSIZE) + 2) e stop ?s)
      (\<lambda>_ t. kmem_ready t \<and> kmem_inv t (rev (pages e n) @ []))"
    using PGROUNDUP_props [OF assms(5)] n st(2) f by (intro freerange_loop_pages [OF r i]) (simp_all add: e_def)
  then have "runs (freerange kernel_end stop ?s) (\<lambda>_ t. kmem_inv t (rev (pages e n)))"
    unfolding freerange_def e_def by (rule runs_mono) simp
  then have "runs (kinit kernel_start kernel_end ram_start ram_size s) (\<lambda>_ t. kmem_inv t (rev (pages e n)))"
    by (auto simp: kinit_def Let_def stop_def runs_iff pr_def kmem_inv_def page_ok_def)
  then show ?thesis
    by (rule runs_mono) (simp add: e_def kmem_inv_def freemem_amount_def pages_def PGSIZE_def push_bit_eq_mult)
qed

text \<open>A machine with five pages between 0x80002000 and 0x80007000, of which the first is the kernel's.\<close>

definition small_machine :: mem_st where
  "small_machine = \<lparr>tp = 0, cpus = (\<lambda>_. \<lparr>c_proc = None, c_noff = 0, c_intena = False, c_sie = False\<rparr>),
     locks = (\<lambda>_. \<lparr>lk_locked = False, lk_name = [], lk_cpu = None\<rparr>), klog = [],
     procs = (\<lambda>_. \<lparr>p_state = UNUSED, p_chan = None, p_killed = False, p_xstate = 0, p_pid = 0, p_parent = None,
       p_kstack = 0, p_sz = 0, p_pagetable = 0, p_trapframe = 0, p_ra = 0, p_sp = 0, p_ofile = (\<lambda>_. None),
       p_cwd = None, p_name = []\<rparr>), nextpid = 1, initproc = None,
     sleeplocks = (\<lambda>_. \<lparr>sl_locked = False, sl_name = [], sl_pid = 0\<rparr>),
     mem = (\<lambda>_. 0), freelist = 0, npage = 0, km_ram_start = 0x80000000, km_ram_avail_start = 0,
     km_ram_size = 0, km_ram_avail_size = 0, km_ram_stop = 0x80007000, km_kernel_start = 0x80000000,
     km_kernel_end = 0x80002345\<rparr>"

lemma small_machine_ready: "settled small_machine" "lock_free L small_machine" "kmem_inv small_machine []"
  by (simp_all add: small_machine_def settled_def cpu_ok_def machine_defs lock_free_def kmem_inv_def)

theorem kinit_frees_memory_witness:
  "runs (kinit 0x80000000 0x80002345 0x80000000 0x7000 small_machine) (\<lambda>_ t.
     kmem_inv t [0x80006000, 0x80005000, 0x80004000, 0x80003000] \<and> freemem_amount t = 0x4000)"
proof -
  have p: "PGROUNDUP 0x80002345 = 0x80003000" by (simp add: PGROUNDUP_def PGSIZE_def)
  have g: "pages 0x80003000 4 = [0x80003000, 0x80004000, 0x80005000, 0x80006000]"
    by (simp add: pages_def PGSIZE_def upt_rec)
  have "runs (kinit 0x80000000 0x80002345 0x80000000 0x7000 small_machine) (\<lambda>_ t.
      kmem_inv t (rev (pages (PGROUNDUP 0x80002345) 4)) \<and> freemem_amount t = of_nat 4 * PGSIZE)"
    by (rule kinit_frees_memory [OF small_machine_ready(1)]) (simp_all add: p)
  then show ?thesis unfolding p g by (simp add: PGSIZE_def)
qed

theorem kfree_kalloc_roundtrip_witness:
  "runs (kfree 0x80004000 small_machine) (\<lambda>_ t. kmem_inv t [0x80004000] \<and>
     runs (kalloc t) (\<lambda>r u. r = 0x80004000 \<and> kmem_inv u []))"
proof -
  have "page_ok small_machine 0x80004000" by (simp add: page_ok_def small_machine_def PGSIZE_def)
  then show ?thesis
    using kfree_kalloc_roundtrip [OF small_machine_ready(1,2,3), of "0x80004000"]
    by (auto simp: runs_iff)
qed

theorem kalloc_no_double_allocation_witness:
  "runs (allocs kalloc 2 (kfree_post 0x80005000 (kfree_post 0x80004000 small_machine)))
     (\<lambda>rs t. distinct rs \<and> 0 \<notin> set rs)"
proof -
  let ?a = "kfree_post 0x80004000 small_machine" let ?b = "kfree_post 0x80005000 ?a"
  have o: "page_ok small_machine 0x80004000" "page_ok ?a 0x80005000"
    by (simp_all add: page_ok_def small_machine_def PGSIZE_def kfree_post_def)
  have "kmem_ready small_machine" using small_machine_ready by (simp add: kmem_ready_def)
  then have r: "kmem_ready ?a" "kmem_ready ?b" by (simp_all add: kfree_post_ready)
  have a: "kmem_inv ?a [0x80004000]"
    using kfree_push(2) [OF small_machine_ready(1,2,3) o(1)] by simp
  have "kmem_inv ?b [0x80005000, 0x80004000]"
    using kfree_push(2) [of ?a, OF _ _ a o(2)] r(1) by (simp add: kmem_ready_def)
  then show ?thesis
    using kalloc_no_double_allocation [of ?b "[0x80005000, 0x80004000]" 2] r(2) by (simp add: kmem_ready_def)
qed

end
