(* ===== verification/Vm.thy ===== *)
theory Vm
  imports Kalloc
begin

text \<open>
  Virtual memory: \<open>kernel/vm.c\<close> and the page-table macros of \<open>include/riscv.h\<close>, as built
  for Sv48 (four levels). Page tables are pages of physical memory; a PTE is read and written at
  its address. \<open>alloc_pages\<close>, through which \<open>walk\<close> gets page-table pages, is a function
  pointer in the source (it is set by \<open>register_mm_handlers\<close>): here it is the argument \<open>ap\<close>.

  Kernel-side buffers that \<open>copyin\<close> and \<open>copyout\<close> fill or read are passed as the list of
  their bytes; \<open>copyin\<close> returns the bytes it stored next to its status.
\<close>

section \<open>Page-table entries\<close>

definition PTE_V :: u64 where "PTE_V = 1"
definition PTE_R :: u64 where "PTE_R = 2"
definition PTE_W :: u64 where "PTE_W = 4"
definition PTE_X :: u64 where "PTE_X = 8"
definition PTE_U :: u64 where "PTE_U = 16"

definition PA2PTE :: "u64 \<Rightarrow> u64" where "PA2PTE pa = push_bit 10 (drop_bit 12 pa)"
definition PTE2PA :: "u64 \<Rightarrow> u64" where "PTE2PA pte = push_bit 12 (drop_bit 10 pte)"
definition PTE_FLAGS :: "u64 \<Rightarrow> u64" where "PTE_FLAGS pte = pte AND 0x3FF"
definition PX :: "nat \<Rightarrow> u64 \<Rightarrow> u64" where "PX level va = drop_bit (12 + 9 * level) va AND 0x1FF"
definition MAKE_SATP :: "u64 \<Rightarrow> u64" where "MAKE_SATP pagetable = push_bit 60 8 OR drop_bit 12 pagetable"

record vm_st = mem_st +
  kernel_pagetable :: u64
  max_pa :: u64
  satp :: u64

type_synonym 's page_source = "u32 \<Rightarrow> 's \<Rightarrow> (u64, 's) outcome"

section \<open>Walking a page table\<close>

definition pte_at :: "u64 \<Rightarrow> nat \<Rightarrow> u64 \<Rightarrow> u64" where
  "pte_at pagetable level va = pagetable + 8 * PX level va"

fun walk_loop :: "('a mem_st_scheme) page_source \<Rightarrow> bool \<Rightarrow> u64 \<Rightarrow> nat \<Rightarrow> u64 \<Rightarrow> 'a mem_st_scheme \<Rightarrow>
    (u64, 'a mem_st_scheme) outcome" where
  "walk_loop ap alloc va 0 pagetable s = Ok (pte_at pagetable 0 va) s"
| "walk_loop ap alloc va (Suc level) pagetable s =
     (let pte = pte_at pagetable (Suc level) va;
          v = load64 (mem s) pte
      in if v AND PTE_V \<noteq> 0 then walk_loop ap alloc va level (PTE2PA v) s
         else if \<not> alloc then Ok 0 s
         else bnd (ap 1 s) (\<lambda>r s.
           if r = 0 then Ok 0 s
           else let s = s\<lparr>mem := memset r 0 (ucast PGSIZE) (mem s)\<rparr>;
                    s = s\<lparr>mem := store64 pte (PA2PTE r OR PTE_V) (mem s)\<rparr>
                in walk_loop ap alloc va level r s))"

definition walk :: "('a mem_st_scheme) page_source \<Rightarrow> u64 \<Rightarrow> u64 \<Rightarrow> bool \<Rightarrow> 'a mem_st_scheme \<Rightarrow>
    (u64, 'a mem_st_scheme) outcome" where
  "walk ap pagetable va alloc s =
     (if va \<ge> MAX_VA then Panic ''walk'' else walk_loop ap alloc va 3 pagetable s)"

definition walkaddr :: "('a mem_st_scheme) page_source \<Rightarrow> u64 \<Rightarrow> u64 \<Rightarrow> 'a mem_st_scheme \<Rightarrow>
    (u64, 'a mem_st_scheme) outcome" where
  "walkaddr ap pagetable va s =
     (if va \<ge> MAX_VA then Ok 0 s
      else bnd (walk ap pagetable va False s) (\<lambda>pte s.
        if pte = 0 then Ok 0 s
        else let v = load64 (mem s) pte
             in if v AND PTE_V = 0 then Ok 0 s
                else if v AND PTE_U = 0 then Ok 0 s
                else Ok (PTE2PA v) s))"

section \<open>Mapping and unmapping\<close>

text \<open>
  The loop of \<open>mappages\<close> leaves when \<open>cur\<close> reaches \<open>last\<close>; both are multiples of the page
  size, so the number of pages between them is enough fuel.
\<close>

fun mappages_loop :: "nat \<Rightarrow> ('a mem_st_scheme) page_source \<Rightarrow> u64 \<Rightarrow> u64 \<Rightarrow> u64 \<Rightarrow> u64 \<Rightarrow> u64 \<Rightarrow>
    'a mem_st_scheme \<Rightarrow> (int, 'a mem_st_scheme) outcome" where
  "mappages_loop 0 ap pagetable cur lst pa perm s = Block"
| "mappages_loop (Suc n) ap pagetable cur lst pa perm s =
     bnd (walk ap pagetable cur True s) (\<lambda>pte s.
     if pte = 0 then Ok (- 1) s
     else if load64 (mem s) pte AND PTE_V \<noteq> 0 then Panic ''mappages: remap''
     else let s = s\<lparr>mem := store64 pte (PA2PTE pa OR perm OR PTE_V) (mem s)\<rparr>
          in if cur = lst then Ok 0 s
             else mappages_loop n ap pagetable (cur + PGSIZE) lst (pa + PGSIZE) perm s)"

definition mappages :: "('a mem_st_scheme) page_source \<Rightarrow> u64 \<Rightarrow> u64 \<Rightarrow> u64 \<Rightarrow> u64 \<Rightarrow> u64 \<Rightarrow>
    'a mem_st_scheme \<Rightarrow> (int, 'a mem_st_scheme) outcome" where
  "mappages ap pagetable va sz pa perm s =
     (if sz = 0 then Panic ''mappages: size''
      else let cur = PGROUNDDOWN va; lst = PGROUNDDOWN (va + sz - 1)
           in mappages_loop (unat ((lst - cur) div PGSIZE) + 1) ap pagetable cur lst pa perm s)"

definition kvmmap :: "('a mem_st_scheme) page_source \<Rightarrow> u64 \<Rightarrow> u64 \<Rightarrow> u64 \<Rightarrow> u64 \<Rightarrow> u64 \<Rightarrow>
    'a mem_st_scheme \<Rightarrow> (unit, 'a mem_st_scheme) outcome" where
  "kvmmap ap kpgtbl va pa sz perm s =
     bnd (mappages ap kpgtbl va sz pa perm s) (\<lambda>r s. if r \<noteq> 0 then Panic ''kvmmap'' else Ok () s)"

fun uvmunmap_loop :: "nat \<Rightarrow> ('a mem_st_scheme) page_source \<Rightarrow> u64 \<Rightarrow> u64 \<Rightarrow> u64 \<Rightarrow> bool \<Rightarrow>
    'a mem_st_scheme \<Rightarrow> (unit, 'a mem_st_scheme) outcome" where
  "uvmunmap_loop 0 ap pagetable a bound do_free s = (if a < bound then Block else Ok () s)"
| "uvmunmap_loop (Suc n) ap pagetable a bound do_free s =
     (if a < bound then
        bnd (walk ap pagetable a False s) (\<lambda>pte s.
        if pte = 0 then Panic ''uvmunmap: walk''
        else let v = load64 (mem s) pte
        in if v AND PTE_V = 0 then Panic ''uvmunmap: not mapped''
           else if PTE_FLAGS v = PTE_V then Panic ''uvmunmap: not a leaf''
           else bnd (if do_free then kfree (PTE2PA v) s else Ok () s) (\<lambda>_ s.
             uvmunmap_loop n ap pagetable (a + PGSIZE) bound do_free
               (s\<lparr>mem := store64 pte 0 (mem s)\<rparr>)))
      else Ok () s)"

definition uvmunmap :: "('a mem_st_scheme) page_source \<Rightarrow> u64 \<Rightarrow> u64 \<Rightarrow> u64 \<Rightarrow> bool \<Rightarrow>
    'a mem_st_scheme \<Rightarrow> (unit, 'a mem_st_scheme) outcome" where
  "uvmunmap ap pagetable va npages do_free s =
     (if va mod PGSIZE \<noteq> 0 then Panic ''uvmunmap: not aligned''
      else uvmunmap_loop (unat npages) ap pagetable va (va + npages * PGSIZE) do_free s)"

definition uvmcreate :: "'a mem_st_scheme \<Rightarrow> (u64, 'a mem_st_scheme) outcome" where
  "uvmcreate s =
     bnd (kalloc s) (\<lambda>pagetable s.
     if pagetable = 0 then Ok 0 s
     else Ok pagetable (s\<lparr>mem := memset pagetable 0 (ucast PGSIZE) (mem s)\<rparr>))"

text \<open>\<open>uvmfirst\<close> does not check the result of \<open>kalloc\<close>: a null page is written through.\<close>

definition uvmfirst :: "('a mem_st_scheme) page_source \<Rightarrow> u64 \<Rightarrow> u8 list \<Rightarrow> 'a mem_st_scheme \<Rightarrow>
    (unit, 'a mem_st_scheme) outcome" where
  "uvmfirst ap pagetable src s =
     (if length src \<ge> 4096 then Panic ''uvmfirst: more than a page''
      else bnd (kalloc s) (\<lambda>page s.
        if page = 0 then Undef ''null page''
        else let s = s\<lparr>mem := memset page 0 (ucast PGSIZE) (mem s)\<rparr>
        in bnd (mappages ap pagetable 0 PGSIZE page (PTE_W OR PTE_R OR PTE_X OR PTE_U) s) (\<lambda>_ s.
           Ok () (s\<lparr>mem := store_bytes page src (mem s)\<rparr>))))"

definition uvmdealloc :: "('a mem_st_scheme) page_source \<Rightarrow> u64 \<Rightarrow> u64 \<Rightarrow> u64 \<Rightarrow>
    'a mem_st_scheme \<Rightarrow> (u64, 'a mem_st_scheme) outcome" where
  "uvmdealloc ap pagetable oldsz newsz s =
     (if newsz \<ge> oldsz then Ok oldsz s
      else bnd (if PGROUNDUP newsz < PGROUNDUP oldsz then
          let npages = scast (ucast ((PGROUNDUP oldsz - PGROUNDUP newsz) div PGSIZE) :: u32)
          in uvmunmap ap pagetable (PGROUNDUP newsz) npages True s
        else Ok () s) (\<lambda>_ s. Ok newsz s))"

text \<open>
  The loop of \<open>uvmalloc\<close>, over the pages between the old and the new size. On failure the
  pages mapped so far are removed again.
\<close>

fun uvmalloc_loop :: "nat \<Rightarrow> ('a mem_st_scheme) page_source \<Rightarrow> u64 \<Rightarrow> u64 \<Rightarrow> u64 \<Rightarrow> u64 \<Rightarrow> u64 \<Rightarrow>
    'a mem_st_scheme \<Rightarrow> (u64, 'a mem_st_scheme) outcome" where
  "uvmalloc_loop 0 ap pagetable a oldsz newsz xperm s = (if a < newsz then Block else Ok newsz s)"
| "uvmalloc_loop (Suc n) ap pagetable a oldsz newsz xperm s =
     (if a < newsz then
        bnd (kalloc s) (\<lambda>page s.
        if page = 0 then bnd (uvmdealloc ap pagetable a oldsz s) (\<lambda>_ s. Ok 0 s)
        else let s = s\<lparr>mem := memset page 0 (ucast PGSIZE) (mem s)\<rparr>
        in bnd (mappages ap pagetable a PGSIZE page (PTE_R OR PTE_U OR xperm) s) (\<lambda>r s.
           if r \<noteq> 0 then bnd (kfree page s) (\<lambda>_ s. bnd (uvmdealloc ap pagetable a oldsz s) (\<lambda>_ s. Ok 0 s))
           else uvmalloc_loop n ap pagetable (a + PGSIZE) oldsz newsz xperm s))
      else Ok newsz s)"

definition uvmalloc :: "('a mem_st_scheme) page_source \<Rightarrow> u64 \<Rightarrow> u64 \<Rightarrow> u64 \<Rightarrow> u64 \<Rightarrow>
    'a mem_st_scheme \<Rightarrow> (u64, 'a mem_st_scheme) outcome" where
  "uvmalloc ap pagetable oldsz newsz xperm s =
     (if newsz < oldsz then Ok oldsz s
      else let old = PGROUNDUP oldsz
           in uvmalloc_loop (unat ((newsz - old) div PGSIZE) + 1) ap pagetable old old newsz xperm s)"

text \<open>
  \<open>freewalk\<close>: for each of the 512 entries, then the page itself. The depth of the recursion is
  the number of levels left, four at the root; on a table with a longer chain the C program would
  go on, here that is \<open>Block\<close>.
\<close>

fun freewalk_loop :: "(u64 \<Rightarrow> 'a mem_st_scheme \<Rightarrow> (unit, 'a mem_st_scheme) outcome) \<Rightarrow> nat list \<Rightarrow> u64 \<Rightarrow>
    'a mem_st_scheme \<Rightarrow> (unit, 'a mem_st_scheme) outcome" where
  "freewalk_loop rec [] pagetable s = Ok () s"
| "freewalk_loop rec (i # is) pagetable s =
     (let pte = load64 (mem s) (pagetable + 8 * of_nat i)
      in if pte AND PTE_V \<noteq> 0 \<and> pte AND (PTE_R OR PTE_W OR PTE_X) = 0 then
           bnd (rec (PTE2PA pte) s) (\<lambda>_ s.
             freewalk_loop rec is pagetable (s\<lparr>mem := store64 (pagetable + 8 * of_nat i) 0 (mem s)\<rparr>))
         else if pte AND PTE_V \<noteq> 0 then Panic ''freewalk: leaf''
         else freewalk_loop rec is pagetable s)"

fun freewalk :: "nat \<Rightarrow> u64 \<Rightarrow> 'a mem_st_scheme \<Rightarrow> (unit, 'a mem_st_scheme) outcome" where
  "freewalk 0 pagetable s = Block"
| "freewalk (Suc n) pagetable s =
     bnd (freewalk_loop (freewalk n) [0..<512] pagetable s) (\<lambda>_ s. kfree pagetable s)"

definition uvmfree :: "('a mem_st_scheme) page_source \<Rightarrow> u64 \<Rightarrow> u64 \<Rightarrow> 'a mem_st_scheme \<Rightarrow>
    (unit, 'a mem_st_scheme) outcome" where
  "uvmfree ap pagetable sz s =
     bnd (if sz > 0 then uvmunmap ap pagetable 0 (PGROUNDUP sz div PGSIZE) True s else Ok () s)
       (\<lambda>_ s. freewalk 4 pagetable s)"

fun uvmcopy_loop :: "nat \<Rightarrow> ('a mem_st_scheme) page_source \<Rightarrow> u64 \<Rightarrow> u64 \<Rightarrow> u64 \<Rightarrow> u64 \<Rightarrow>
    'a mem_st_scheme \<Rightarrow> (int, 'a mem_st_scheme) outcome" where
  "uvmcopy_loop 0 ap old new i sz s = (if i < sz then Block else Ok 0 s)"
| "uvmcopy_loop (Suc n) ap old new i sz s =
     (if i < sz then
        bnd (walk ap old i False s) (\<lambda>pte s.
        if pte = 0 then Panic ''uvmcopy: pte should exist''
        else let v = load64 (mem s) pte
        in if v AND PTE_V = 0 then Panic ''uvmcopy: page not present''
           else let pa = PTE2PA v; flags = PTE_FLAGS v
           in bnd (kalloc s) (\<lambda>page s.
              if page = 0 then bnd (uvmunmap ap new 0 (i div PGSIZE) True s) (\<lambda>_ s. Ok (- 1) s)
              else let s = s\<lparr>mem := memmove page pa (ucast PGSIZE) (mem s)\<rparr>
              in bnd (mappages ap new i PGSIZE page flags s) (\<lambda>r s.
                 if r \<noteq> 0 then bnd (kfree page s) (\<lambda>_ s.
                   bnd (uvmunmap ap new 0 (i div PGSIZE) True s) (\<lambda>_ s. Ok (- 1) s))
                 else uvmcopy_loop n ap old new (i + PGSIZE) sz s)))
      else Ok 0 s)"

definition uvmcopy :: "('a mem_st_scheme) page_source \<Rightarrow> u64 \<Rightarrow> u64 \<Rightarrow> u64 \<Rightarrow> 'a mem_st_scheme \<Rightarrow>
    (int, 'a mem_st_scheme) outcome" where
  "uvmcopy ap old new sz s = uvmcopy_loop (unat (sz div PGSIZE) + 1) ap old new 0 sz s"

definition uvmclear :: "('a mem_st_scheme) page_source \<Rightarrow> u64 \<Rightarrow> u64 \<Rightarrow> 'a mem_st_scheme \<Rightarrow>
    (unit, 'a mem_st_scheme) outcome" where
  "uvmclear ap pagetable va s =
     bnd (walk ap pagetable va False s) (\<lambda>pte s.
     if pte = 0 then Panic ''uvmclear''
     else Ok () (s\<lparr>mem := store64 pte (load64 (mem s) pte AND NOT PTE_U) (mem s)\<rparr>))"

section \<open>The kernel page table\<close>

definition kern_pgtable_init :: "('a vm_st_scheme) page_source \<Rightarrow> u64 \<Rightarrow> u64 \<Rightarrow> u64 \<Rightarrow> 'a vm_st_scheme \<Rightarrow>
    (u64, 'a vm_st_scheme) outcome" where
  "kern_pgtable_init ap kernel_start etext trampoline s =
     bnd (ap 1 s) (\<lambda>kpgtbl s.
     bnd (kvmmap ap kpgtbl 0x10000000 0x10000000 PGSIZE (PTE_R OR PTE_W) s) (\<lambda>_ s.
     bnd (kvmmap ap kpgtbl 0x10001000 0x10001000 PGSIZE (PTE_R OR PTE_W) s) (\<lambda>_ s.
     bnd (kvmmap ap kpgtbl 0x0c000000 0x0c000000 0x400000 (PTE_R OR PTE_W) s) (\<lambda>_ s.
     bnd (kvmmap ap kpgtbl kernel_start kernel_start (etext - kernel_start) (PTE_R OR PTE_X) s) (\<lambda>_ s.
     bnd (kvmmap ap kpgtbl etext etext (max_pa s - etext) (PTE_R OR PTE_W) s) (\<lambda>_ s.
     bnd (kvmmap ap kpgtbl TRAMPOLINE trampoline PGSIZE (PTE_R OR PTE_X) s) (\<lambda>_ s.
     Ok kpgtbl s)))))))"

definition kern_vm_init :: "('a vm_st_scheme) page_source \<Rightarrow> u64 \<Rightarrow> u64 \<Rightarrow> u64 \<Rightarrow> u64 \<Rightarrow> 'a vm_st_scheme \<Rightarrow>
    (unit, 'a vm_st_scheme) outcome" where
  "kern_vm_init ap ram_end kernel_start etext trampoline s =
     bnd (kern_pgtable_init ap kernel_start etext trampoline (s\<lparr>max_pa := ram_end\<rparr>)) (\<lambda>pt s.
     Ok () (s\<lparr>kernel_pagetable := pt\<rparr>))"

definition kern_vm_init_hart :: "'a vm_st_scheme \<Rightarrow> 'a vm_st_scheme" where
  "kern_vm_init_hart s = s\<lparr>satp := MAKE_SATP (kernel_pagetable s)\<rparr>"

section \<open>Copying between user and kernel\<close>

text \<open>The part of a transfer that stays within the page of \<open>va\<close>.\<close>

definition chunk :: "u64 \<Rightarrow> nat \<Rightarrow> nat" where
  "chunk va len = min (4096 - unat (va - PGROUNDDOWN va)) len"

lemma page_offset: "unat (va - PGROUNDDOWN va) = unat va mod 4096"
  using div_times_less_eq_dividend [of "unat va" 4096]
  by (simp add: PGROUNDDOWN_def unat_sub unat_pg_round minus_div_mult_eq_mod)

lemma chunk_pos: "0 < len \<Longrightarrow> 0 < chunk va len" "chunk va len \<le> len" "chunk va len \<le> 4096"
  by (simp_all add: chunk_def page_offset)

function copyout :: "('a mem_st_scheme) page_source \<Rightarrow> u64 \<Rightarrow> u64 \<Rightarrow> u8 list \<Rightarrow> 'a mem_st_scheme \<Rightarrow>
    (int, 'a mem_st_scheme) outcome" where
  "copyout ap pagetable dstva src s =
     (if src = [] then Ok 0 s
      else let va0 = PGROUNDDOWN dstva
      in bnd (walkaddr ap pagetable va0 s) (\<lambda>pa0 s.
         if pa0 = 0 then Ok (- 1) s
         else let n = chunk dstva (length src);
                  s = s\<lparr>mem := store_bytes (pa0 + (dstva - va0)) (take n src) (mem s)\<rparr>
              in copyout ap pagetable (va0 + PGSIZE) (drop n src) s))"
  by pat_completeness auto

termination
  by (relation "measure (\<lambda>(ap, pagetable, dstva, src, s). length src)") (simp_all add: chunk_pos)

function copyin :: "('a mem_st_scheme) page_source \<Rightarrow> u64 \<Rightarrow> u64 \<Rightarrow> nat \<Rightarrow> 'a mem_st_scheme \<Rightarrow>
    (int \<times> u8 list, 'a mem_st_scheme) outcome" where
  "copyin ap pagetable srcva len s =
     (if len = 0 then Ok (0, []) s
      else let va0 = PGROUNDDOWN srcva
      in bnd (walkaddr ap pagetable va0 s) (\<lambda>pa0 s.
         if pa0 = 0 then Ok (- 1, []) s
         else let n = chunk srcva len;
                  xs = load_bytes (mem s) (pa0 + (srcva - va0)) n
              in bnd (copyin ap pagetable (va0 + PGSIZE) (len - n) s) (\<lambda>(r, ys) s. Ok (r, xs @ ys) s)))"
  by pat_completeness auto

termination
  by (relation "measure (\<lambda>(ap, pagetable, srcva, len, s). len)") (simp_all add: chunk_pos)

text \<open>\<open>copyinstr\<close>: \<open>Some\<close> of the string before its zero byte, \<open>None\<close> for the error \<open>-1\<close>.\<close>

function copyinstr :: "('a mem_st_scheme) page_source \<Rightarrow> u64 \<Rightarrow> u64 \<Rightarrow> nat \<Rightarrow> 'a mem_st_scheme \<Rightarrow>
    (u8 list option, 'a mem_st_scheme) outcome" where
  "copyinstr ap pagetable srcva mx s =
     (if mx = 0 then Ok None s
      else let va0 = PGROUNDDOWN srcva
      in bnd (walkaddr ap pagetable va0 s) (\<lambda>pa0 s.
         if pa0 = 0 then Ok None s
         else let n = chunk srcva mx;
                  xs = load_bytes (mem s) (pa0 + (srcva - va0)) n
              in if 0 \<in> set xs then Ok (Some (takeWhile (\<lambda>x. x \<noteq> 0) xs)) s
                 else bnd (copyinstr ap pagetable (va0 + PGSIZE) (mx - n) s) (\<lambda>r s.
                   Ok (map_option (\<lambda>ys. xs @ ys) r) s)))"
  by pat_completeness auto
termination
  by (relation "measure (\<lambda>(ap, pagetable, srcva, max, s). max)") (simp_all add: chunk_pos)

declare copyout.simps [simp del] copyin.simps [simp del] copyinstr.simps [simp del]

section \<open>Between user or kernel and kernel\<close>

text \<open>
  \<open>either_copyout\<close> and \<open>either_copyin\<close> of \<open>kernel/proc.c\<close>. A kernel destination is an address in
  \<open>kmem\<close>, the memory that holds the object of the caller: a local variable, or a page. The bytes are
  moved there, and the result has that memory as it is afterwards.
\<close>

definition either_copyout :: "('a mem_st_scheme) page_source \<Rightarrow> bool \<Rightarrow> u64 \<Rightarrow> u8 list \<Rightarrow> bytes \<Rightarrow> 'a mem_st_scheme \<Rightarrow>
    (int \<times> bytes, 'a mem_st_scheme) outcome" where
  "either_copyout ap user_dst dst src kmem s =
     bnd (this_proc s) (\<lambda>p s.
     if user_dst then (case p of None \<Rightarrow> Undef ''null proc''
       | Some i \<Rightarrow> bnd (copyout ap (p_pagetable (procs s i)) dst src s) (\<lambda>r s. Ok (r, kmem) s))
     else Ok (0, store_bytes dst src kmem) s)"

definition either_copyin :: "('a mem_st_scheme) page_source \<Rightarrow> bool \<Rightarrow> u64 \<Rightarrow> u8 list \<Rightarrow> nat \<Rightarrow> 'a mem_st_scheme \<Rightarrow>
    (int \<times> u8 list, 'a mem_st_scheme) outcome" where
  "either_copyin ap user_src src ksrc len s =
     bnd (this_proc s) (\<lambda>p s.
     if user_src then (case p of None \<Rightarrow> Undef ''null proc''
       | Some i \<Rightarrow> copyin ap (p_pagetable (procs s i)) src len s)
     else Ok (0, take len ksrc) s)"

section \<open>Lookups do not change the state\<close>

fun pt_walk :: "bytes \<Rightarrow> u64 \<Rightarrow> nat \<Rightarrow> u64 \<Rightarrow> u64" where
  "pt_walk m va 0 pagetable = pte_at pagetable 0 va"
| "pt_walk m va (Suc level) pagetable =
     (let v = load64 m (pte_at pagetable (Suc level) va)
      in if v AND PTE_V \<noteq> 0 then pt_walk m va level (PTE2PA v) else 0)"

definition pt_addr :: "bytes \<Rightarrow> u64 \<Rightarrow> u64 \<Rightarrow> u64" where
  "pt_addr m pagetable va =
     (let pte = pt_walk m va 3 pagetable; v = load64 m pte
      in if va \<ge> MAX_VA \<or> pte = 0 \<or> v AND PTE_V = 0 \<or> v AND PTE_U = 0 then 0 else PTE2PA v)"

lemma walk_loop_lookup: "walk_loop ap False va l pt s = Ok (pt_walk (mem s) va l pt) s"
  by (induction l arbitrary: pt) (simp_all add: Let_def)

lemma walk_lookup: "va < MAX_VA \<Longrightarrow> walk ap pt va False s = Ok (pt_walk (mem s) va 3 pt) s"
  by (simp add: walk_def walk_loop_lookup del: walk_loop.simps)

lemma walkaddr_lookup: "walkaddr ap pt va s = Ok (pt_addr (mem s) pt va) s"
  by (cases "va < MAX_VA") (auto simp: walkaddr_def walk_lookup pt_addr_def Let_def not_le)

section \<open>Encoding of entries\<close>

lemma and_mask_10: "x AND 0x3FF = take_bit 10 x" for x :: u64
  by (simp add: take_bit_eq_mask mask_eq_exp_minus_1)

lemma page_aligned_bits: "pa mod PGSIZE = 0 \<Longrightarrow> n < 12 \<Longrightarrow> \<not> bit pa n" for pa :: u64
proof -
  assume a: "pa mod PGSIZE = 0" "n < 12"
  have "take_bit 12 pa = 0" using a(1) by (simp add: take_bit_eq_mod PGSIZE_def)
  then show "\<not> bit pa n" using a(2) by (metis bit_take_bit_iff bit_0_eq bot_apply bot_bool_def)
qed

lemma high_bits_clear: "unat w < 2 ^ k \<Longrightarrow> k \<le> n \<Longrightarrow> \<not> bit w n" for w :: u64
proof -
  assume a: "unat w < 2 ^ k" "k \<le> n"
  have "unat (take_bit k w) = unat w" using a(1) by (simp add: unsigned_take_bit_eq take_bit_nat_eq_self_iff)
  then have "take_bit k w = w" by (simp add: word_unat_eq_iff)
  then show "\<not> bit w n" using a(2) by (metis bit_take_bit_iff not_less)
qed

lemma pte_roundtrip:
  assumes "pa mod PGSIZE = 0" "pa < push_bit 56 1" "flags < 0x400"
  shows "PTE2PA (PA2PTE pa OR flags) = pa" "PTE_FLAGS (PA2PTE pa OR flags) = flags"
proof -
  have pa: "bit pa n \<Longrightarrow> 12 \<le> n \<and> n < 56" for n
    using assms(2) page_aligned_bits [OF assms(1), of n] high_bits_clear [of pa 56 n]
    by (auto simp: word_less_nat_alt push_bit_eq_mult not_less [symmetric])
  have fl: "bit flags n \<Longrightarrow> n < 10" for n
    using assms(3) high_bits_clear [of flags 10 n] by (auto simp: word_less_nat_alt not_less [symmetric])
  show "PTE2PA (PA2PTE pa OR flags) = pa"
  proof (rule bit_word_eqI)
    fix n show "bit (PTE2PA (PA2PTE pa OR flags)) n \<longleftrightarrow> bit pa n" if "n < LENGTH(64)"
      using that pa [of n] fl [of "10 + (n - 12)"]
      by (cases "12 \<le> n") (auto simp: PTE2PA_def PA2PTE_def bit_simps)
  qed
  show "PTE_FLAGS (PA2PTE pa OR flags) = flags"
    unfolding PTE_FLAGS_def and_mask_10
    by (intro bit_word_eqI) (auto simp: PA2PTE_def bit_simps dest: pa fl)
qed

end
