(* ===== verification/List_Head.thy ===== *)
theory List_Head
  imports Prelude
begin

text \<open>
  The circular doubly linked lists of \<open>include/list.h\<close>. The heap of \<open>struct list_head\<close>
  objects is a pair of maps from node to node; each routine performs the pointer stores of the
  source in their order. \<open>dlist h head xs\<close> says that \<open>head\<close> heads the list \<open>xs\<close>. The
  buffer cache of \<open>kernel/bio.c\<close> keeps the same shape by hand and reuses these lemmas, so the
  node type is left open except where the poison addresses are stored.
\<close>

section \<open>Operations\<close>

record 'p list_heap =
  l_next :: "'p \<Rightarrow> 'p"
  l_prev :: "'p \<Rightarrow> 'p"

definition set_next :: "'p \<Rightarrow> 'p \<Rightarrow> 'p list_heap \<Rightarrow> 'p list_heap" where
  "set_next p v h = h\<lparr>l_next := (l_next h)(p := v)\<rparr>"

definition set_prev :: "'p \<Rightarrow> 'p \<Rightarrow> 'p list_heap \<Rightarrow> 'p list_heap" where
  "set_prev p v h = h\<lparr>l_prev := (l_prev h)(p := v)\<rparr>"

definition INIT_LIST_HEAD :: "'p \<Rightarrow> 'p list_heap \<Rightarrow> 'p list_heap" where
  "INIT_LIST_HEAD l h = set_prev l l (set_next l l h)"

text \<open>\<open>__list_add\<close> and \<open>__list_del\<close>.\<close>

definition list_add_between :: "'p \<Rightarrow> 'p \<Rightarrow> 'p \<Rightarrow> 'p list_heap \<Rightarrow> 'p list_heap" where
  "list_add_between l prev nxt h =
     set_next prev l (set_prev l prev (set_next l nxt (set_prev nxt l h)))"

definition list_add :: "'p \<Rightarrow> 'p \<Rightarrow> 'p list_heap \<Rightarrow> 'p list_heap" where
  "list_add l head h = list_add_between l head (l_next h head) h"

definition list_add_tail :: "'p \<Rightarrow> 'p \<Rightarrow> 'p list_heap \<Rightarrow> 'p list_heap" where
  "list_add_tail l head h = list_add_between l (l_prev h head) head h"

definition list_del_between :: "'p \<Rightarrow> 'p \<Rightarrow> 'p list_heap \<Rightarrow> 'p list_heap" where
  "list_del_between prev nxt h = set_next prev nxt (set_prev nxt prev h)"

definition list_del_entry :: "'p \<Rightarrow> 'p list_heap \<Rightarrow> 'p list_heap" where
  "list_del_entry entry h = list_del_between (l_prev h entry) (l_next h entry) h"

definition list_del_clearprev :: "u64 \<Rightarrow> u64 list_heap \<Rightarrow> u64 list_heap" where
  "list_del_clearprev entry h = set_prev entry 0 (list_del_entry entry h)"

definition list_del :: "u64 \<Rightarrow> u64 list_heap \<Rightarrow> u64 list_heap" where
  "list_del entry h = set_prev entry 0x200 (set_next entry 0x100 (list_del_entry entry h))"

definition list_replace :: "'p \<Rightarrow> 'p \<Rightarrow> 'p list_heap \<Rightarrow> 'p list_heap" where
  "list_replace old l h =
     (let h = set_next l (l_next h old) h;
          h = set_prev (l_next h l) l h;
          h = set_prev l (l_prev h old) h
      in set_next (l_prev h l) l h)"

definition list_replace_init :: "'p \<Rightarrow> 'p \<Rightarrow> 'p list_heap \<Rightarrow> 'p list_heap" where
  "list_replace_init old l h = INIT_LIST_HEAD old (list_replace old l h)"

definition list_swap :: "u64 \<Rightarrow> u64 \<Rightarrow> u64 list_heap \<Rightarrow> u64 list_heap" where
  "list_swap entry1 entry2 h =
     (let pos = l_prev h entry2;
          h = list_del entry2 h;
          h = list_replace entry1 entry2 h;
          pos = (if pos = entry1 then entry2 else pos)
      in list_add entry1 pos h)"

definition list_del_init :: "'p \<Rightarrow> 'p list_heap \<Rightarrow> 'p list_heap" where
  "list_del_init entry h = INIT_LIST_HEAD entry (list_del_entry entry h)"

definition list_move :: "'p \<Rightarrow> 'p \<Rightarrow> 'p list_heap \<Rightarrow> 'p list_heap" where
  "list_move l head h = list_add l head (list_del_entry l h)"

definition list_move_tail :: "'p \<Rightarrow> 'p \<Rightarrow> 'p list_heap \<Rightarrow> 'p list_heap" where
  "list_move_tail l head h = list_add_tail l head (list_del_entry l h)"

definition list_bulk_move_tail :: "'p \<Rightarrow> 'p \<Rightarrow> 'p \<Rightarrow> 'p list_heap \<Rightarrow> 'p list_heap" where
  "list_bulk_move_tail head first lst h =
     (let h = set_next (l_prev h first) (l_next h lst) h;
          h = set_prev (l_next h lst) (l_prev h first) h;
          h = set_next (l_prev h head) first h;
          h = set_prev first (l_prev h head) h;
          h = set_next lst head h
      in set_prev head lst h)"

definition list_is_first :: "'p \<Rightarrow> 'p \<Rightarrow> 'p list_heap \<Rightarrow> bool" where
  "list_is_first l head h \<longleftrightarrow> l_prev h l = head"

definition list_is_last :: "'p \<Rightarrow> 'p \<Rightarrow> 'p list_heap \<Rightarrow> bool" where
  "list_is_last l head h \<longleftrightarrow> l_next h l = head"

definition list_is_head :: "'p \<Rightarrow> 'p \<Rightarrow> bool" where
  "list_is_head l head \<longleftrightarrow> l = head"

definition list_empty :: "'p \<Rightarrow> 'p list_heap \<Rightarrow> bool" where
  "list_empty head h \<longleftrightarrow> l_next h head = head"

definition list_rotate_left :: "'p \<Rightarrow> 'p list_heap \<Rightarrow> 'p list_heap" where
  "list_rotate_left head h =
     (if \<not> list_empty head h then list_move_tail (l_next h head) head h else h)"

definition list_rotate_to_front :: "'p \<Rightarrow> 'p \<Rightarrow> 'p list_heap \<Rightarrow> 'p list_heap" where
  "list_rotate_to_front l head h = list_move_tail head l h"

definition list_is_singular :: "'p \<Rightarrow> 'p list_heap \<Rightarrow> bool" where
  "list_is_singular head h \<longleftrightarrow> \<not> list_empty head h \<and> l_next h head = l_prev h head"

text \<open>\<open>__list_cut_position\<close>.\<close>

definition list_cut_at :: "'p \<Rightarrow> 'p \<Rightarrow> 'p \<Rightarrow> 'p list_heap \<Rightarrow> 'p list_heap" where
  "list_cut_at l head entry h =
     (let new_first = l_next h entry;
          h = set_next l (l_next h head) h;
          h = set_prev (l_next h l) l h;
          h = set_prev l entry h;
          h = set_next entry l h;
          h = set_next head new_first h
      in set_prev new_first head h)"

definition list_cut_position :: "'p \<Rightarrow> 'p \<Rightarrow> 'p \<Rightarrow> 'p list_heap \<Rightarrow> 'p list_heap" where
  "list_cut_position l head entry h =
     (if list_empty head h then h
      else if list_is_singular head h \<and> \<not> list_is_head entry head \<and> entry \<noteq> l_next h head then h
      else if list_is_head entry head then INIT_LIST_HEAD l h
      else list_cut_at l head entry h)"

definition list_cut_before :: "'p \<Rightarrow> 'p \<Rightarrow> 'p \<Rightarrow> 'p list_heap \<Rightarrow> 'p list_heap" where
  "list_cut_before l head entry h =
     (if l_next h head = entry then INIT_LIST_HEAD l h
      else let h = set_next l (l_next h head) h;
               h = set_prev (l_next h l) l h;
               h = set_prev l (l_prev h entry) h;
               h = set_next (l_prev h l) l h;
               h = set_next head entry h
           in set_prev entry head h)"

text \<open>\<open>__list_splice\<close>.\<close>

definition list_splice_between :: "'p \<Rightarrow> 'p \<Rightarrow> 'p \<Rightarrow> 'p list_heap \<Rightarrow> 'p list_heap" where
  "list_splice_between l prev nxt h =
     (let first = l_next h l; lst = l_prev h l
      in set_prev nxt lst (set_next lst nxt (set_next prev first (set_prev first prev h))))"

definition list_splice :: "'p \<Rightarrow> 'p \<Rightarrow> 'p list_heap \<Rightarrow> 'p list_heap" where
  "list_splice l head h =
     (if \<not> list_empty l h then list_splice_between l head (l_next h head) h else h)"

definition list_splice_tail :: "'p \<Rightarrow> 'p \<Rightarrow> 'p list_heap \<Rightarrow> 'p list_heap" where
  "list_splice_tail l head h =
     (if \<not> list_empty l h then list_splice_between l (l_prev h head) head h else h)"

definition list_splice_init :: "'p \<Rightarrow> 'p \<Rightarrow> 'p list_heap \<Rightarrow> 'p list_heap" where
  "list_splice_init l head h =
     (if \<not> list_empty l h then INIT_LIST_HEAD l (list_splice_between l head (l_next h head) h) else h)"

definition list_splice_tail_init :: "'p \<Rightarrow> 'p \<Rightarrow> 'p list_heap \<Rightarrow> 'p list_heap" where
  "list_splice_tail_init l head h =
     (if \<not> list_empty l h then INIT_LIST_HEAD l (list_splice_between l (l_prev h head) head h) else h)"

text \<open>
  The loops \<open>list_for_each\<close> and \<open>list_for_each_prev\<close>, as the nodes they visit, and
  \<open>list_count_nodes\<close>. On a broken list they may run forever, which is \<open>None\<close>.
\<close>

partial_function (option) list_for_each_continue :: "'p \<Rightarrow> 'p \<Rightarrow> 'p list_heap \<Rightarrow> 'p list option" where
  "list_for_each_continue pos head h =
     (if list_is_head pos head then Some []
      else Option.bind (list_for_each_continue (l_next h pos) head h) (\<lambda>ps. Some (pos # ps)))"

definition list_for_each :: "'p \<Rightarrow> 'p list_heap \<Rightarrow> 'p list option" where
  "list_for_each head h = list_for_each_continue (l_next h head) head h"

partial_function (option) list_for_each_continue_prev :: "'p \<Rightarrow> 'p \<Rightarrow> 'p list_heap \<Rightarrow> 'p list option" where
  "list_for_each_continue_prev pos head h =
     (if list_is_head pos head then Some []
      else Option.bind (list_for_each_continue_prev (l_prev h pos) head h) (\<lambda>ps. Some (pos # ps)))"

definition list_for_each_prev :: "'p \<Rightarrow> 'p list_heap \<Rightarrow> 'p list option" where
  "list_for_each_prev head h = list_for_each_continue_prev (l_prev h head) head h"

partial_function (option) list_count_from :: "u64 \<Rightarrow> 'p \<Rightarrow> 'p \<Rightarrow> 'p list_heap \<Rightarrow> u64 option" where
  "list_count_from count pos head h =
     (if list_is_head pos head then Some count else list_count_from (count + 1) (l_next h pos) head h)"

definition list_count_nodes :: "'p \<Rightarrow> 'p list_heap \<Rightarrow> u64 option" where
  "list_count_nodes head h = list_count_from 0 (l_next h head) head h"

section \<open>The shape of a list\<close>

fun links :: "'p list_heap \<Rightarrow> 'p list \<Rightarrow> bool" where
  "links h (a # b # r) \<longleftrightarrow> l_next h a = b \<and> l_prev h b = a \<and> links h (b # r)"
| "links h [a] \<longleftrightarrow> True"
| "links h [] \<longleftrightarrow> True"

definition dlist :: "'p list_heap \<Rightarrow> 'p \<Rightarrow> 'p list \<Rightarrow> bool" where
  "dlist h head xs \<longleftrightarrow> distinct (head # xs) \<and> links h (head # xs @ [head])"

lemmas heap_defs = set_next_def set_prev_def

lemma heap_get [simp]:
  "l_next (set_next p v h) q = (if q = p then v else l_next h q)"
  "l_prev (set_next p v h) = l_prev h"
  "l_prev (set_prev p v h) q = (if q = p then v else l_prev h q)"
  "l_next (set_prev p v h) = l_next h"
  by (simp_all add: heap_defs)

lemma links_append: "links h (xs @ a # ys) \<longleftrightarrow> links h (xs @ [a]) \<and> links h (a # ys)"
  by (induction h xs rule: links.induct) auto

lemma links_set_next [simp]: "p \<notin> set (butlast xs) \<Longrightarrow> links (set_next p v h) xs = links h xs"
  by (induction h xs rule: links.induct) auto

lemma links_set_prev [simp]: "p \<notin> set (tl xs) \<Longrightarrow> links (set_prev p v h) xs = links h xs"
  by (induction h xs rule: links.induct) auto

text \<open>A list seen from one of its own nodes: the circle is the same.\<close>

lemma dlist_rotate: "dlist h a (xs @ b # ys) \<Longrightarrow> dlist h b (ys @ a # xs)"
proof -
  assume d: "dlist h a (xs @ b # ys)"
  then have "links h ((b # ys) @ a # (xs @ [b]))"
    using links_append [of h "a # xs" b "ys @ [a]"] links_append [of h "b # ys" a "xs @ [b]"]
    by (simp add: dlist_def)
  with d show ?thesis by (auto simp: dlist_def)
qed

lemma dlist_rotate_iff: "dlist h a (xs @ b # ys) \<longleftrightarrow> dlist h b (ys @ a # xs)"
  using dlist_rotate by metis

lemma dlist_nil [simp]: "dlist h a [] \<longleftrightarrow> l_next h a = a \<and> l_prev h a = a"
  by (auto simp: dlist_def)

lemma dlist_ends:
  assumes "dlist h a xs"
  shows "l_next h a = hd (xs @ [a])" "l_prev h a = last (a # xs)"
proof -
  show "l_next h a = hd (xs @ [a])" using assms by (cases xs) (auto simp: dlist_def)
  show "l_prev h a = last (a # xs)"
  proof (cases xs rule: rev_cases)
    case Nil
    then show ?thesis using assms by simp
  next
    case (snoc ys y)
    then have "links h ((a # ys) @ y # [a])" using assms by (simp add: dlist_def)
    then show ?thesis using links_append [of h "a # ys" y "[a]"] by (simp add: snoc)
  qed
qed

lemma dlist_at:
  assumes "dlist h a (xs @ b # ys)"
  shows "l_next h b = hd (ys @ [a])" "l_prev h b = last (a # xs)"
  using dlist_ends [OF dlist_rotate [OF assms]] by (auto simp: hd_append)

text \<open>
  Insertion and removal right behind the head; any other place is the place behind the head of a
  rotated list.
\<close>

lemma insert_front:
  assumes "dlist h a ys" "x \<notin> set (a # ys)"
  shows "dlist (list_add_between x a (hd (ys @ [a])) h) a (x # ys)"
proof (cases ys)
  case Nil
  with assms show ?thesis by (simp add: dlist_def list_add_between_def)
next
  case (Cons n vs)
  with assms have "links h (n # vs @ [a])" by (simp add: dlist_def)
  then have "links (list_add_between x a n h) (n # vs @ [a])"
    unfolding list_add_between_def using assms Cons by (auto simp: dlist_def butlast_append)
  then show ?thesis using assms Cons by (auto simp: dlist_def) (auto simp: list_add_between_def)
qed

lemma remove_front:
  assumes "dlist h a (x # ys)"
  shows "dlist (list_del_between a (hd (ys @ [a])) h) a ys"
proof (cases ys)
  case Nil
  with assms show ?thesis by (simp add: dlist_def list_del_between_def)
next
  case (Cons n vs)
  with assms have "links h (n # vs @ [a])" by (simp add: dlist_def)
  then have "links (list_del_between a n h) (n # vs @ [a])"
    unfolding list_del_between_def using assms Cons by (auto simp: dlist_def butlast_append)
  then show ?thesis using assms Cons by (auto simp: dlist_def) (auto simp: list_del_between_def)
qed

lemma list_add_between_dlist:
  assumes "dlist h a (xs @ ys)" "x \<notin> set (a # xs @ ys)"
  shows "dlist (list_add_between x (last (a # xs)) (hd (ys @ [a])) h) a (xs @ x # ys)"
proof (cases xs rule: rev_cases)
  case Nil
  then show ?thesis using insert_front assms by fastforce
next
  case (snoc us p)
  have "dlist h p (ys @ a # us)" using assms(1) snoc dlist_rotate [of h a us p ys] by simp
  then have "dlist (list_add_between x p (hd ((ys @ a # us) @ [p])) h) p (x # ys @ a # us)"
    using assms(2) snoc by (intro insert_front) auto
  then show ?thesis
    using dlist_rotate [of _ p "x # ys" a us] snoc by (cases ys) simp_all
qed

lemma list_del_between_dlist:
  assumes "dlist h a (xs @ x # ys)"
  shows "dlist (list_del_between (last (a # xs)) (hd (ys @ [a])) h) a (xs @ ys)"
proof (cases xs rule: rev_cases)
  case Nil
  then show ?thesis using remove_front [of h a x ys] assms by simp
next
  case (snoc us p)
  have "dlist h p (x # ys @ a # us)" using assms(1) snoc dlist_rotate [of h a us p "x # ys"] by simp
  then have "dlist (list_del_between p (hd ((ys @ a # us) @ [p])) h) p (ys @ a # us)"
    by (rule remove_front)
  then show ?thesis
    using dlist_rotate [of _ p ys a us] snoc by (cases ys) simp_all
qed

lemma dlist_frame [simp]:
  "x \<notin> set (a # xs) \<Longrightarrow> dlist (set_next x v h) a xs = dlist h a xs"
  "x \<notin> set (a # xs) \<Longrightarrow> dlist (set_prev x v h) a xs = dlist h a xs"
  by (auto simp: dlist_def butlast_append)

lemma in_tlD: "x \<in> set (tl xs) \<Longrightarrow> x \<in> set xs"
  by (cases xs) auto

lemma links_join:
  "links h (xs @ ys) \<longleftrightarrow> links h xs \<and> links h ys \<and>
     (xs \<noteq> [] \<and> ys \<noteq> [] \<longrightarrow> l_next h (last xs) = hd ys \<and> l_prev h (hd ys) = last xs)"
  by (induction h xs rule: links.induct) (auto, (cases ys; simp)+)

lemma links_cong:
  "links h xs \<Longrightarrow> (\<And>q. q \<in> set (butlast xs) \<Longrightarrow> l_next g q = l_next h q) \<Longrightarrow>
    (\<And>q. q \<in> set (tl xs) \<Longrightarrow> l_prev g q = l_prev h q) \<Longrightarrow> links g xs"
  by (induction h xs rule: links.induct) auto

text \<open>In a list without repetition the last node is not in front and the first not behind.\<close>

lemma distinct_ends:
  assumes "distinct xs" "xs \<noteq> []"
  shows "q \<in> set (butlast xs) \<Longrightarrow> q \<in> set xs \<and> q \<noteq> last xs" "q \<in> set (tl xs) \<Longrightarrow> q \<in> set xs \<and> q \<noteq> hd xs"
proof -
  show "q \<in> set (butlast xs) \<Longrightarrow> q \<in> set xs \<and> q \<noteq> last xs"
    using assms by (cases xs rule: rev_cases) auto
  show "q \<in> set (tl xs) \<Longrightarrow> q \<in> set xs \<and> q \<noteq> hd xs"
    using assms by (cases xs) auto
qed

section \<open>What the operations do to a list\<close>

lemma list_add_at:
  "dlist h a (xs @ p # ys) \<Longrightarrow> x \<notin> set (a # xs @ p # ys) \<Longrightarrow> dlist (list_add x p h) a (xs @ p # x # ys)"
  using list_add_between_dlist [of h a "xs @ [p]" ys x] dlist_at [of h a xs p ys] by (simp add: list_add_def)

lemma list_add_front:
  "dlist h a xs \<Longrightarrow> x \<notin> set (a # xs) \<Longrightarrow> dlist (list_add x a h) a (x # xs)"
  using insert_front [of h a xs x] dlist_ends [of h a xs] by (simp add: list_add_def)

lemma list_add_back:
  "dlist h a xs \<Longrightarrow> x \<notin> set (a # xs) \<Longrightarrow> dlist (list_add_tail x a h) a (xs @ [x])"
  using list_add_between_dlist [of h a xs "[]" x] dlist_ends [of h a xs] by (simp add: list_add_tail_def)

lemma list_del_entry_dlist:
  "dlist h a (xs @ x # ys) \<Longrightarrow> dlist (list_del_entry x h) a (xs @ ys)"
  using list_del_between_dlist [of h a xs x ys] dlist_at [of h a xs x ys] by (simp add: list_del_entry_def)

lemma list_del_dlist: "dlist h a (xs @ x # ys) \<Longrightarrow> dlist (list_del x h) a (xs @ ys)"
  using list_del_entry_dlist [of h a xs x ys] by (auto simp: list_del_def dlist_def butlast_append)

lemma list_replace_head:
  assumes "dlist h old zs" "zs \<noteq> []" "x \<notin> set (old # zs)"
  shows "dlist (list_replace old x h) x zs"
proof -
  let ?h = "list_replace old x h"
  have e: "l_next h old = hd zs" "l_prev h old = last zs" using dlist_ends [OF assms(1)] assms(2) by auto
  have d: "distinct zs" using assms(1) by (simp add: dlist_def)
  have "links h ([old] @ (zs @ [old]))" using assms(1) by (simp add: dlist_def)
  then have k: "links h zs" by (simp only: links_join [of h "[old]"] links_join [of h zs])
  have m: "hd zs \<in> set zs" "last zs \<in> set zs" "x \<notin> set zs" "x \<noteq> old" "old \<notin> set zs"
    using assms by (auto simp: dlist_def)
  have "old \<noteq> hd zs" "x \<noteq> hd zs" using m by (metis, metis)
  then have g: "l_next ?h q = (if q = last zs then x else if q = x then hd zs else l_next h q)"
    "l_prev ?h q = (if q = x then last zs else if q = hd zs then x else l_prev h q)" for q
    using m by (simp_all add: list_replace_def Let_def e)
  have "links ?h zs"
    using distinct_ends [OF d assms(2)] m by (intro links_cong [OF k]) (auto simp: g)
  moreover have "x \<noteq> last zs" "x \<noteq> hd zs" using m by (metis, metis)
  then have "l_next ?h x = hd zs" "l_prev ?h (hd zs) = x" "l_next ?h (last zs) = x" "l_prev ?h x = last zs"
    by (simp_all add: g)
  ultimately have "links ?h ([x] @ (zs @ [x]))"
    using assms(2) by (simp add: links_join [of ?h "[x]" "zs @ [x]", simplified] links_join [of ?h zs])
  with assms show ?thesis by (auto simp: dlist_def)
qed

lemma list_replace_dlist:
  assumes "dlist h a (xs @ old # ys)" "x \<notin> set (a # xs @ old # ys)"
  shows "dlist (list_replace old x h) a (xs @ x # ys)"
proof (rule dlist_rotate)
  show "dlist (list_replace old x h) x (ys @ a # xs)"
    using list_replace_head [OF dlist_rotate [OF assms(1)], of x] assms(2) by auto
qed

lemma list_swap_dlist:
  assumes d: "dlist h a (xs @ e1 # ys @ e2 # zs)"
  shows "dlist (list_swap e1 e2 h) a (xs @ e2 # ys @ e1 # zs)"
proof -
  define p where "p = last (e2 # ys)"
  have pos: "l_prev h e2 = last (e1 # ys)" using dlist_at [of h a "xs @ e1 # ys" e2 zs] d by simp
  have "dlist (list_del e2 h) a (xs @ e1 # (ys @ zs))"
    using list_del_dlist [of h a "xs @ e1 # ys" e2 zs] d by simp
  then have "dlist (list_replace e1 e2 (list_del e2 h)) a (xs @ e2 # ys @ zs)"
    using d by (intro list_replace_dlist) (auto simp: dlist_def)
  moreover obtain vs where v: "e2 # ys = vs @ [p]"
    unfolding p_def by (metis append_butlast_last_id list.distinct(1))
  moreover have "e1 \<notin> set (e2 # ys)" using d by (auto simp: dlist_def)
  then have n: "e1 \<notin> set vs" "e1 \<noteq> p" unfolding v by auto
  ultimately have "dlist (list_replace e1 e2 (list_del e2 h)) a ((xs @ vs) @ p # zs)"
    and e: "xs @ e2 # ys @ e1 # zs = (xs @ vs) @ p # e1 # zs" by (metis append.assoc append_Cons append_Nil)+
  then have "dlist (list_add e1 p (list_replace e1 e2 (list_del e2 h))) a ((xs @ vs) @ p # e1 # zs)"
    using d n by (intro list_add_at) (auto simp: dlist_def)
  moreover have "(if last (e1 # ys) = e1 then e2 else last (e1 # ys)) = p"
    using d by (auto simp: p_def dlist_def)
  ultimately show ?thesis unfolding e by (simp only: list_swap_def pos Let_def)
qed

lemma splice_front:
  assumes "dlist h l ys" "dlist h a xs" "ys \<noteq> []" "set (l # ys) \<inter> set (a # xs) = {}"
  shows "dlist (list_splice_between l a (hd (xs @ [a])) h) a (ys @ xs)"
proof -
  let ?n = "hd (xs @ [a])" let ?h = "list_splice_between l a ?n h"
  have e: "l_next h l = hd ys" "l_prev h l = last ys" using dlist_ends [OF assms(1)] assms(3) by auto
  have d: "distinct ys" "distinct (xs @ [a])" using assms(1,2) by (auto simp: dlist_def)
  have m: "hd ys \<in> set ys" "last ys \<in> set ys" using assms(3) by auto
  have n: "?n \<in> set (xs @ [a])" by (rule hd_in_set) simp
  have x: "q \<in> set (xs @ [a]) \<Longrightarrow> q \<notin> set ys" for q using assms(4) by auto
  have "links h ([l] @ ys @ [l])" "links h ([a] @ (xs @ [a]))" using assms(1,2) by (auto simp: dlist_def)
  then have k: "links h ys" "links h (xs @ [a])" by (simp_all only: links_join [of h "[l]"] links_join [of h ys] links_join [of h "[a]"])
  have g: "l_next ?h q = (if q = last ys then ?n else if q = a then hd ys else l_next h q)"
    "l_prev ?h q = (if q = ?n then last ys else if q = hd ys then a else l_prev h q)" for q
    by (simp_all add: list_splice_between_def Let_def e)
  have "links ?h ys"
    using distinct_ends [OF d(1) assms(3)] x n by (intro links_cong [OF k(1)]) (auto simp: g)
  moreover have "links ?h (xs @ [a])"
    using distinct_ends [OF d(2)] x m by (intro links_cong [OF k(2)]) (auto simp: g)
  moreover have "?n \<noteq> hd ys" "a \<noteq> last ys" using n m x by (metis in_set_conv_decomp)+
  then have "l_next ?h a = hd ys" "l_prev ?h (hd ys) = a" "l_next ?h (last ys) = ?n" "l_prev ?h ?n = last ys"
    by (simp_all add: g not_sym)
  ultimately have "links ?h ([a] @ (ys @ (xs @ [a])))"
    using assms(3) by (simp add: links_join [of ?h ys] links_join [of ?h "[a]" "ys @ xs @ [a]", simplified])
  then show ?thesis using assms d by (auto simp: dlist_def)
qed

lemma list_splice_dlist:
  assumes "dlist h l ys" "dlist h a xs" "set (l # ys) \<inter> set (a # xs) = {}"
  shows "dlist (list_splice l a h) a (ys @ xs)" "dlist (list_splice_tail l a h) a (xs @ ys)"
proof -
  have e: "list_empty l h \<longleftrightarrow> ys = []"
    using dlist_ends(1) [OF assms(1)] assms(1) by (cases ys) (auto simp: list_empty_def dlist_def)
  show "dlist (list_splice l a h) a (ys @ xs)"
    using splice_front [OF assms(1,2) _ assms(3)] e assms(2) dlist_ends(1) [OF assms(2)]
    by (simp add: list_splice_def)
  show "dlist (list_splice_tail l a h) a (xs @ ys)"
  proof (cases xs rule: rev_cases)
    case Nil
    then show ?thesis
      using splice_front [OF assms(1,2) _ assms(3)] e assms(2) dlist_ends(2) [OF assms(2)]
      by (simp add: list_splice_tail_def)
  next
    case (snoc us p)
    then have "dlist h p (a # us)" using assms(2) dlist_rotate [of h a us p "[]"] by simp
    then have "ys \<noteq> [] \<Longrightarrow> dlist (list_splice_between l p a h) p (ys @ a # us)"
      using splice_front [OF assms(1), of p "a # us"] assms(3) snoc by auto
    then have "ys \<noteq> [] \<Longrightarrow> dlist (list_splice_between l p a h) a (us @ p # ys)"
      by (rule dlist_rotate)
    then show ?thesis
      using e assms(2) dlist_ends(2) [OF assms(2)] snoc by (auto simp: list_splice_tail_def)
  qed
qed

lemma list_cut_at_dlist:
  assumes "dlist h a (xs @ e # ys)" "l \<notin> set (a # xs @ e # ys)"
  shows "dlist (list_cut_at l a e h) l (xs @ [e]) \<and> dlist (list_cut_at l a e h) a ys"
proof -
  let ?h = "list_cut_at l a e h" let ?zs = "xs @ [e]" let ?f = "hd ?zs" let ?n = "hd (ys @ [a])"
  have n: "l_next h a = ?f" "l_next h e = ?n"
    using dlist_ends(1) [OF assms(1)] dlist_at(1) [OF assms(1)] by (auto simp: hd_append)
  have "links h ([a] @ (?zs @ (ys @ [a])))" using assms(1) by (simp add: dlist_def)
  then have k: "links h ?zs" "links h (ys @ [a])" by (simp_all only: links_join [of h "[a]"] links_join [of h ?zs])
  have d: "distinct ?zs" "distinct (ys @ [a])" and x: "q \<in> set (ys @ [a]) \<Longrightarrow> q \<notin> set ?zs" for q
    using assms(1) by (auto simp: dlist_def)
  have "?f \<in> set ?zs" "?n \<in> set (ys @ [a])" by (rule hd_in_set, simp)+
  moreover have "l \<notin> set ?zs" "l \<notin> set (ys @ [a])" using assms(2) by auto
  ultimately have m: "?f \<in> set ?zs" "?n \<in> set (ys @ [a])" "l \<notin> set ?zs" "l \<notin> set (ys @ [a])" by blast+
  have g: "l_next ?h q = (if q = a then ?n else if q = e then l else if q = l then ?f else l_next h q)"
    "l_prev ?h q = (if q = ?n then a else if q = l then e else if q = ?f then l else l_prev h q)" for q
    using assms by (auto simp: list_cut_at_def Let_def n dlist_def)
  have "links ?h ?zs"
    using distinct_ends [OF d(1)] x m by (intro links_cong [OF k(1)]) (auto simp: g)
  moreover have "links ?h (ys @ [a])"
    using distinct_ends [OF d(2)] x m by (intro links_cong [OF k(2)]) (auto simp: g)
  moreover have "?n \<noteq> ?f" "?n \<noteq> l" "l \<noteq> ?f" "a \<noteq> e" "l \<noteq> a" "l \<noteq> e" using m x assms(1,2) by (metis, metis, metis, auto simp: dlist_def)
  then have "l_next ?h l = ?f" "l_prev ?h ?f = l" "l_next ?h e = l" "l_prev ?h l = e"
    "l_next ?h a = ?n" "l_prev ?h ?n = a"
    by (simp_all add: g)
  ultimately have "links ?h ([l] @ (?zs @ [l]))" "links ?h ([a] @ (ys @ [a]))"
    by (simp_all only: links_join [of ?h "[l]" "?zs @ [l]"] links_join [of ?h ?zs "[l]"] links_join [of ?h "[a]" "ys @ [a]"]
        links.simps last.simps list.sel hd_append if_True if_False last_snoc) simp_all
  then show ?thesis using assms by (auto simp: dlist_def)
qed

text \<open>Iteration over a well-formed list ends, and visits its nodes in order.\<close>

lemma for_each_continue:
  "links h (xs @ [a]) \<Longrightarrow> a \<notin> set xs \<Longrightarrow> list_for_each_continue (hd (xs @ [a])) a h = Some xs"
proof (induction xs)
  case Nil
  then show ?case by (simp add: list_for_each_continue.simps list_is_head_def)
next
  case (Cons x xs)
  then have n: "l_next h x = hd (xs @ [a])" "links h (xs @ [a])" by (cases xs; simp)+
  show ?case
    using Cons n by (subst list_for_each_continue.simps) (auto simp: list_is_head_def)
qed

lemma for_each_continue_prev:
  "links h (a # xs) \<Longrightarrow> a \<notin> set xs \<Longrightarrow> list_for_each_continue_prev (last (a # xs)) a h = Some (rev xs)"
proof (induction xs rule: rev_induct)
  case Nil
  then show ?case by (simp add: list_for_each_continue_prev.simps list_is_head_def)
next
  case (snoc x xs)
  have "links h ((a # xs) @ [x])" using snoc.prems by simp
  then have n: "l_prev h x = last (a # xs)" "links h (a # xs)" by (simp_all only: links_join) auto
  show ?case
    using snoc n by (subst list_for_each_continue_prev.simps) (auto simp: list_is_head_def)
qed

lemma count_from:
  "links h (xs @ [a]) \<Longrightarrow> a \<notin> set xs \<Longrightarrow> list_count_from c (hd (xs @ [a])) a h = Some (c + of_nat (length xs))"
proof (induction xs arbitrary: c)
  case Nil
  then show ?case by (simp add: list_count_from.simps list_is_head_def)
next
  case (Cons x xs)
  then have n: "l_next h x = hd (xs @ [a])" "links h (xs @ [a])" by (cases xs; simp)+
  show ?case
    using Cons n by (subst list_count_from.simps) (auto simp: list_is_head_def algebra_simps)
qed

lemma dlist_iterate:
  assumes "dlist h a xs"
  shows "list_for_each a h = Some xs" "list_for_each_prev a h = Some (rev xs)"
    and "list_count_nodes a h = Some (of_nat (length xs))"
proof -
  have "links h ([a] @ (xs @ [a]))" "links h ((a # xs) @ [a])" "a \<notin> set xs" using assms by (auto simp: dlist_def)
  then have l: "links h (xs @ [a])" "links h (a # xs)" "a \<notin> set xs"
    using links_join [of h "[a]" "xs @ [a]"] links_join [of h "a # xs" "[a]"] by blast+
  show "list_for_each a h = Some xs"
    using for_each_continue [OF l(1,3)] dlist_ends(1) [OF assms] by (simp add: list_for_each_def)
  show "list_for_each_prev a h = Some (rev xs)"
    using for_each_continue_prev [OF l(2,3)] dlist_ends(2) [OF assms] by (simp add: list_for_each_prev_def)
  show "list_count_nodes a h = Some (of_nat (length xs))"
    using count_from [OF l(1,3), of 0] dlist_ends(1) [OF assms] by (simp add: list_count_nodes_def)
qed

section \<open>The interface of a chain of nodes\<close>

text \<open>
  What a client of a linked chain relies on: a node can be pushed to the front and unlinked from
  anywhere. Moving a node to the front, the step of every least-recently-used list, follows.
\<close>

locale chain =
  fixes shape :: "'s \<Rightarrow> 'p list \<Rightarrow> bool" and node :: "'p \<Rightarrow> bool"
    and push :: "'p \<Rightarrow> 's \<Rightarrow> 's" and unlink :: "'p \<Rightarrow> 's \<Rightarrow> 's"
  assumes shape_push: "shape s xs \<Longrightarrow> node x \<Longrightarrow> x \<notin> set xs \<Longrightarrow> shape (push x s) (x # xs)"
    and shape_unlink: "shape s (xs @ x # ys) \<Longrightarrow> shape (unlink x s) (xs @ ys)"
    and shape_nodes: "shape s xs \<Longrightarrow> distinct xs \<and> (\<forall>x \<in> set xs. node x)"
begin

lemma to_front:
  assumes "shape s xs" "x \<in> set xs"
  shows "shape (push x (unlink x s)) (x # remove1 x xs)"
proof -
  obtain us vs where x: "xs = us @ x # vs" "x \<notin> set us" using split_list_first [OF assms(2)] by blast
  then have "shape (unlink x s) (us @ vs)" using assms(1) shape_unlink by simp
  moreover have "node x" "x \<notin> set (us @ vs)" using shape_nodes [OF assms(1)] x by auto
  ultimately show ?thesis using x by (simp add: shape_push remove1_append)
qed

lemma push_all:
  "shape s [] \<Longrightarrow> distinct xs \<Longrightarrow> (\<forall>x \<in> set xs. node x) \<Longrightarrow> shape (fold push xs s) (rev xs)"
  by (induction xs rule: rev_induct) (auto intro: shape_push)

end

interpretation lh: chain "\<lambda>h. dlist h a" "\<lambda>x. x \<noteq> a" "\<lambda>x. list_add x a" list_del_entry for a :: 'p
proof unfold_locales
  show "dlist h a xs \<Longrightarrow> distinct xs \<and> (\<forall>x \<in> set xs. x \<noteq> a)" for h xs by (auto simp: dlist_def)
qed (auto intro: list_add_front list_del_entry_dlist)

lemma list_move_front:
  "dlist h a xs \<Longrightarrow> x \<in> set xs \<Longrightarrow> dlist (list_move x a h) a (x # remove1 x xs)"
  unfolding list_move_def by (rule lh.to_front)

section \<open>Properties\<close>

text \<open>What all traversals of a list see: forwards, backwards and by count.\<close>

definition visits :: "'p \<Rightarrow> 'p list_heap \<Rightarrow> 'p list \<Rightarrow> bool" where
  "visits head h xs \<longleftrightarrow> list_for_each head h = Some xs \<and> list_for_each_prev head h = Some (rev xs) \<and>
     list_count_nodes head h = Some (of_nat (length xs))"

lemma dlist_visits: "dlist h a xs \<Longrightarrow> visits a h xs"
  by (simp add: visits_def dlist_iterate)

text \<open>
  C27. Insertion at either end, removal, move, replacement and exchange of entries of a well-formed
  list: what the traversals visit afterwards, forwards, backwards and by count. A removed entry is left
  with the two poison addresses.
\<close>

theorem list_head_operations:
  assumes "dlist h a xs" "x \<notin> set (a # xs)" "y \<in> set xs"
  shows "visits a (list_add x a h) (x # xs) \<and> visits a (list_add_tail x a h) (xs @ [x]) \<and>
    visits a (list_del y h) (remove1 y xs) \<and> l_next (list_del y h) y = 0x100 \<and> l_prev (list_del y h) y = 0x200 \<and>
    visits a (list_move y a h) (y # remove1 y xs) \<and> visits a (list_move_tail y a h) (remove1 y xs @ [y]) \<and>
    visits a (list_replace y x h) (map (\<lambda>z. if z = y then x else z) xs)"
proof -
  obtain us vs where y: "xs = us @ y # vs" "y \<notin> set us" using split_list_first [OF assms(3)] by blast
  have d: "y \<notin> set vs" "y \<notin> set (a # us @ vs)" using assms(1) y by (auto simp: dlist_def)
  have m: "map (\<lambda>z. if z = y then x else z) us = us" "map (\<lambda>z. if z = y then x else z) vs = vs"
    using y(2) d by (auto intro: map_idI)
  have r: "remove1 y xs = us @ vs" using y by (simp add: remove1_append)
  have "visits a (list_del y h) (us @ vs)" using list_del_dlist [of h a us y vs] assms(1) y by (intro dlist_visits) simp
  moreover have "visits a (list_replace y x h) (us @ x # vs)"
    using list_replace_dlist [of h a us y vs x] assms(1,2) y by (intro dlist_visits) simp
  moreover have "visits a (list_move_tail y a h) ((us @ vs) @ [y])"
    using list_add_back [OF list_del_entry_dlist [of h a us y vs], of y] assms(1) y d(2) unfolding list_move_tail_def by (intro dlist_visits) simp
  ultimately show ?thesis unfolding r
    using dlist_visits [OF list_add_front [OF assms(1,2)]] dlist_visits [OF list_add_back [OF assms(1,2)]]
      dlist_visits [OF list_move_front [OF assms(1,3), unfolded r]] y m by (simp add: list_del_def)
qed

text \<open>
  C28. Cutting a list behind one of its entries and splicing the part back: the cut leaves the
  front part on the new head and the rest on the old one, and splicing it back restores the original,
  or appends it at the tail; forwards, backwards and by count.
\<close>

theorem list_cut_splice:
  assumes "dlist h a (xs @ e # ys)" "l \<notin> set (a # xs @ e # ys)"
  shows "visits l (list_cut_position l a e h) (xs @ [e]) \<and> visits a (list_cut_position l a e h) ys \<and>
    visits a (list_splice l a (list_cut_position l a e h)) (xs @ e # ys) \<and>
    visits a (list_splice_tail l a (list_cut_position l a e h)) (ys @ xs @ [e])"
proof -
  let ?h = "list_cut_position l a e h"
  have n: "l_next h a = hd (xs @ [e])" "l_prev h a = last (e # ys)"
    using dlist_ends [OF assms(1)] by (auto simp: hd_append)
  have s: "list_is_singular a h \<Longrightarrow> e = l_next h a"
    using n assms(1) unfolding list_is_singular_def
    by (cases xs) (auto simp: dlist_def split: if_splits)
  have "\<not> list_empty a h" "e \<noteq> a" using n assms(1) by (cases xs; auto simp: list_empty_def dlist_def)+
  then have "?h = list_cut_at l a e h" using s by (auto simp: list_cut_position_def list_is_head_def)
  then have d: "dlist ?h l (xs @ [e])" "dlist ?h a ys" using list_cut_at_dlist [OF assms] by simp_all
  have "set (l # xs @ [e]) \<inter> set (a # ys) = {}" using assms by (auto simp: dlist_def)
  then show ?thesis
    using dlist_visits [OF d(1)] dlist_visits [OF d(2)] dlist_visits [OF list_splice_dlist(1) [OF d]]
      dlist_visits [OF list_splice_dlist(2) [OF d]] by simp
qed

text \<open>Three nodes at 16, 24 and 32 on the head at 8, built by \<open>list_add_tail\<close>.\<close>

definition three_nodes :: "u64 list_heap" where
  "three_nodes = fold (\<lambda>x. list_add_tail x 8) [16, 24, 32]
     (INIT_LIST_HEAD 8 \<lparr>l_next = (\<lambda>_. 0), l_prev = (\<lambda>_. 0)\<rparr>)"

lemma three_nodes: "dlist three_nodes 8 [16, 24, 32]"
proof -
  have "dlist (INIT_LIST_HEAD 8 \<lparr>l_next = (\<lambda>_. 0), l_prev = (\<lambda>_. 0)\<rparr>) (8 :: u64) []"
    by (simp add: INIT_LIST_HEAD_def)
  from list_add_back [OF list_add_back [OF list_add_back [OF this, of 16], of 24], of 32]
  show ?thesis by (simp add: three_nodes_def)
qed

theorem list_head_operations_witness:
  "visits 8 (list_del 24 three_nodes) [16, 32] \<and> visits 8 (list_move 32 8 three_nodes) [32, 16, 24] \<and>
   visits 8 (list_replace 24 40 three_nodes) [16, 40, 32]"
  using list_head_operations [OF three_nodes, of 40 24] list_head_operations [OF three_nodes, of 40 32]
  by simp

theorem list_cut_splice_witness:
  "visits 40 (list_cut_position 40 8 24 three_nodes) [16, 24] \<and> visits 8 (list_cut_position 40 8 24 three_nodes) [32]"
  using list_cut_splice [of three_nodes 8 "[16]" 24 "[32]" 40] three_nodes by simp

end
