(* ===== verification/Bio.thy ===== *)
theory Bio
  imports Vm List_Head
begin

text \<open>
  The buffer cache of \<open>kernel/bio.c\<close>. The \<open>NBUF\<close> buffers are named by their index in
  \<open>bcache.buf\<close>, \<open>bcache.head\<close> by \<open>NBUF\<close>; the \<open>prev\<close> and \<open>next\<close> fields of all of
  them are the two maps of a \<open>list_heap\<close>, so that the lemmas about circular lists apply.

  \<open>virtio_disk_rw\<close> appears here as what the device does with the request the driver posts: it
  moves one block between the buffer and the disk. \<open>dwrites\<close> lists the completed writes, oldest
  first; a crash of the machine leaves the disk as some prefix of them left it. The driver itself is
  the subject of the theory \<open>Virtio\<close>.
\<close>

section \<open>State\<close>

abbreviation (input) BSIZE :: nat where "BSIZE \<equiv> 1024"

record buf =
  b_valid :: bool
  b_disk :: bool
  b_dev :: u32
  b_blockno :: u32
  b_refcnt :: u32
  b_data :: "u8 list"

type_synonym disk = "u32 \<Rightarrow> u8 list"

record bio_st = vm_st +
  bufs :: "nat \<Rightarrow> buf"
  blinks :: "nat list_heap"
  disk :: disk
  dwrites :: "(u32 \<times> u8 list) list"

abbreviation (input) bhead :: nat where "bhead \<equiv> 30"

definition set_buf :: "nat \<Rightarrow> (buf \<Rightarrow> buf) \<Rightarrow> 'a bio_st_scheme \<Rightarrow> 'a bio_st_scheme" where
  "set_buf i f s = s\<lparr>bufs := (bufs s)(i := f (bufs s i))\<rparr>"

definition virtio_disk_rw :: "nat \<Rightarrow> bool \<Rightarrow> 'a bio_st_scheme \<Rightarrow> 'a bio_st_scheme" where
  "virtio_disk_rw i write s =
     (let b = bufs s i
      in if write then s\<lparr>disk := (disk s)(b_blockno b := b_data b), dwrites := dwrites s @ [(b_blockno b, b_data b)]\<rparr>
         else set_buf i (\<lambda>b. b\<lparr>b_data := disk s (b_blockno b)\<rparr>) s)"

section \<open>Operations\<close>

text \<open>The four stores that put \<open>b\<close> behind the head, in the two orders of the source.\<close>

definition binit_push :: "nat \<Rightarrow> 'a bio_st_scheme \<Rightarrow> 'a bio_st_scheme" where
  "binit_push b s =
     (let s = s\<lparr>blinks := set_prev b bhead (set_next b (l_next (blinks s) bhead) (blinks s))\<rparr>;
          s = init_sleeplock (BufSleep b) ''buffer'' s
      in s\<lparr>blinks := set_next bhead b (set_prev (l_next (blinks s) bhead) b (blinks s))\<rparr>)"

definition binit :: "'a bio_st_scheme \<Rightarrow> 'a bio_st_scheme" where
  "binit s =
     (let s = initlock BcacheLock ''bcache'' s;
          s = s\<lparr>blinks := set_next bhead bhead (set_prev bhead bhead (blinks s))\<rparr>
      in fold binit_push [0..<NBUF] s)"

text \<open>
  The two scans of \<open>bget\<close>. They follow the links until they are back at the head; \<open>NBUF + 1\<close>
  steps are enough on a well-formed list, and on a broken one the C loop need not end.
\<close>

fun bget_find :: "nat \<Rightarrow> u32 \<Rightarrow> u32 \<Rightarrow> nat \<Rightarrow> 'a bio_st_scheme \<Rightarrow> (nat option, 'a bio_st_scheme) outcome" where
  "bget_find 0 dev blockno b s = Block"
| "bget_find (Suc n) dev blockno b s =
     (if b = bhead then Ok None s
      else if b_dev (bufs s b) = dev \<and> b_blockno (bufs s b) = blockno then Ok (Some b) s
      else bget_find n dev blockno (l_next (blinks s) b) s)"

fun bget_unused :: "nat \<Rightarrow> nat \<Rightarrow> 'a bio_st_scheme \<Rightarrow> (nat option, 'a bio_st_scheme) outcome" where
  "bget_unused 0 b s = Block"
| "bget_unused (Suc n) b s =
     (if b = bhead then Ok None s
      else if b_refcnt (bufs s b) = 0 then Ok (Some b) s
      else bget_unused n (l_prev (blinks s) b) s)"

definition bget :: "u32 \<Rightarrow> u32 \<Rightarrow> 'a bio_st_scheme \<Rightarrow> (nat, 'a bio_st_scheme) outcome" where
  "bget dev blockno s =
     bnd (acquire BcacheLock s) (\<lambda>_ s.
     bnd (bget_find (NBUF + 1) dev blockno (l_next (blinks s) bhead) s) (\<lambda>r s.
     case r of
       Some b \<Rightarrow>
         let s = set_buf b (\<lambda>x. x\<lparr>b_refcnt := b_refcnt x + 1\<rparr>) s
         in bnd (release BcacheLock s) (\<lambda>_ s.
            bnd (acquire_sleep (BufSleep b) s) (\<lambda>_ s. Ok b s))
     | None \<Rightarrow>
         bnd (bget_unused (NBUF + 1) (l_prev (blinks s) bhead) s) (\<lambda>r s.
         case r of
           Some b \<Rightarrow>
             let s = set_buf b (\<lambda>x. x\<lparr>b_dev := dev, b_blockno := blockno, b_valid := False, b_refcnt := 1\<rparr>) s
             in bnd (release BcacheLock s) (\<lambda>_ s.
                bnd (acquire_sleep (BufSleep b) s) (\<lambda>_ s. Ok b s))
         | None \<Rightarrow> Panic ''bget: no buffers'')))"

definition bread :: "u32 \<Rightarrow> u32 \<Rightarrow> 'a bio_st_scheme \<Rightarrow> (nat, 'a bio_st_scheme) outcome" where
  "bread dev blockno s =
     bnd (bget dev blockno s) (\<lambda>b s.
     Ok b (if \<not> b_valid (bufs s b) then set_buf b (\<lambda>x. x\<lparr>b_valid := True\<rparr>) (virtio_disk_rw b False s) else s))"

definition bwrite :: "nat \<Rightarrow> 'a bio_st_scheme \<Rightarrow> (unit, 'a bio_st_scheme) outcome" where
  "bwrite b s =
     bnd (holding_sleep (BufSleep b) s) (\<lambda>h s.
     if \<not> h then Panic ''bwrite'' else Ok () (virtio_disk_rw b True s))"

definition brelse_links :: "nat \<Rightarrow> nat list_heap \<Rightarrow> nat list_heap" where
  "brelse_links b h =
     (let h = set_prev (l_next h b) (l_prev h b) h;
          h = set_next (l_prev h b) (l_next h b) h;
          h = set_next b (l_next h bhead) h;
          h = set_prev b bhead h;
          h = set_prev (l_next h bhead) b h
      in set_next bhead b h)"

definition brelse :: "nat \<Rightarrow> 'a bio_st_scheme \<Rightarrow> (unit, 'a bio_st_scheme) outcome" where
  "brelse b s =
     bnd (holding_sleep (BufSleep b) s) (\<lambda>h s.
     if \<not> h then Panic ''brelse''
     else bnd (release_sleep (BufSleep b) s) (\<lambda>_ s.
          bnd (acquire BcacheLock s) (\<lambda>_ s.
          let s = set_buf b (\<lambda>x. x\<lparr>b_refcnt := b_refcnt x - 1\<rparr>) s;
              s = (if b_refcnt (bufs s b) = 0 then s\<lparr>blinks := brelse_links b (blinks s)\<rparr> else s)
          in release BcacheLock s)))"

definition bpin :: "nat \<Rightarrow> 'a bio_st_scheme \<Rightarrow> (unit, 'a bio_st_scheme) outcome" where
  "bpin b s =
     bnd (acquire BcacheLock s) (\<lambda>_ s. release BcacheLock (set_buf b (\<lambda>x. x\<lparr>b_refcnt := b_refcnt x + 1\<rparr>) s))"

definition bunpin :: "nat \<Rightarrow> 'a bio_st_scheme \<Rightarrow> (unit, 'a bio_st_scheme) outcome" where
  "bunpin b s =
     bnd (acquire BcacheLock s) (\<lambda>_ s. release BcacheLock (set_buf b (\<lambda>x. x\<lparr>b_refcnt := b_refcnt x - 1\<rparr>) s))"

section \<open>The list of buffers\<close>

lemma brelse_links_front:
  assumes "dlist h bhead xs" "b \<in> set xs"
  shows "dlist (brelse_links b h) bhead (b # remove1 b xs)"
proof -
  let ?h = "list_del_entry b h"
  obtain us vs where x: "xs = us @ b # vs" "b \<notin> set us" using split_list_first [OF assms(2)] by blast
  have d: "dlist ?h bhead (us @ vs)" using list_del_entry_dlist assms(1) x by simp
  have "b \<noteq> bhead" "b \<notin> set vs" using assms x by (auto simp: dlist_def)
  then have "b \<notin> set ((us @ vs) @ [bhead])" using x(2) by simp
  then have "l_next ?h bhead \<noteq> b"
    using dlist_ends(1) [OF d] hd_in_set [of "(us @ vs) @ [bhead]"] by auto
  moreover have "l_next h b \<noteq> b" "l_prev h b \<noteq> b"
    using dlist_at [of h bhead us b vs] assms(1) x \<open>b \<noteq> bhead\<close> \<open>b \<notin> set vs\<close>
    by (cases vs; cases us rule: rev_cases; auto)+
  ultimately have "brelse_links b h = list_add b bhead ?h"
    using \<open>b \<noteq> bhead\<close>
    by (auto simp: brelse_links_def list_add_def list_add_between_def list_del_entry_def list_del_between_def
        Let_def set_next_def set_prev_def fun_eq_iff)
  then show ?thesis using lh.to_front [OF assms] by simp
qed

lemma binit_push_links:
  assumes "dlist (blinks s) bhead xs" "b \<notin> set (bhead # xs)"
  shows "dlist (blinks (binit_push b s)) bhead (b # xs)"
proof -
  have "l_next (blinks s) bhead \<noteq> b" using dlist_ends(1) [OF assms(1)] assms(2) by (cases xs) auto
  then have "blinks (binit_push b s) = list_add b bhead (blinks s)"
    using assms(2)
    by (auto simp: binit_push_def init_sleeplock_def set_sleeplock_def initlock_def set_lock_def Let_def
        list_add_def list_add_between_def set_next_def set_prev_def fun_eq_iff)
  then show ?thesis using list_add_front [OF assms] by simp
qed

lemma binit_links: "dlist (blinks (binit s)) bhead (rev [0..<NBUF])"
proof -
  have "dlist (blinks s) bhead [] \<Longrightarrow> n \<le> 30 \<Longrightarrow> dlist (blinks (fold binit_push [0..<n] s)) bhead (rev [0..<n])"
    for n and s :: "'a bio_st_scheme"
    by (induction n) (auto intro: binit_push_links)
  from this [of _ 30] show ?thesis by (simp add: binit_def Let_def initlock_def set_lock_def)
qed

section \<open>What the cache holds\<close>

text \<open>No spin lock is held, and process \<open>p\<close> runs.\<close>

definition quiet :: "nat \<Rightarrow> 'a machine_scheme \<Rightarrow> bool" where
  "quiet p s \<longleftrightarrow> settled s \<and> (\<forall>L. lock_free L s) \<and> c_proc (cpus s (tp s)) = Some p"

lemma quietD: "quiet p s \<Longrightarrow> settled s" "quiet p s \<Longrightarrow> lock_free L s" "quiet p s \<Longrightarrow> c_proc (cpus s (tp s)) = Some p"
    "quiet p s \<Longrightarrow> table_free s"
  by (simp_all add: quiet_def table_free_def)

lemma quiet_cong: "tp t = tp s \<Longrightarrow> cpus t = cpus s \<Longrightarrow> locks t = locks s \<Longrightarrow> quiet p t = quiet p s"
  using settled_cong [of t s] by (simp add: quiet_def lock_free_def)

definition is_at :: "'a bio_st_scheme \<Rightarrow> u32 \<Rightarrow> u32 \<Rightarrow> nat \<Rightarrow> bool" where
  "is_at s dev blockno i \<longleftrightarrow> b_dev (bufs s i) = dev \<and> b_blockno (bufs s i) = blockno"

text \<open>
  The abstract state of the cache for device \<open>D\<close>: \<open>H\<close> maps the buffers the running process
  holds to their blocks, \<open>V\<close> gives the contents of each block as a reader sees them, \<open>P\<close> counts
  the pins of each block, the references beyond the holder's own. A block that is neither pinned nor
  held has the contents of the disk.
\<close>

definition buf_ok :: "u32 \<Rightarrow> bool \<Rightarrow> (u32 \<Rightarrow> u8 list) \<Rightarrow> (u32 \<Rightarrow> nat) \<Rightarrow> buf \<Rightarrow> bool" where
  "buf_ok D h V P x \<longleftrightarrow>
     (if b_dev x = D
      then unat (b_refcnt x) = P (b_blockno x) + of_bool h \<and> (b_valid x \<longrightarrow> b_data x = V (b_blockno x)) \<and>
        (h \<or> 0 < P (b_blockno x) \<longrightarrow> b_valid x)
      else b_refcnt x = 0)"

definition cache :: "nat \<Rightarrow> u32 \<Rightarrow> (nat \<rightharpoonup> u32) \<Rightarrow> (u32 \<Rightarrow> u8 list) \<Rightarrow> (u32 \<Rightarrow> nat) \<Rightarrow> 'a bio_st_scheme \<Rightarrow> bool" where
  "cache p D H V P s \<longleftrightarrow>
     quiet p s \<and>
     (\<exists>xs. dlist (blinks s) bhead xs \<and> set xs = {..<NBUF}) \<and>
     dom H \<subseteq> {..<NBUF} \<and>
     (\<forall>i b. H i = Some b \<longrightarrow> is_at s D b i \<and> sl_pid (sleeplocks s (BufSleep i)) = p_pid (procs s p)) \<and>
     (\<forall>i<NBUF. sl_locked (sleeplocks s (BufSleep i)) \<longleftrightarrow> i \<in> dom H) \<and>
     (\<forall>i<NBUF. buf_ok D (i \<in> dom H) V P (bufs s i)) \<and>
     (\<forall>i<NBUF. \<forall>j<NBUF. \<forall>b. is_at s D b i \<and> is_at s D b j \<longrightarrow> i = j) \<and>
     (\<forall>b. 0 < P b \<longrightarrow> (\<exists>i<NBUF. is_at s D b i)) \<and>
     (\<forall>b. P b = 0 \<and> b \<notin> ran H \<longrightarrow> V b = disk s b)"

lemma cacheD:
  assumes "cache p D H V P s"
  shows "quiet p s" "H i = Some b \<Longrightarrow> i < NBUF" "H i = Some b \<Longrightarrow> is_at s D b i"
    "H i = Some b \<Longrightarrow> sl_pid (sleeplocks s (BufSleep i)) = p_pid (procs s p)"
    "i < NBUF \<Longrightarrow> sl_locked (sleeplocks s (BufSleep i)) \<longleftrightarrow> i \<in> dom H"
    "i < NBUF \<Longrightarrow> buf_ok D (i \<in> dom H) V P (bufs s i)"
    "is_at s D b i \<Longrightarrow> is_at s D b j \<Longrightarrow> i < NBUF \<Longrightarrow> j < NBUF \<Longrightarrow> i = j"
    "0 < P b \<Longrightarrow> \<exists>i<NBUF. is_at s D b i"
    "P b = 0 \<Longrightarrow> b \<notin> ran H \<Longrightarrow> V b = disk s b"
  using assms unfolding cache_def by (blast, blast, blast, blast, blast, blast, blast, blast, blast)

lemma cacheI:
  assumes "quiet p s" "dlist (blinks s) bhead xs" "set xs = {..<NBUF}" "dom H \<subseteq> {..<NBUF}"
    "\<And>i b. H i = Some b \<Longrightarrow> is_at s D b i \<and> sl_pid (sleeplocks s (BufSleep i)) = p_pid (procs s p)"
    "\<And>i. i < NBUF \<Longrightarrow> sl_locked (sleeplocks s (BufSleep i)) \<longleftrightarrow> i \<in> dom H"
    "\<And>i. i < NBUF \<Longrightarrow> buf_ok D (i \<in> dom H) V P (bufs s i)"
    "\<And>i j b. i < NBUF \<Longrightarrow> j < NBUF \<Longrightarrow> is_at s D b i \<Longrightarrow> is_at s D b j \<Longrightarrow> i = j"
    "\<And>b. 0 < P b \<Longrightarrow> \<exists>i<NBUF. is_at s D b i"
    "\<And>b. P b = 0 \<Longrightarrow> b \<notin> ran H \<Longrightarrow> V b = disk s b"
  shows "cache p D H V P s"
  unfolding cache_def using assms by blast

lemma cache_held:
  assumes "cache p D H V P s" "H i = Some b"
  shows "b_dev (bufs s i) = D" "b_blockno (bufs s i) = b" "b_data (bufs s i) = V b"
    "unat (b_refcnt (bufs s i)) = P b + 1" "b_valid (bufs s i)"
  using cacheD(2,3) [OF assms] cacheD(6) [OF assms(1), of i] assms(2)
  by (auto simp: is_at_def buf_ok_def)

lemma cache_other:
  assumes "cache p D H V P s" "H i = Some b" "j < NBUF" "j \<noteq> i"
  shows "\<not> (b_dev (bufs s j) = D \<and> b_blockno (bufs s j) = b)"
  using cacheD(7) [OF assms(1), of b i j] cacheD(2,3) [OF assms(1,2)] assms(3,4) by (auto simp: is_at_def)

text \<open>
  What the operations of the cache leave alone: everything but the buffers, their sleep locks, the
  disk, and the wait states of processes that sleep on a buffer.
\<close>

definition kept :: "'a bio_st_scheme \<Rightarrow> 'a bio_st_scheme \<Rightarrow> bool" where
  "kept s t \<longleftrightarrow>
     t\<lparr>procs := procs s, sleeplocks := sleeplocks s, bufs := bufs s, blinks := blinks s, disk := disk s,
       dwrites := dwrites s\<rparr> = s \<and>
     (\<forall>i. sleeplocks t (InodeSleep i) = sleeplocks s (InodeSleep i)) \<and>
     (\<forall>i. \<exists>st. procs t i = (procs s i)\<lparr>p_state := st\<rparr>)"

lemma same_state: "\<exists>st. x = x\<lparr>p_state := st\<rparr>" for x :: proc
  by (rule exI [of _ "p_state x"]) simp

lemma kept_refl [simp]: "kept s s"
proof -
  have "\<exists>st. procs s i = (procs s i)\<lparr>p_state := st\<rparr>" for i by (rule same_state)
  then show ?thesis by (simp add: kept_def)
qed

lemma kept_trans [trans]:
  assumes "kept s t" "kept t u"
  shows "kept s u"
proof -
  have "\<exists>st. procs u i = (procs s i)\<lparr>p_state := st\<rparr>" for i
  proof -
    obtain x where "procs t i = (procs s i)\<lparr>p_state := x\<rparr>" using assms(1) unfolding kept_def by blast
    moreover obtain y where "procs u i = (procs t i)\<lparr>p_state := y\<rparr>" using assms(2) unfolding kept_def by blast
    ultimately show ?thesis by auto
  qed
  moreover have t: "u\<lparr>procs := procs t, sleeplocks := sleeplocks t, bufs := bufs t, blinks := blinks t, disk := disk t,
       dwrites := dwrites t\<rparr> = t" and l: "sleeplocks u (InodeSleep i) = sleeplocks s (InodeSleep i)" for i
    using assms by (simp_all add: kept_def)
  have "u\<lparr>procs := procs s, sleeplocks := sleeplocks s, bufs := bufs s, blinks := blinks s, disk := disk s,
       dwrites := dwrites s\<rparr> = s"
    using assms(1) by (subst (asm) t [symmetric]) (simp add: kept_def)
  ultimately show ?thesis using l by (simp add: kept_def)
qed

lemma kept_more: "kept s t \<Longrightarrow> bio_st.more t = bio_st.more s"
  unfolding kept_def by (drule conjunct1, drule arg_cong [of _ _ bio_st.more]) simp

text \<open>The scans of \<open>bget\<close>, over the list that the links form.\<close>

lemma bget_find_list:
  "links (blinks s) (xs @ [bhead]) \<Longrightarrow> bhead \<notin> set xs \<Longrightarrow> length xs < n \<Longrightarrow>
    bget_find n dev b (hd (xs @ [bhead])) s = Ok (find (is_at s dev b) xs) s"
proof (induction xs arbitrary: n)
  case Nil
  then show ?case by (cases n) simp_all
next
  case (Cons x xs)
  have "l_next (blinks s) x = hd (xs @ [bhead])" "links (blinks s) (xs @ [bhead])"
    using Cons.prems(1) by (cases xs; simp)+
  then show ?case using Cons by (cases n) (auto simp: is_at_def)
qed

lemma bget_unused_list:
  "links (blinks s) (bhead # xs) \<Longrightarrow> bhead \<notin> set xs \<Longrightarrow> length xs < n \<Longrightarrow>
    bget_unused n (last (bhead # xs)) s = Ok (find (\<lambda>i. b_refcnt (bufs s i) = 0) (rev xs)) s"
proof (induction xs arbitrary: n rule: rev_induct)
  case Nil
  then show ?case by (cases n) simp_all
next
  case (snoc x xs)
  have "links (blinks s) ((bhead # xs) @ [x])" using snoc.prems(1) by simp
  then have "l_prev (blinks s) x = last (bhead # xs)" "links (blinks s) (bhead # xs)"
    by (simp_all only: links_join) auto
  then show ?case using snoc by (cases n) auto
qed

section \<open>Taking and giving back a buffer\<close>

definition put_buf :: "nat \<Rightarrow> buf \<Rightarrow> sleeplock \<Rightarrow> 'a bio_st_scheme \<Rightarrow> 'a bio_st_scheme" where
  "put_buf i x l s = s\<lparr>bufs := (bufs s)(i := x), sleeplocks := (sleeplocks s)(BufSleep i := l)\<rparr>"

lemma put_buf_simps [simp]:
  "tp (put_buf i x l s) = tp s" "cpus (put_buf i x l s) = cpus s" "locks (put_buf i x l s) = locks s"
  "procs (put_buf i x l s) = procs s" "disk (put_buf i x l s) = disk s" "dwrites (put_buf i x l s) = dwrites s"
  "blinks (put_buf i x l s) = blinks s" "bufs (put_buf i x l s) = (bufs s)(i := x)"
  "sleeplocks (put_buf i x l s) = (sleeplocks s)(BufSleep i := l)"
  "quiet p (put_buf i x l s) = quiet p s"
  by (simp_all add: put_buf_def) (intro quiet_cong; simp add: put_buf_def)

lemma enter_bio_simps [simp]:
  "bufs (enter L s) = bufs s" "blinks (enter L s) = blinks s" "disk (enter L s) = disk s" "dwrites (enter L s) = dwrites s"
  by (simp_all add: enter_def set_lock_def push_off_eq)

lemma set_buf_simps [simp]:
  "tp (set_buf i f s) = tp s" "cpus (set_buf i f s) = cpus s" "locks (set_buf i f s) = locks s"
  "procs (set_buf i f s) = procs s" "sleeplocks (set_buf i f s) = sleeplocks s"
  "blinks (set_buf i f s) = blinks s" "disk (set_buf i f s) = disk s" "dwrites (set_buf i f s) = dwrites s"
  "bufs (set_buf i f s) = (bufs s)(i := f (bufs s i))"
  "settled (set_buf i f s) = settled s" "lock_free L (set_buf i f s) = lock_free L s"
  "quiet p (set_buf i f s) = quiet p s"
  by (simp_all add: set_buf_def settled_def cpu_ok_def machine_defs lock_free_def)
    (intro quiet_cong; simp)

lemma bracket_bufs:
  assumes "settled s" "lock_free L s"
  shows "release L (set_buf i f (enter L s)) = Ok () (set_buf i f s)"
    and "release L ((set_buf i f (enter L s))\<lparr>blinks := h\<rparr>) = Ok () ((set_buf i f s)\<lparr>blinks := h\<rparr>)"
proof -
  have u: "(set_buf i f (enter L s))\<lparr>cpus := cpus s, locks := locks s\<rparr> = set_buf i f s"
    "(set_buf i f (enter L s))\<lparr>blinks := h\<rparr>\<lparr>cpus := cpus s, locks := locks s\<rparr> = (set_buf i f s)\<lparr>blinks := h\<rparr>"
    unfolding set_buf_def enter_bio_simps by (subst enter_eq, simp add: locks_idem cpus_idem)+
  show "release L (set_buf i f (enter L s)) = Ok () (set_buf i f s)"
    using assms unfolding u(1) [symmetric] by (intro release_settled) simp_all
  show "release L ((set_buf i f (enter L s))\<lparr>blinks := h\<rparr>) = Ok () ((set_buf i f s)\<lparr>blinks := h\<rparr>)"
    using assms unfolding u(2) [symmetric] by (intro release_settled) simp_all
qed

text \<open>The lock of buffer \<open>i\<close> in the hands of process \<open>p\<close>.\<close>

definition held_by :: "nat \<Rightarrow> nat \<Rightarrow> 'a sleep_st_scheme \<Rightarrow> sleeplock" where
  "held_by p i s = (sleeplocks s (BufSleep i))\<lparr>sl_locked := True, sl_pid := p_pid (procs s p)\<rparr>"

definition holds_buf :: "nat \<Rightarrow> nat \<Rightarrow> 'a sleep_st_scheme \<Rightarrow> bool" where
  "holds_buf p i s \<longleftrightarrow> sl_locked (sleeplocks s (BufSleep i)) \<and> sl_pid (sleeplocks s (BufSleep i)) = p_pid (procs s p)"

lemma cache_list:
  assumes "cache p D H V P s"
  obtains xs where "dlist (blinks s) bhead xs" "set xs = {..<NBUF}" "length xs = 30"
    "links (blinks s) (xs @ [bhead])" "links (blinks s) (bhead # xs)" "bhead \<notin> set xs"
proof -
  obtain xs where x: "dlist (blinks s) bhead xs" "set xs = {..<NBUF}" using assms unfolding cache_def by blast
  have "length xs = 30" using x distinct_card [of xs] by (simp add: dlist_def)
  moreover have "links (blinks s) ([bhead] @ (xs @ [bhead]))" "links (blinks s) ((bhead # xs) @ [bhead])"
    using x(1) by (simp_all add: dlist_def)
  then have "links (blinks s) (xs @ [bhead])" "links (blinks s) (bhead # xs)"
    using links_join [of "blinks s" "[bhead]" "xs @ [bhead]"] links_join [of "blinks s" "bhead # xs" "[bhead]"] by blast+
  ultimately show thesis using x that by (auto simp: dlist_def)
qed

lemma bget_take:
  assumes "quiet p s" "\<not> sl_locked (sleeplocks s (BufSleep i))"
  shows "bnd (release BcacheLock (set_buf i f (enter BcacheLock s)))
      (\<lambda>_ s. bnd (acquire_sleep (BufSleep i) s) (\<lambda>_ s. Ok i s)) =
    Ok i (put_buf i (f (bufs s i)) (held_by p i s) s)"
proof -
  have q: "settled s" "lock_free L s" "c_proc (cpus s (tp s)) = Some p" for L using assms(1) quietD by blast+
  have "acquire_sleep (BufSleep i) (set_buf i f s) =
      Ok () (set_sleeplock (BufSleep i) ((sleeplocks (set_buf i f s) (BufSleep i))
        \<lparr>sl_locked := True, sl_pid := p_pid (procs (set_buf i f s) p)\<rparr>) (set_buf i f s))"
    using q assms(2) by (intro acquire_sleep_free) simp_all
  then show ?thesis
    using q by (simp add: bracket_bufs) (simp add: put_buf_def held_by_def set_buf_def set_sleeplock_def)
qed

lemma bget_cached:
  assumes c: "cache p D H V P s" and i: "is_at s D b i" "i < NBUF" and h: "i \<notin> dom H"
  shows "bget D b s = Ok i (put_buf i ((bufs s i)\<lparr>b_refcnt := b_refcnt (bufs s i) + 1\<rparr>) (held_by p i s) s)"
proof -
  let ?t = "enter BcacheLock s"
  obtain xs where x: "dlist (blinks s) bhead xs" "set xs = {..<NBUF}" "length xs = 30"
    "links (blinks s) (xs @ [bhead])" "bhead \<notin> set xs" using cache_list [OF c] by metis
  obtain j where j: "find (is_at s D b) xs = Some j"
    using i x(2) by (cases "find (is_at s D b) xs") (auto simp: find_None_iff)
  then have "is_at s D b j" "j \<in> set xs" by (auto simp: find_Some_iff)
  then have "j = i" using cacheD(7) [OF c] i x(2) by auto
  have "bget_find 31 D b (hd (xs @ [bhead])) ?t = Ok (find (is_at ?t D b) xs) ?t"
    using x by (intro bget_find_list) simp_all
  moreover have "is_at ?t D b = is_at s D b" by (simp add: is_at_def fun_eq_iff)
  moreover have "l_next (blinks s) bhead = hd (xs @ [bhead])" using dlist_ends(1) [OF x(1)] .
  moreover have "\<not> sl_locked (sleeplocks s (BufSleep i))" using cacheD(5) [OF c i(2)] h by simp
  ultimately show ?thesis
    using j \<open>j = i\<close> bget_take [OF cacheD(1) [OF c]] quietD(2) [OF cacheD(1) [OF c]]
    by (simp add: bget_def acquire_free Let_def)
qed

lemma bget_recycle:
  assumes c: "cache p D H V P s" and n: "\<And>i. i < NBUF \<Longrightarrow> \<not> is_at s D b i" and j: "j < NBUF" "b_refcnt (bufs s j) = 0"
  obtains i where "i < NBUF" "b_refcnt (bufs s i) = 0" "i \<notin> dom H"
    "bget D b s = Ok i (put_buf i ((bufs s i)\<lparr>b_dev := D, b_blockno := b, b_valid := False, b_refcnt := 1\<rparr>)
       (held_by p i s) s)"
proof -
  let ?t = "enter BcacheLock s"
  obtain xs where x: "dlist (blinks s) bhead xs" "set xs = {..<NBUF}" "length xs = 30"
    "links (blinks s) (xs @ [bhead])" "links (blinks s) (bhead # xs)" "bhead \<notin> set xs"
    using cache_list [OF c] by metis
  have n: "find (is_at s D b) xs = None" using n x(2) by (auto simp: find_None_iff)
  have f: "bget_find 31 D b (hd (xs @ [bhead])) ?t = Ok (find (is_at ?t D b) xs) ?t"
    using x by (intro bget_find_list) simp_all
  have e: "is_at ?t D b = is_at s D b" by (simp add: is_at_def fun_eq_iff)
  obtain i where i: "find (\<lambda>i. b_refcnt (bufs s i) = 0) (rev xs) = Some i"
    using j x(2) by (cases "find (\<lambda>i. b_refcnt (bufs s i) = 0) (rev xs)") (auto simp: find_None_iff)
  then have r: "b_refcnt (bufs s i) = 0" "i \<in> set (rev xs)"
    by (auto simp: find_Some_iff) (metis length_rev nth_mem set_rev)
  then have "i < NBUF" using x(2) by simp
  have u: "bget_unused 31 (last (bhead # xs)) ?t = Ok (find (\<lambda>i. b_refcnt (bufs ?t i) = 0) (rev xs)) ?t"
    using x by (intro bget_unused_list) simp_all
  have h: "i \<notin> dom H" using cache_held(4) [OF c, of i] r(1) by auto
  have "\<not> sl_locked (sleeplocks s (BufSleep i))" using cacheD(5) [OF c \<open>i < NBUF\<close>] h by simp
  from bget_take [OF cacheD(1) [OF c] this] have "bget D b s =
      Ok i (put_buf i ((bufs s i)\<lparr>b_dev := D, b_blockno := b, b_valid := False, b_refcnt := 1\<rparr>) (held_by p i s) s)"
    using f u e n i dlist_ends [OF x(1)] quietD(2) [OF cacheD(1) [OF c]] by (simp add: bget_def acquire_free Let_def)
  then show thesis using that \<open>i < NBUF\<close> r h by blast
qed

text \<open>There are buffers left when the pinned blocks and \<open>n\<close> more are cached.\<close>

definition room :: "(u32 \<Rightarrow> nat) \<Rightarrow> nat \<Rightarrow> bool" where
  "room P n \<longleftrightarrow> finite {b. 0 < P b} \<and> card {b. 0 < P b} + n < NBUF"

lemma cache_free_buffer:
  assumes c: "cache p D H V P s" and room: "room P (card (dom H))"
  shows "\<exists>j<NBUF. b_refcnt (bufs s j) = 0"
proof (rule ccontr)
  have P: "finite {b. 0 < P b}" "card {b. 0 < P b} + card (dom H) < NBUF" using room by (simp_all add: room_def)
  assume "\<not> ?thesis"
  then have r: "b_refcnt (bufs s j) \<noteq> 0" if "j < NBUF" for j using that by blast
  have a: "b_dev (bufs s j) = D \<and> 0 < P (b_blockno (bufs s j))" if "j \<in> {..<NBUF} - dom H" for j
    using cacheD(6) [OF c, of j] r [of j] that by (auto simp: buf_ok_def unat_eq_0 split: if_splits)
  have "inj_on (\<lambda>j. b_blockno (bufs s j)) ({..<NBUF} - dom H)"
    using a cacheD(7) [OF c] by (intro inj_onI) (auto simp: is_at_def)
  then have "card ({..<NBUF} - dom H) \<le> card {b. 0 < P b}"
    using a P(1) by (intro card_inj_on_le) auto
  moreover have "dom H \<subseteq> {..<NBUF}" using c unfolding cache_def by blast
  then have "card ({..<NBUF} - dom H) = NBUF - card (dom H)"
    using finite_subset by (subst card_Diff_subset) auto
  ultimately show False using P(2) by linarith
qed

lemma kept_put_buf: "kept s (put_buf i x l s)"
proof -
  have "\<exists>st. procs s i = (procs s i)\<lparr>p_state := st\<rparr>" for i by (rule same_state)
  then show ?thesis by (simp add: kept_def put_buf_def)
qed

lemma is_at_put_buf: "is_at (put_buf i x l s) D b j \<longleftrightarrow> (if j = i then b_dev x = D \<and> b_blockno x = b else is_at s D b j)"
  by (simp add: is_at_def)

lemma cache_take:
  assumes c: "cache p D H V P s" and i: "i < NBUF" "i \<notin> dom H" and b: "b \<notin> ran H"
    and x: "b_dev x = D" "b_blockno x = b" "b_valid x" "b_data x = V b" "unat (b_refcnt x) = P b + 1"
    and o: "is_at s D b i \<or> b_refcnt (bufs s i) = 0 \<and> (\<forall>j<NBUF. \<not> is_at s D b j)"
  shows "cache p D (H(i \<mapsto> b)) V P (put_buf i x (held_by p i s) s)"
proof -
  let ?t = "put_buf i x (held_by p i s) s"
  obtain xs where xs: "dlist (blinks s) bhead xs" "set xs = {..<NBUF}"
    using c unfolding cache_def by blast
  have d: "dom H \<subseteq> {..<NBUF}" using c unfolding cache_def by blast
  show ?thesis
  proof (rule cacheI [where xs = xs])
    show "quiet p ?t" "dlist (blinks ?t) bhead xs" "set xs = {..<NBUF}" "dom (H(i \<mapsto> b)) \<subseteq> {..<NBUF}"
      using cacheD(1) [OF c] xs d i(1) by simp_all
    show "is_at ?t D d j \<and> sl_pid (sleeplocks ?t (BufSleep j)) = p_pid (procs ?t p)"
      if "(H(i \<mapsto> b)) j = Some d" for j d
      using that x cacheD(3,4) [OF c, of j d] by (auto simp: is_at_put_buf held_by_def split: if_splits)
    show "sl_locked (sleeplocks ?t (BufSleep j)) \<longleftrightarrow> j \<in> dom (H(i \<mapsto> b))" if "j < NBUF" for j
      using cacheD(5) [OF c that] by (auto simp: held_by_def)
    show "buf_ok D (j \<in> dom (H(i \<mapsto> b))) V P (bufs ?t j)" if "j < NBUF" for j
      using cacheD(6) [OF c that] x by (auto simp: buf_ok_def)
    show "j = k" if "j < NBUF" "k < NBUF" "is_at ?t D d j" "is_at ?t D d k" for j k d
      using that o x cacheD(7) [OF c] i(1) by (auto simp: is_at_put_buf split: if_splits)
    show "\<exists>j<NBUF. is_at ?t D d j" if P: "0 < P d" for d
    proof -
      obtain j where j: "j < NBUF" "is_at s D d j" using cacheD(8) [OF c P] by blast
      then have "buf_ok D (j \<in> dom H) V P (bufs s j)" using cacheD(6) [OF c] by blast
      then have "j = i \<Longrightarrow> d = b" using j P o by (auto simp: is_at_def buf_ok_def)
      then show ?thesis using j x by (intro exI [of _ j]) (simp add: is_at_put_buf)
    qed
    show "V d = disk ?t d" if "P d = 0" "d \<notin> ran (H(i \<mapsto> b))" for d
      using that i(2) cacheD(9) [OF c, of d] by (auto simp: ran_def split: if_splits)
  qed
qed

text \<open>The cache as a component: its operations on the abstract state.\<close>

lemma bread_cache:
  assumes c: "cache p D H V P s" and b: "b \<notin> ran H" and P: "P b < 2 ^ 31" "P b = 0 \<Longrightarrow> room P (card (dom H))"
  shows "runs (bread D b s) (\<lambda>i t. i \<notin> dom H \<and> cache p D (H(i \<mapsto> b)) V P t \<and> kept s t \<and> disk t = disk s \<and> dwrites t = dwrites s)"
proof -
  have rd: "bread D b s = Ok i (put_buf i (if b_valid x then x else x\<lparr>b_data := disk s b, b_valid := True\<rparr>) l s)"
    if "bget D b s = Ok i (put_buf i x l s)" "b_blockno x = b" for i x l
    using that by (simp add: bread_def virtio_disk_rw_def set_buf_def put_buf_def Let_def)
  show ?thesis
  proof (cases "\<exists>i<NBUF. is_at s D b i")
    case True
    then obtain i where i: "i < NBUF" "is_at s D b i" by blast
    have h: "i \<notin> dom H" using cacheD(3) [OF c, of i] i(2) b by (auto simp: is_at_def ran_def)
    let ?x = "(bufs s i)\<lparr>b_refcnt := b_refcnt (bufs s i) + 1\<rparr>"
    have ok: "buf_ok D False V P (bufs s i)" using cacheD(6) [OF c i(1)] h by simp
    then have "unat (b_refcnt (bufs s i)) = P b" using i(2) by (simp add: buf_ok_def is_at_def)
    then have "unat (b_refcnt (bufs s i) + 1) = P b + 1" using P(1) by (simp add: unat_word_ariths)
    moreover have "b_valid (bufs s i) \<longrightarrow> b_data (bufs s i) = V b" "\<not> b_valid (bufs s i) \<longrightarrow> V b = disk s b"
      using ok i(2) cacheD(9) [OF c _ b] by (auto simp: buf_ok_def is_at_def)
    ultimately have "cache p D (H(i \<mapsto> b)) V P
        (put_buf i (if b_valid ?x then ?x else ?x\<lparr>b_data := disk s b, b_valid := True\<rparr>) (held_by p i s) s)"
      using i by (intro cache_take [OF c i(1) h b]) (auto simp: is_at_def)
    then show ?thesis
      using rd [OF bget_cached [OF c i(2,1) h]] i(2) h by (simp add: is_at_def kept_put_buf)
  next
    case False
    have "P b = 0" using cacheD(8) [OF c, of b] False by auto
    then obtain j where j: "j < NBUF" "b_refcnt (bufs s j) = 0" using cache_free_buffer [OF c] P(2) by blast
    obtain i where i: "i < NBUF" "b_refcnt (bufs s i) = 0" "i \<notin> dom H"
      and g: "bget D b s = Ok i (put_buf i ((bufs s i)\<lparr>b_dev := D, b_blockno := b, b_valid := False, b_refcnt := 1\<rparr>)
        (held_by p i s) s)" using bget_recycle [OF c _ j, of b] False by blast
    have "V b = disk s b" using cacheD(9) [OF c _ b] \<open>P b = 0\<close> by simp
    then have "cache p D (H(i \<mapsto> b)) V P
        (put_buf i ((bufs s i)\<lparr>b_dev := D, b_blockno := b, b_valid := False, b_refcnt := 1, b_data := disk s b, b_valid := True\<rparr>)
          (held_by p i s) s)"
      using i False \<open>P b = 0\<close> by (intro cache_take [OF c i(1,3) b]) auto
    then show ?thesis using rd [OF g] i(3) by (simp add: kept_put_buf)
  qed
qed

lemma bwrite_cache:
  assumes c: "cache p D H V P s" and i: "H i = Some b"
  shows "bwrite i s = Ok () (s\<lparr>disk := (disk s)(b := V b), dwrites := dwrites s @ [(b, V b)]\<rparr>)"
    and "cache p D H V P (s\<lparr>disk := (disk s)(b := V b), dwrites := dwrites s @ [(b, V b)]\<rparr>)"
    and "kept s (s\<lparr>disk := (disk s)(b := V b), dwrites := dwrites s @ [(b, V b)]\<rparr>)"
proof -
  have q: "settled s" "lock_free L s" "c_proc (cpus s (tp s)) = Some p" for L
    using quietD cacheD(1) [OF c] by blast+
  have "holding_sleep (BufSleep i) s = Ok True s"
    using holding_sleep_settled [OF q(1) q(2) q(3), of "BufSleep i"] cacheD(2,4,5) [OF c] i by auto
  then show "bwrite i s = Ok () (s\<lparr>disk := (disk s)(b := V b), dwrites := dwrites s @ [(b, V b)]\<rparr>)"
    using cache_held [OF c i] by (simp add: bwrite_def virtio_disk_rw_def Let_def)
  let ?t = "s\<lparr>disk := (disk s)(b := V b), dwrites := dwrites s @ [(b, V b)]\<rparr>"
  have "is_at ?t D d j = is_at s D d j" "quiet p ?t = quiet p s" for d j
    by (simp add: is_at_def) (intro quiet_cong; simp)
  then show "cache p D H V P ?t" using c unfolding cache_def by simp
  have "\<exists>st. procs s i = (procs s i)\<lparr>p_state := st\<rparr>" for i by (rule same_state)
  then show "kept s ?t" by (simp add: kept_def)
qed

text \<open>Storing into the data of a buffer that is held.\<close>

lemma cache_store:
  assumes c: "cache p D H V P s" and i: "H i = Some b"
  shows "cache p D H (V(b := d)) P (set_buf i (\<lambda>x. x\<lparr>b_data := d\<rparr>) s)"
    and "kept s (set_buf i (\<lambda>x. x\<lparr>b_data := d\<rparr>) s)"
proof -
  let ?t = "set_buf i (\<lambda>x. x\<lparr>b_data := d\<rparr>) s"
  have a: "is_at ?t D e j = is_at s D e j" "quiet p ?t = quiet p s" for e j by (simp_all add: is_at_def)
  have "is_at s D b i" "i < NBUF" using cacheD(2,3) [OF c i] by simp_all
  then have "buf_ok D (j \<in> dom H) (V(b := d)) P (bufs ?t j)" if "j < NBUF" for j
    using cacheD(6) [OF c that] cache_other [OF c i that] cache_held [OF c i]
    by (cases "j = i") (auto simp: buf_ok_def)
  moreover have "(V(b := d)) e = disk ?t e" if "P e = 0" "e \<notin> ran H" for e
    using that i cacheD(9) [OF c, of e] by (auto simp: ran_def)
  ultimately show "cache p D H (V(b := d)) P ?t" using c a unfolding cache_def by simp
  have "\<exists>st. procs s i = (procs s i)\<lparr>p_state := st\<rparr>" for i by (rule same_state)
  then show "kept s ?t" by (simp add: kept_def set_buf_def)
qed

lemma cache_pins:
  assumes c: "cache p D H V P s" and i: "H i = Some b" and n: "unat r = n + 1"
  shows "cache p D H V (P(b := n)) (set_buf i (\<lambda>x. x\<lparr>b_refcnt := r\<rparr>) s)"
proof -
  let ?t = "set_buf i (\<lambda>x. x\<lparr>b_refcnt := r\<rparr>) s"
  have a: "is_at ?t D e j = is_at s D e j" "quiet p ?t = quiet p s" for e j by (simp_all add: is_at_def)
  have b: "is_at s D b i" "i < NBUF" "b_valid (bufs s i)" using cacheD(2,3) [OF c i] cache_held [OF c i] by simp_all
  then have "buf_ok D (j \<in> dom H) V (P(b := n)) (bufs ?t j)" if "j < NBUF" for j
    using cacheD(6) [OF c that] cache_other [OF c i that] n i cache_held [OF c i]
    by (cases "j = i") (auto simp: buf_ok_def)
  moreover have "V e = disk ?t e" if "(P(b := n)) e = 0" "e \<notin> ran H" for e
    using that i cacheD(9) [OF c, of e] by (auto simp: ran_def split: if_splits)
  moreover have "\<exists>j<NBUF. is_at s D e j" if "0 < (P(b := n)) e" for e
    using that b cacheD(8) [OF c, of e] by (auto split: if_splits)
  ultimately show ?thesis using c a unfolding cache_def by simp
qed

lemma kept_set_buf: "kept s (set_buf i f s)"
proof -
  have "\<exists>st. procs s i = (procs s i)\<lparr>p_state := st\<rparr>" for i by (rule same_state)
  then show ?thesis by (simp add: kept_def set_buf_def)
qed

lemma bpin_cache:
  assumes c: "cache p D H V P s" and i: "H i = Some b" and n: "P b < 2 ^ 31"
  shows "runs (bpin i s) (\<lambda>_ t. cache p D H V (P(b := P b + 1)) t \<and> kept s t \<and> disk t = disk s \<and> dwrites t = dwrites s)"
proof -
  have q: "settled s" "lock_free L s" for L using quietD cacheD(1) [OF c] by blast+
  let ?r = "b_refcnt (bufs s i) + 1"
  have "unat ?r = (P b + 1) + 1" using cache_held(4) [OF c i] n by (simp add: unat_word_ariths)
  moreover have "bpin i s = Ok () (set_buf i (\<lambda>x. x\<lparr>b_refcnt := ?r\<rparr>) s)"
    using q by (simp add: bpin_def acquire_free bracket_bufs) (simp add: set_buf_def)
  ultimately show ?thesis using cache_pins [OF c i] by (simp add: kept_set_buf)
qed

lemma bunpin_cache:
  assumes c: "cache p D H V P s" and i: "H i = Some b" and n: "0 < P b"
  shows "runs (bunpin i s) (\<lambda>_ t. cache p D H V (P(b := P b - 1)) t \<and> kept s t \<and> disk t = disk s \<and> dwrites t = dwrites s)"
proof -
  have q: "settled s" "lock_free L s" for L using quietD cacheD(1) [OF c] by blast+
  let ?r = "b_refcnt (bufs s i) - 1"
  have "unat (b_refcnt (bufs s i)) = P b + 1" by (rule cache_held(4) [OF c i])
  then have "unat ?r = (P b - 1) + 1" using n by (simp add: unat_sub_if')
  moreover have "bunpin i s = Ok () (set_buf i (\<lambda>x. x\<lparr>b_refcnt := ?r\<rparr>) s)"
    using q by (simp add: bunpin_def acquire_free bracket_bufs) (simp add: set_buf_def)
  ultimately show ?thesis using cache_pins [OF c i] by (simp add: kept_set_buf)
qed

text \<open>The state \<open>brelse\<close> leaves.\<close>

definition brelse_post :: "nat \<Rightarrow> nat \<Rightarrow> 'a bio_st_scheme \<Rightarrow> 'a bio_st_scheme" where
  "brelse_post p i s =
     (let s = s\<lparr>sleeplocks := (sleeplocks s)(BufSleep i := (sleeplocks s (BufSleep i))\<lparr>sl_locked := False, sl_pid := 0\<rparr>),
            procs := woken {..<NPROC} (Some (ChanBuf i)) (Some p) (procs s)\<rparr>;
          s = set_buf i (\<lambda>x. x\<lparr>b_refcnt := b_refcnt x - 1\<rparr>) s
      in if b_refcnt (bufs s i) = 0 then s\<lparr>blinks := brelse_links i (blinks s)\<rparr> else s)"

lemma brelse_held:
  assumes c: "cache p D H V P s" and i: "H i = Some b"
  shows "brelse i s = Ok () (brelse_post p i s)"
proof -
  have q: "settled s" "lock_free L s" "c_proc (cpus s (tp s)) = Some p" "table_free s" for L
    using quietD cacheD(1) [OF c] by blast+
  let ?s = "s\<lparr>sleeplocks := (sleeplocks s)(BufSleep i := (sleeplocks s (BufSleep i))\<lparr>sl_locked := False, sl_pid := 0\<rparr>),
    procs := woken {..<NPROC} (Some (ChanBuf i)) (Some p) (procs s)\<rparr>"
  have h: "holding_sleep (BufSleep i) s = Ok True s"
    using holding_sleep_settled [OF q(1) q(2) q(3), of "BufSleep i"] cacheD(2,4,5) [OF c] i by auto
  have r: "release_sleep (BufSleep i) s = Ok () ?s"
    using release_sleep_settled [OF q(1) q(2) q(4), of "BufSleep i"] q(3) by simp
  have "settled ?s = settled s" "lock_free L ?s = lock_free L s" for L
    by (intro settled_cong lock_free_cong; simp)+
  then have b: "settled ?s" "lock_free BcacheLock ?s" using q by simp_all
  show ?thesis
    using h r acquire_free [OF b(2)] bracket_bufs [OF b]
    by (simp add: brelse_def brelse_post_def Let_def del: bracket_bufs)
qed

lemma brelse_post_simps [simp]:
  "tp (brelse_post p i s) = tp s" "cpus (brelse_post p i s) = cpus s" "locks (brelse_post p i s) = locks s"
  "disk (brelse_post p i s) = disk s" "dwrites (brelse_post p i s) = dwrites s"
  "bufs (brelse_post p i s) = (bufs s)(i := (bufs s i)\<lparr>b_refcnt := b_refcnt (bufs s i) - 1\<rparr>)"
  "sleeplocks (brelse_post p i s) =
    (sleeplocks s)(BufSleep i := (sleeplocks s (BufSleep i))\<lparr>sl_locked := False, sl_pid := 0\<rparr>)"
  "procs (brelse_post p i s) = woken {..<NPROC} (Some (ChanBuf i)) (Some p) (procs s)"
  "blinks (brelse_post p i s) = (if b_refcnt (bufs s i) = 1 then brelse_links i (blinks s) else blinks s)"
  by (auto simp: brelse_post_def Let_def)

lemma brelse_post_kept: "kept s (brelse_post p i s)"
proof -
  have "\<exists>st. procs (brelse_post p i s) j = (procs s j)\<lparr>p_state := st\<rparr>" for j
    using same_state by (auto simp: woken_def)
  then show ?thesis by (simp add: kept_def) (simp add: brelse_post_def Let_def set_buf_def)
qed

lemma brelse_post_cache:
  assumes c: "cache p D H V P s" and i: "H i = Some b" and d: "P b = 0 \<Longrightarrow> V b = disk s b"
  shows "cache p D (H(i := None)) V P (brelse_post p i s)"
proof -
  let ?t = "brelse_post p i s"
  have b: "i < NBUF" "is_at s D b i" using cacheD(2,3) [OF c i] by simp_all
  have at: "is_at ?t D e j = is_at s D e j" for e j by (simp add: is_at_def)
  obtain xs where xs: "dlist (blinks s) bhead xs" "set xs = {..<NBUF}"
    using c unfolding cache_def by blast
  have "\<exists>ys. dlist (blinks ?t) bhead ys \<and> set ys = {..<NBUF}"
  proof (cases "b_refcnt (bufs s i) = 1")
    case True
    have "i \<in> set xs" "distinct xs" using xs b(1) by (auto simp: dlist_def)
    then have "set (i # remove1 i xs) = {..<NBUF}" using xs(2) b(1) by (auto simp: set_remove1_eq)
    then show ?thesis using True brelse_links_front [OF xs(1) \<open>i \<in> set xs\<close>] by auto
  qed (use xs in auto)
  then obtain ys where ys: "dlist (blinks ?t) bhead ys" "set ys = {..<NBUF}" by blast
  show ?thesis
  proof (rule cacheI [where xs = ys])
    show "quiet p ?t" using cacheD(1) [OF c] quiet_cong [of ?t s p] by simp
    show "dlist (blinks ?t) bhead ys" "set ys = {..<NBUF}" by (fact ys)+
    show "dom (H(i := None)) \<subseteq> {..<NBUF}" using cacheD(2) [OF c] by auto
    show "is_at ?t D e j \<and> sl_pid (sleeplocks ?t (BufSleep j)) = p_pid (procs ?t p)"
      if "(H(i := None)) j = Some e" for j e
      using that cacheD(3,4) [OF c, of j e] by (auto simp: at woken_def split: if_splits)
    show "sl_locked (sleeplocks ?t (BufSleep j)) \<longleftrightarrow> j \<in> dom (H(i := None))" if "j < NBUF" for j
      using cacheD(5) [OF c that] by auto
    show "buf_ok D (j \<in> dom (H(i := None))) V P (bufs ?t j)" if "j < NBUF" for j
      using cacheD(6) [OF c that] cache_held [OF c i] by (cases "j = i") (auto simp: buf_ok_def unat_sub_if')
    show "j = k" if "j < NBUF" "k < NBUF" "is_at ?t D e j" "is_at ?t D e k" for j k e
      using that cacheD(7) [OF c] by (auto simp: at)
    show "\<exists>j<NBUF. is_at ?t D e j" if "0 < P e" for e
      using cacheD(8) [OF c that] by (simp add: at)
    show "V e = disk ?t e" if "P e = 0" "e \<notin> ran (H(i := None))" for e
    proof (cases "e = b")
      case False
      have "(H(i := None)) a = Some e" if "H a = Some e" for a using that i False by auto
      then have "e \<notin> ran H" using that(2) by (auto simp: ran_def)
      then show ?thesis using cacheD(9) [OF c that(1)] by simp
    qed (use d that in simp)
  qed
qed

lemma brelse_cache:
  assumes "cache p D H V P s" "H i = Some b" "P b = 0 \<Longrightarrow> V b = disk s b"
  shows "runs (brelse i s) (\<lambda>_ t. cache p D (H(i := None)) V P t \<and> kept s t \<and> disk t = disk s \<and> dwrites t = dwrites s)"
  using brelse_post_cache [OF assms] by (simp add: brelse_held [OF assms(1,2)] brelse_post_kept)

text \<open>After \<open>binit\<close> the cache is empty: every block is as on the disk.\<close>

lemma binit_state:
  "bufs (binit s) = bufs s" "disk (binit s) = disk s" "procs (binit s) = procs s" "tp (binit s) = tp s" "cpus (binit s) = cpus s"
  "i < NBUF \<Longrightarrow> \<not> sl_locked (sleeplocks (binit s) (BufSleep i))"
  "lock_free L s \<Longrightarrow> lock_free L (binit s)"
proof -
  have f: "bufs (fold binit_push xs t) = bufs t" "disk (fold binit_push xs t) = disk t" "procs (fold binit_push xs t) = procs t"
    "tp (fold binit_push xs t) = tp t" "cpus (fold binit_push xs t) = cpus t"
    "sl_locked (sleeplocks (fold binit_push xs t) (BufSleep i)) \<longleftrightarrow> i \<notin> set xs \<and> sl_locked (sleeplocks t (BufSleep i))"
    "lock_free L t \<Longrightarrow> lock_free L (fold binit_push xs t)"
    for xs and t :: "'a bio_st_scheme" and i L
    by (induction xs arbitrary: t)
      (auto simp: binit_push_def init_sleeplock_def initlock_def set_lock_def Let_def lock_free_def set_sleeplock_def)
  show "bufs (binit s) = bufs s" "disk (binit s) = disk s" "procs (binit s) = procs s" "tp (binit s) = tp s"
    "cpus (binit s) = cpus s" "i < NBUF \<Longrightarrow> \<not> sl_locked (sleeplocks (binit s) (BufSleep i))"
    by (simp_all add: binit_def f Let_def initlock_def set_lock_def del: upt_rec_numeral)
  show "lock_free L s \<Longrightarrow> lock_free L (binit s)"
    unfolding binit_def Let_def by (rule f(7)) (simp add: initlock_def set_lock_def lock_free_def)
qed

lemma binit_cache:
  assumes "quiet p s" "\<And>i. i < NBUF \<Longrightarrow> b_refcnt (bufs s i) = 0 \<and> b_dev (bufs s i) \<noteq> D"
  shows "cache p D Map.empty (disk s) (\<lambda>_. 0) (binit s)"
proof (rule cacheI)
  show "quiet p (binit s)"
    using assms(1) settled_cong [of "binit s" s] by (simp add: quiet_def binit_state)
  show "dlist (blinks (binit s)) bhead (rev [0..<NBUF])" by (rule binit_links)
qed (use assms(2) in \<open>auto simp: binit_state buf_ok_def is_at_def\<close>)

section \<open>The cache as an interface\<close>

text \<open>
  What the layers above use: \<open>R H V P d w\<close> says that the blocks \<open>H\<close> are held, \<open>V\<close> is what
  readers see, \<open>P\<close> counts pins, \<open>d\<close> is the disk and \<open>w\<close> the writes it has completed.
\<close>

locale block_cache =
  fixes R :: "(nat \<rightharpoonup> u32) \<Rightarrow> (u32 \<Rightarrow> u8 list) \<Rightarrow> (u32 \<Rightarrow> nat) \<Rightarrow> disk \<Rightarrow> (u32 \<times> u8 list) list \<Rightarrow> 's \<Rightarrow> bool"
    and rd :: "u32 \<Rightarrow> 's \<Rightarrow> (nat, 's) outcome"
    and wr rel pin unpin :: "nat \<Rightarrow> 's \<Rightarrow> (unit, 's) outcome"
    and get :: "nat \<Rightarrow> 's \<Rightarrow> u8 list"
    and put :: "nat \<Rightarrow> u8 list \<Rightarrow> 's \<Rightarrow> 's"
  assumes rd: "R H V P d w s \<Longrightarrow> b \<notin> ran H \<Longrightarrow> P b < 2 ^ 31 \<Longrightarrow>
      (P b = 0 \<Longrightarrow> room P (card (dom H))) \<Longrightarrow> runs (rd b s) (\<lambda>i t. i \<notin> dom H \<and> R (H(i \<mapsto> b)) V P d w t)"
    and wr: "R H V P d w s \<Longrightarrow> H i = Some b \<Longrightarrow>
      runs (wr i s) (\<lambda>_ t. R H V P (d(b := V b)) (w @ [(b, V b)]) t)"
    and rel: "R H V P d w s \<Longrightarrow> H i = Some b \<Longrightarrow> (P b = 0 \<Longrightarrow> V b = d b) \<Longrightarrow>
      runs (rel i s) (\<lambda>_ t. R (H(i := None)) V P d w t)"
    and pin: "R H V P d w s \<Longrightarrow> H i = Some b \<Longrightarrow> P b < 2 ^ 31 \<Longrightarrow>
      runs (pin i s) (\<lambda>_ t. R H V (P(b := P b + 1)) d w t)"
    and unpin: "R H V P d w s \<Longrightarrow> H i = Some b \<Longrightarrow> 0 < P b \<Longrightarrow>
      runs (unpin i s) (\<lambda>_ t. R H V (P(b := P b - 1)) d w t)"
    and get: "R H V P d w s \<Longrightarrow> H i = Some b \<Longrightarrow> get i s = V b"
    and put: "R H V P d w s \<Longrightarrow> H i = Some b \<Longrightarrow> R H (V(b := x)) P d w (put i x s)"
    and clean: "R Map.empty V P d w s \<Longrightarrow> P b = 0 \<Longrightarrow> V b = d b"
begin

text \<open>Giving back the only block that is held.\<close>

lemma rel_last:
  assumes "R [i \<mapsto> b] V P d w s" "P b = 0 \<Longrightarrow> V b = d b"
  shows "runs (rel i s) (\<lambda>_ t. R Map.empty V P d w t)"
  using rel [of "[i \<mapsto> b]" V P d w s i b] assms by simp

text \<open>Reading a block and giving it back.\<close>

lemma read_block:
  assumes "R Map.empty V P d w s" "P b < 2 ^ 31" "P b = 0 \<Longrightarrow> room P 0"
  shows "runs (bnd (rd b s) (\<lambda>i s. let x = get i s in bnd (rel i s) (\<lambda>_ s. Ok x s)))
    (\<lambda>x t. x = V b \<and> R Map.empty V P d w t)"
proof (rule runs_bndI [OF rd [OF assms(1), of b]])
  fix i t assume t: "i \<notin> dom Map.empty \<and> R [i \<mapsto> b] V P d w t"
  then have g: "get i t = V b" by (intro get [where H = "[i \<mapsto> b]"]) auto
  have "runs (rel i t) (\<lambda>_ t. R Map.empty V P d w t)"
    using t clean [OF assms(1)] by (intro rel_last [where b = b]) auto
  then show "runs (let x = get i t in bnd (rel i t) (\<lambda>_ s. Ok x s)) (\<lambda>x t. x = V b \<and> R Map.empty V P d w t)"
    by (simp add: g)
qed (use assms in auto)

text \<open>Overwriting a block with new contents and writing it through.\<close>

lemma rewrite_block:
  assumes "R Map.empty V P d w s" "P b < 2 ^ 31" "P b = 0 \<Longrightarrow> room P 0"
  shows "runs (bnd (rd b s) (\<lambda>i s. bnd (wr i (put i (f (get i s)) s)) (\<lambda>_ s. rel i s)))
    (\<lambda>_ t. R Map.empty (V(b := f (V b))) P (d(b := f (V b))) (w @ [(b, f (V b))]) t)"
proof (rule runs_bndI [OF rd [OF assms(1), of b]])
  fix i t assume t: "i \<notin> dom Map.empty \<and> R [i \<mapsto> b] V P d w t"
  then have g: "get i t = V b" by (intro get [where H = "[i \<mapsto> b]"]) auto
  have p: "R [i \<mapsto> b] (V(b := f (V b))) P d w (put i (f (V b)) t)" using t by (intro put) auto
  show "runs (bnd (wr i (put i (f (get i t)) t)) (\<lambda>_ s. rel i s))
      (\<lambda>_ t. R Map.empty (V(b := f (V b))) P (d(b := f (V b))) (w @ [(b, f (V b))]) t)"
    unfolding g
  proof (rule runs_bndI [OF wr [OF p, of i b]])
    fix u assume "R [i \<mapsto> b] (V(b := f (V b))) P (d(b := (V(b := f (V b))) b)) (w @ [(b, (V(b := f (V b))) b)]) u"
    then show "runs (rel i u) (\<lambda>_ t. R Map.empty (V(b := f (V b))) P (d(b := f (V b))) (w @ [(b, f (V b))]) t)"
      by (intro rel_last [where b = b]) auto
  qed simp
qed (use assms in auto)

text \<open>Two buffers at a time, given back in either order.\<close>

lemma read_two:
  assumes "R Map.empty V P d w s" "a \<noteq> b" "P a < 2 ^ 31" "P b < 2 ^ 31" "P a = 0 \<Longrightarrow> room P 0" "P b = 0 \<Longrightarrow> room P 1"
  shows "runs (rd a s) (\<lambda>x t. R [x \<mapsto> a] V P d w t \<and>
    runs (rd b t) (\<lambda>y u. x \<noteq> y \<and> R [x \<mapsto> a, y \<mapsto> b] V P d w u))"
proof (rule runs_mono [OF rd [OF assms(1), of a]])
  fix x t assume t: "x \<notin> dom Map.empty \<and> R [x \<mapsto> a] V P d w t"
  have "runs (rd b t) (\<lambda>y u. y \<notin> dom [x \<mapsto> a] \<and> R ([x \<mapsto> a](y \<mapsto> b)) V P d w u)"
    using t assms by (intro rd) auto
  then show "R [x \<mapsto> a] V P d w t \<and> runs (rd b t) (\<lambda>y u. x \<noteq> y \<and> R [x \<mapsto> a, y \<mapsto> b] V P d w u)"
    using t by (auto elim: runs_mono)
qed (use assms in auto)

lemma rel_two:
  assumes "R [x \<mapsto> a, y \<mapsto> b] V P d w s" "x \<noteq> y" "P a = 0 \<Longrightarrow> V a = d a" "P b = 0 \<Longrightarrow> V b = d b"
  shows "runs (rel x s) (\<lambda>_ t. runs (rel y t) (\<lambda>_ t. R Map.empty V P d w t))"
    and "runs (rel y s) (\<lambda>_ t. runs (rel x t) (\<lambda>_ t. R Map.empty V P d w t))"
proof -
  have h: "[x \<mapsto> a, y \<mapsto> b](y := None) = [x \<mapsto> a]" "[x \<mapsto> a, y \<mapsto> b](x := None) = [y \<mapsto> b]"
    using assms(2) by (auto simp: fun_eq_iff)
  have "runs (rel x s) (\<lambda>_ t. R [y \<mapsto> b] V P d w t)" using rel [OF assms(1), of x a] assms(2,3) h(2) by simp
  then show "runs (rel x s) (\<lambda>_ t. runs (rel y t) (\<lambda>_ t. R Map.empty V P d w t))"
    by (rule runs_mono) (rule rel_last, use assms(4) in auto)
  have "runs (rel y s) (\<lambda>_ t. R [x \<mapsto> a] V P d w t)" using rel [OF assms(1), of y b] assms(4) h(1) by simp
  then show "runs (rel y s) (\<lambda>_ t. runs (rel x t) (\<lambda>_ t. R Map.empty V P d w t))"
    by (rule runs_mono) (rule rel_last, use assms(3) in auto)
qed

text \<open>Copying the contents of one buffer that is held to another, and writing that one through.\<close>

lemma copy_held:
  assumes "R H V P d w s" "H x = Some a" "H y = Some b"
  shows "runs (wr x (put x (get y s) s)) (\<lambda>_ t. R H (V(a := V b)) P (d(a := V b)) (w @ [(a, V b)]) t)"
  unfolding get [OF assms(1,3)] using wr [OF put [OF assms(1,2), of "V b"] assms(2)] by simp

end

text \<open>The buffer cache of the kernel provides the interface.\<close>

definition crep :: "nat \<Rightarrow> u32 \<Rightarrow> 'a bio_st_scheme \<Rightarrow> (nat \<rightharpoonup> u32) \<Rightarrow> (u32 \<Rightarrow> u8 list) \<Rightarrow> (u32 \<Rightarrow> nat) \<Rightarrow> disk \<Rightarrow>
    (u32 \<times> u8 list) list \<Rightarrow> 'a bio_st_scheme \<Rightarrow> bool" where
  "crep p D s0 H V P d w s \<longleftrightarrow> cache p D H V P s \<and> kept s0 s \<and> disk s = d \<and> dwrites s = w"

interpretation bc: block_cache "crep p D s0" "bread D" bwrite brelse bpin bunpin "\<lambda>i s. b_data (bufs s i)"
  "\<lambda>i d. set_buf i (\<lambda>x. x\<lparr>b_data := d\<rparr>)" for p D s0
proof
  fix H V P d w s b i
  assume "crep p D s0 H V P d w s"
  then have c: "cache p D H V P s" and k: "kept s0 s" "disk s = d" "dwrites s = w" by (simp_all add: crep_def)
  show "runs (bread D b s) (\<lambda>i t. i \<notin> dom H \<and> crep p D s0 (H(i \<mapsto> b)) V P d w t)"
    if "b \<notin> ran H" "P b < 2 ^ 31" "P b = 0 \<Longrightarrow> room P (card (dom H))"
    using runs_mono [OF bread_cache [OF c that]] k kept_trans [OF k(1)] by (simp add: crep_def)
  assume i: "H i = Some b"
  show "runs (bwrite i s) (\<lambda>_ t. crep p D s0 H V P (d(b := V b)) (w @ [(b, V b)]) t)"
    using bwrite_cache [OF c i] k kept_trans [OF k(1)] by (simp add: crep_def)
  show "runs (brelse i s) (\<lambda>_ t. crep p D s0 (H(i := None)) V P d w t)" if "P b = 0 \<Longrightarrow> V b = d b"
    using runs_mono [OF brelse_cache [OF c i]] that k kept_trans [OF k(1)] by (simp add: crep_def)
  show "runs (bpin i s) (\<lambda>_ t. crep p D s0 H V (P(b := P b + 1)) d w t)" if "P b < 2 ^ 31"
    using runs_mono [OF bpin_cache [OF c i]] that k kept_trans [OF k(1)] by (simp add: crep_def)
  show "runs (bunpin i s) (\<lambda>_ t. crep p D s0 H V (P(b := P b - 1)) d w t)" if "0 < P b"
    using runs_mono [OF bunpin_cache [OF c i]] that k kept_trans [OF k(1)] by (simp add: crep_def)
  show "b_data (bufs s i) = V b" by (rule cache_held(3) [OF c i])
  show "crep p D s0 H (V(b := x)) P d w (set_buf i (\<lambda>y. y\<lparr>b_data := x\<rparr>) s)" for x
    using cache_store [OF c i] k kept_trans [OF k(1)] by (simp add: crep_def)
next
  fix V P d w s b
  assume "crep p D s0 Map.empty V P d w s" "P b = 0"
  then show "V b = d b" using cacheD(9) by (fastforce simp: crep_def)
qed

section \<open>Properties\<close>

text \<open>
  C23. Writing a block through the cache, \<open>bread\<close>, a store into the buffer, \<open>bwrite\<close>,
  \<open>brelse\<close>, from any state of the cache in which the process holds no buffer and not all buffers
  are pinned: it returns, the disk has the new contents, the invariant of the cache holds again, and
  a later \<open>bread\<close> of any block finds the new contents for this block and the old ones for every
  other, whether the block is still cached or its buffer was recycled.
\<close>

theorem bio_write_read:
  assumes "cache p D Map.empty V P s" "room P 0" "\<And>c. P c < 2 ^ 31"
  shows "runs (bnd (bread D b s) (\<lambda>i s. bnd (bwrite i (set_buf i (\<lambda>x. x\<lparr>b_data := d\<rparr>) s)) (\<lambda>_ s. brelse i s)))
    (\<lambda>_ t. cache p D Map.empty (V(b := d)) P t \<and> disk t = (disk s)(b := d) \<and> kept s t \<and>
      (\<forall>c. runs (bnd (bread D c t) (\<lambda>i s. let x = b_data (bufs s i) in bnd (brelse i s) (\<lambda>_ s. Ok x s)))
        (\<lambda>x u. x = (V(b := d)) c \<and> disk u = disk t)))"
proof -
  have "crep p D s Map.empty V P (disk s) (dwrites s) s" using assms(1) by (simp add: crep_def)
  note w = bc.rewrite_block [OF this assms(3,2), of b "\<lambda>_. d"]
  show ?thesis
  proof (rule runs_mono [OF w], intro conjI allI)
    fix r t c
    assume t: "crep p D s Map.empty (V(b := d)) P ((disk s)(b := d)) (dwrites s @ [(b, d)]) t"
    then show "cache p D Map.empty (V(b := d)) P t" "disk t = (disk s)(b := d)" "kept s t" by (simp_all add: crep_def)
    show "runs (bnd (bread D c t) (\<lambda>i s. let x = b_data (bufs s i) in bnd (brelse i s) (\<lambda>_ s. Ok x s)))
        (\<lambda>x u. x = (V(b := d)) c \<and> disk u = disk t)"
      by (rule runs_mono [OF bc.read_block [OF t assms(3,2), of c]]) (use t in \<open>simp add: crep_def\<close>)
  qed
qed

text \<open>A machine at boot: process 0 runs, every buffer is zero.\<close>

definition blank_buf :: buf where
  "blank_buf = \<lparr>b_valid = False, b_disk = False, b_dev = 0, b_blockno = 0, b_refcnt = 0, b_data = replicate BSIZE 0\<rparr>"

definition bio_machine :: "disk \<Rightarrow> bio_st" where
  "bio_machine d = mem_st.extend (small_machine\<lparr>cpus := (\<lambda>_. \<lparr>c_proc = Some 0, c_noff = 0, c_intena = False, c_sie = False\<rparr>)\<rparr>)
     \<lparr>kernel_pagetable = 0, max_pa = 0, satp = 0, bufs = (\<lambda>_. blank_buf), blinks = \<lparr>l_next = (\<lambda>_. 0), l_prev = (\<lambda>_. 0)\<rparr>,
       disk = d, dwrites = []\<rparr>"

lemma bio_machine_cache: "cache 0 1 Map.empty d (\<lambda>_. 0) (binit (bio_machine d))"
proof -
  have "quiet 0 (bio_machine d)"
    by (simp add: quiet_def settled_def cpu_ok_def machine_defs lock_free_def bio_machine_def small_machine_def mem_st.defs)
  moreover have "disk (bio_machine d) = d" "bufs (bio_machine d) = (\<lambda>_. blank_buf)"
    by (simp_all add: bio_machine_def mem_st.defs)
  ultimately show ?thesis using binit_cache [of 0 "bio_machine d" 1] by (simp add: blank_buf_def)
qed

theorem bio_write_read_witness:
  "runs (bnd (bread 1 7 (binit (bio_machine (\<lambda>_. [])))) (\<lambda>i s. bnd (bwrite i (set_buf i (\<lambda>x. x\<lparr>b_data := [1, 2]\<rparr>) s)) (\<lambda>_ s. brelse i s)))
    (\<lambda>_ t. disk t 7 = [1, 2] \<and> disk t 8 = [])"
proof -
  have "room (\<lambda>_. 0) 0" by (simp add: room_def)
  then show ?thesis
    by (rule runs_mono [OF bio_write_read [OF bio_machine_cache, where b = 7 and d = "[1, 2]"]])
      (simp, simp add: binit_state(2), simp add: bio_machine_def mem_st.defs)
qed

end
