(* ===== verification/Log.thy ===== *)
theory Log
  imports Bio
begin

text \<open>
  The redo log of \<open>kernel/log.c\<close>. \<open>struct log\<close> is the extension \<open>log_st\<close> of the state of
  the buffer cache. C \<open>int\<close> fields are integers; where one becomes a block number it is converted
  to 32 bits. The header block is read and written as its bytes, little endian. Waiting in
  \<open>begin_op\<close> is the outcome \<open>Block\<close>: the caller sleeps, and runs again from the test of the loop.
\<close>

section \<open>State\<close>

record superblock =
  sb_magic :: u32
  sb_size :: u32
  sb_nblocks :: u32
  sb_ninodes :: u32
  sb_nlog :: u32
  sb_logstart :: u32
  sb_inodestart :: u32
  sb_bmapstart :: u32

record log_st = bio_st +
  lg_start :: int
  lg_size :: int
  lg_outstanding :: int
  lg_committing :: bool
  lg_dev :: u32
  lh_n :: int
  lh_block :: "nat \<Rightarrow> u32"

text \<open>Words at byte offset \<open>i\<close> of a block.\<close>

definition get32 :: "nat \<Rightarrow> u8 list \<Rightarrow> u32" where
  "get32 i xs = word_of_bytes (take 4 (drop i xs))"

definition put32 :: "nat \<Rightarrow> u32 \<Rightarrow> u8 list \<Rightarrow> u8 list" where
  "put32 i v xs = take i xs @ bytes_of_word 4 v @ drop (i + 4) xs"

definition buf_data :: "nat \<Rightarrow> 'a bio_st_scheme \<Rightarrow> u8 list" where
  "buf_data i s = b_data (bufs s i)"

definition set_data :: "nat \<Rightarrow> u8 list \<Rightarrow> 'a bio_st_scheme \<Rightarrow> 'a bio_st_scheme" where
  "set_data i d = set_buf i (\<lambda>x. x\<lparr>b_data := d\<rparr>)"

section \<open>Recovery and commit\<close>

definition log_block :: "int \<Rightarrow> nat \<Rightarrow> u32" where
  "log_block start tail = word_of_int (start + int tail + 1)"

text \<open>The loop of \<open>install_trans\<close> over the values of \<open>tail\<close>; \<open>lh.block\<close> has \<open>LOGSIZE\<close> entries.\<close>

fun install_trans_loop :: "bool \<Rightarrow> nat list \<Rightarrow> 'a log_st_scheme \<Rightarrow> (unit, 'a log_st_scheme) outcome" where
  "install_trans_loop recovering [] s = Ok () s"
| "install_trans_loop recovering (tail # ts) s =
     bnd (bread (lg_dev s) (log_block (lg_start s) tail) s) (\<lambda>lbuf s.
     if LOGSIZE \<le> tail then Undef ''lh.block''
     else bnd (bread (lg_dev s) (lh_block s tail) s) (\<lambda>dbuf s.
     bnd (bwrite dbuf (set_data dbuf (buf_data lbuf s) s)) (\<lambda>_ s.
     bnd (if recovering then Ok () s else bunpin dbuf s) (\<lambda>_ s.
     bnd (brelse lbuf s) (\<lambda>_ s.
     bnd (brelse dbuf s) (\<lambda>_ s.
     install_trans_loop recovering ts s))))))"

definition install_trans :: "bool \<Rightarrow> 'a log_st_scheme \<Rightarrow> (unit, 'a log_st_scheme) outcome" where
  "install_trans recovering s = install_trans_loop recovering [0..<nat (lh_n s)] s"

definition read_blocks :: "nat \<Rightarrow> u8 list \<Rightarrow> (nat \<Rightarrow> u32) \<Rightarrow> nat \<Rightarrow> u32" where
  "read_blocks n d bs i = (if i < n then get32 (4 + 4 * i) d else bs i)"

definition read_head :: "'a log_st_scheme \<Rightarrow> (unit, 'a log_st_scheme) outcome" where
  "read_head s =
     bnd (bread (lg_dev s) (word_of_int (lg_start s)) s) (\<lambda>buf s.
     let d = buf_data buf s;
         s = s\<lparr>lh_n := sint (get32 0 d)\<rparr>
     in if int LOGSIZE < lh_n s then Undef ''lh.block''
        else brelse buf (s\<lparr>lh_block := read_blocks (nat (lh_n s)) d (lh_block s)\<rparr>))"

fun write_blocks :: "nat list \<Rightarrow> (nat \<Rightarrow> u32) \<Rightarrow> u8 list \<Rightarrow> u8 list" where
  "write_blocks [] bs d = d"
| "write_blocks (i # is) bs d = write_blocks is bs (put32 (4 + 4 * i) (bs i) d)"

definition write_head :: "'a log_st_scheme \<Rightarrow> (unit, 'a log_st_scheme) outcome" where
  "write_head s =
     bnd (bread (lg_dev s) (word_of_int (lg_start s)) s) (\<lambda>buf s.
     let s = set_data buf (put32 0 (word_of_int (lh_n s)) (buf_data buf s)) s
     in if int LOGSIZE < lh_n s then Undef ''lh.block''
        else let s = set_data buf (write_blocks [0..<nat (lh_n s)] (lh_block s) (buf_data buf s)) s
             in bnd (bwrite buf s) (\<lambda>_ s. brelse buf s))"

definition recover_from_log :: "'a log_st_scheme \<Rightarrow> (unit, 'a log_st_scheme) outcome" where
  "recover_from_log s =
     bnd (read_head s) (\<lambda>_ s.
     bnd (install_trans True s) (\<lambda>_ s.
     write_head (s\<lparr>lh_n := 0\<rparr>)))"

definition sizeof_logheader :: nat where "sizeof_logheader = 4 + 4 * LOGSIZE"

definition initlog :: "u32 \<Rightarrow> superblock \<Rightarrow> 'a log_st_scheme \<Rightarrow> (unit, 'a log_st_scheme) outcome" where
  "initlog dev sb s =
     (if sizeof_logheader \<ge> BSIZE then Panic ''initlog: too big logheader''
      else let s = initlock LogLock ''log'' s
           in recover_from_log (s\<lparr>lg_start := sint (sb_logstart sb), lg_size := sint (sb_nlog sb), lg_dev := dev\<rparr>))"

fun write_log_loop :: "nat list \<Rightarrow> 'a log_st_scheme \<Rightarrow> (unit, 'a log_st_scheme) outcome" where
  "write_log_loop [] s = Ok () s"
| "write_log_loop (tail # ts) s =
     bnd (bread (lg_dev s) (log_block (lg_start s) tail) s) (\<lambda>tobuf s.
     if LOGSIZE \<le> tail then Undef ''lh.block''
     else bnd (bread (lg_dev s) (lh_block s tail) s) (\<lambda>fro s.
     bnd (bwrite tobuf (set_data tobuf (buf_data fro s) s)) (\<lambda>_ s.
     bnd (brelse fro s) (\<lambda>_ s.
     bnd (brelse tobuf s) (\<lambda>_ s.
     write_log_loop ts s)))))"

definition write_log :: "'a log_st_scheme \<Rightarrow> (unit, 'a log_st_scheme) outcome" where
  "write_log s = write_log_loop [0..<nat (lh_n s)] s"

definition commit :: "'a log_st_scheme \<Rightarrow> (unit, 'a log_st_scheme) outcome" where
  "commit s =
     (if 0 < lh_n s then
        bnd (write_log s) (\<lambda>_ s.
        bnd (write_head s) (\<lambda>_ s.
        bnd (install_trans False s) (\<lambda>_ s.
        write_head (s\<lparr>lh_n := 0\<rparr>))))
      else Ok () s)"

section \<open>Transactions\<close>

definition begin_op :: "'a log_st_scheme \<Rightarrow> (unit, 'a log_st_scheme) outcome" where
  "begin_op s =
     bnd (acquire LogLock s) (\<lambda>_ s.
     if lg_committing s then Block
     else if lh_n s + (lg_outstanding s + 1) * int MAXOPBLOCKS > int LOGSIZE then Block
     else release LogLock (s\<lparr>lg_outstanding := lg_outstanding s + 1\<rparr>))"

definition end_op :: "'a log_st_scheme \<Rightarrow> (unit, 'a log_st_scheme) outcome" where
  "end_op s =
     bnd (acquire LogLock s) (\<lambda>_ s.
     let s = s\<lparr>lg_outstanding := lg_outstanding s - 1\<rparr>
     in if lg_committing s then Panic ''log.committing''
        else let do_commit = lg_outstanding s = 0
        in bnd (if do_commit then Ok () (s\<lparr>lg_committing := True\<rparr>) else wakeup (Some ChanLog) s) (\<lambda>_ s.
           bnd (release LogLock s) (\<lambda>_ s.
           if do_commit then
             bnd (commit s) (\<lambda>_ s.
             bnd (acquire LogLock s) (\<lambda>_ s.
             bnd (wakeup (Some ChanLog) (s\<lparr>lg_committing := False\<rparr>)) (\<lambda>_ s.
             release LogLock s)))
           else Ok () s)))"

text \<open>The index at which \<open>log_write\<close> records the block: its old entry, or the end of the list.\<close>

definition log_slot :: "u32 \<Rightarrow> 'a log_st_scheme \<Rightarrow> nat" where
  "log_slot blockno s =
     (case find (\<lambda>i. lh_block s i = blockno) [0..<nat (lh_n s)] of Some i \<Rightarrow> i | None \<Rightarrow> nat (lh_n s))"

definition log_write :: "nat \<Rightarrow> 'a log_st_scheme \<Rightarrow> (unit, 'a log_st_scheme) outcome" where
  "log_write b s =
     bnd (acquire LogLock s) (\<lambda>_ s.
     if lh_n s \<ge> int LOGSIZE \<or> lh_n s \<ge> lg_size s - 1 then Panic ''too big a transaction''
     else if lg_outstanding s < 1 then Panic ''log_write outside of trans''
     else let i = log_slot (b_blockno (bufs s b)) s;
              s = s\<lparr>lh_block := (lh_block s)(i := b_blockno (bufs s b))\<rparr>
          in bnd (if int i = lh_n s
                  then bnd (bpin b s) (\<lambda>_ s. Ok () (s\<lparr>lh_n := lh_n s + 1\<rparr>))
                  else Ok () s) (\<lambda>_ s.
             release LogLock s))"

section \<open>Blocks as bytes\<close>

lemma length_put32 [simp]: "i + 4 \<le> length xs \<Longrightarrow> length (put32 i v xs) = length xs"
  by (simp add: put32_def)

lemma get32_put32 [simp]: "i + 4 \<le> length xs \<Longrightarrow> get32 i (put32 i v xs) = v"
  by (simp add: get32_def put32_def)

lemma get32_put32_other:
  assumes "i + 4 \<le> length xs" "j + 4 \<le> i \<or> i + 4 \<le> j"
  shows "get32 j (put32 i v xs) = get32 j xs"
proof -
  have "take 4 (drop j (put32 i v xs)) = take 4 (drop j xs)"
  proof (cases "j + 4 \<le> i")
    case True
    then show ?thesis using assms(1) by (simp add: put32_def take_drop min_def)
  next
    case False
    then obtain k where "j = i + 4 + k" using assms(2) le_Suc_ex by blast
    then show ?thesis using assms(1) by (simp add: put32_def add.commute add.left_commute)
  qed
  then show ?thesis by (simp add: get32_def)
qed

lemma length_write_blocks [simp]: "\<forall>i\<in>set is. 8 + 4 * i \<le> length d \<Longrightarrow> length (write_blocks is bs d) = length d"
  by (induction "is" arbitrary: d) simp_all

lemma get32_write_blocks:
  assumes "\<forall>i\<in>set is. 8 + 4 * i \<le> length d"
  shows "get32 0 (write_blocks is bs d) = get32 0 d"
    and "get32 (4 + 4 * j) (write_blocks is bs d) = (if j \<in> set is then bs j else get32 (4 + 4 * j) d)"
  using assms
proof (induction "is" arbitrary: d)
  case (Cons i "is")
  {
    case 1
    then show ?case using Cons.IH(1) [of "put32 (4 + 4 * i) (bs i) d"] by (simp add: get32_put32_other)
  next
    case 2
    have "get32 (4 + 4 * j) (put32 (4 + 4 * i) (bs i) d) = (if j = i then bs i else get32 (4 + 4 * j) d)"
      using 2 get32_put32_other [of "4 + 4 * i" d "4 + 4 * j" "bs i"] by (auto simp: not_less neq_iff)
    then show ?case using 2 Cons.IH(2) [of "put32 (4 + 4 * i) (bs i) d"] by simp
  }
qed simp_all

section \<open>What the loops write\<close>

text \<open>A list of block writes, applied in order.\<close>

definition upds :: "('b \<times> 'v) list \<Rightarrow> ('b \<Rightarrow> 'v) \<Rightarrow> 'b \<Rightarrow> 'v" where
  "upds ws f = fold (\<lambda>(b, x) f. f(b := x)) ws f"

lemma upds_simps [simp]:
  "upds [] f = f" "upds ((b, x) # ws) f = upds ws (f(b := x))" "upds (vs @ ws) f = upds ws (upds vs f)"
  by (simp_all add: upds_def)

lemma upds_other: "b \<notin> fst ` set ws \<Longrightarrow> upds ws f b = f b"
  by (induction ws arbitrary: f) auto

lemma upds_map:
  "inj_on g (set is) \<Longrightarrow> distinct is \<Longrightarrow> i \<in> set is \<Longrightarrow> upds (map (\<lambda>i. (g i, h i)) is) f (g i) = h i"
proof (induction "is" arbitrary: f)
  case (Cons j "is")
  show ?case
  proof (cases "i = j")
    case True
    have "g j \<notin> g ` set is" using Cons.prems by (simp add: inj_on_insert)
    then show ?thesis using True by (auto intro!: upds_other [THEN trans])
  qed (use Cons in \<open>simp add: inj_on_insert\<close>)
qed simp

definition log_area :: "int \<Rightarrow> u32 set" where
  "log_area start = insert (word_of_int start) (log_block start ` {..<LOGSIZE})"

definition log_layout :: "int \<Rightarrow> nat \<Rightarrow> (nat \<Rightarrow> u32) \<Rightarrow> bool" where
  "log_layout start n bs \<longleftrightarrow> 0 \<le> start \<and> start + 31 < 2 ^ 31 \<and> n \<le> LOGSIZE \<and> inj_on bs {..<n} \<and>
     bs ` {..<n} \<inter> log_area start = {}"

lemma uint_log_block: "0 \<le> start \<Longrightarrow> start + 31 < 2 ^ 31 \<Longrightarrow> i < 30 \<Longrightarrow> uint (log_block start i) = start + int i + 1"
  unfolding log_block_def uint_word_of_int by simp

lemma log_layoutD:
  assumes "log_layout start n bs"
  shows "i < n \<Longrightarrow> j < LOGSIZE \<Longrightarrow> bs i \<noteq> log_block start j" "i < n \<Longrightarrow> bs i \<noteq> word_of_int start"
    "i < LOGSIZE \<Longrightarrow> log_block start i \<noteq> word_of_int start"
    "i < LOGSIZE \<Longrightarrow> j < LOGSIZE \<Longrightarrow> log_block start i = log_block start j \<longleftrightarrow> i = j"
    "i < n \<Longrightarrow> j < n \<Longrightarrow> bs i = bs j \<longleftrightarrow> i = j" "i < n \<Longrightarrow> i < LOGSIZE"
proof -
  have u: "uint (log_block start i) = start + int i + 1" if "i < LOGSIZE" for i
    using assms that by (intro uint_log_block) (simp_all add: log_layout_def)
  have d: "bs i \<notin> log_area start" if "i < n" for i using assms that unfolding log_layout_def by blast
  show "i < n \<Longrightarrow> j < LOGSIZE \<Longrightarrow> bs i \<noteq> log_block start j" "i < n \<Longrightarrow> bs i \<noteq> word_of_int start"
    using d [of i] by (auto simp: log_area_def)
  have h: "uint (word_of_int start :: u32) = start" using assms by (simp add: log_layout_def uint_word_of_int)
  show "i < LOGSIZE \<Longrightarrow> log_block start i \<noteq> word_of_int start" using u [of i] h by auto
  show "log_block start i = log_block start j \<longleftrightarrow> i = j" if "i < LOGSIZE" "j < LOGSIZE"
  proof
    assume "log_block start i = log_block start j"
    then have "uint (log_block start i) = uint (log_block start j)" by (rule arg_cong)
    then have "start + int i + 1 = start + int j + 1" unfolding u [OF that(1)] u [OF that(2)] .
    then show "i = j" by simp
  qed simp
qed (use assms in \<open>auto simp: log_layout_def inj_on_def\<close>)

lemma log_home: "log_layout start n bs \<Longrightarrow> i < n \<Longrightarrow> bs i \<notin> log_area start"
  unfolding log_layout_def by blast

lemma kept_log:
  assumes "kept s t"
  shows "lg_start t = lg_start s" "lg_size t = lg_size s" "lg_outstanding t = lg_outstanding s"
    "lg_committing t = lg_committing s" "lg_dev t = lg_dev s" "lh_n t = lh_n s" "lh_block t = lh_block s"
proof -
  have e: "t\<lparr>procs := procs s, sleeplocks := sleeplocks s, bufs := bufs s, blinks := blinks s, disk := disk s,
       dwrites := dwrites s\<rparr> = s" using assms by (simp add: kept_def)
  show "lg_start t = lg_start s" using arg_cong [OF e, of lg_start] by simp
  show "lg_size t = lg_size s" using arg_cong [OF e, of lg_size] by simp
  show "lg_outstanding t = lg_outstanding s" using arg_cong [OF e, of lg_outstanding] by simp
  show "lg_committing t = lg_committing s" using arg_cong [OF e, of lg_committing] by simp
  show "lg_dev t = lg_dev s" using arg_cong [OF e, of lg_dev] by simp
  show "lh_n t = lh_n s" using arg_cong [OF e, of lh_n] by simp
  show "lh_block t = lh_block s" using arg_cong [OF e, of lh_block] by simp
qed

lemma crep_kept: "crep p D s0 H V P d w s \<Longrightarrow> kept s0 s"
  by (simp add: crep_def)

lemmas crep_log = kept_log [OF crep_kept]

definition log_writes :: "int \<Rightarrow> (nat \<Rightarrow> u32) \<Rightarrow> (u32 \<Rightarrow> u8 list) \<Rightarrow> nat list \<Rightarrow> (u32 \<times> u8 list) list" where
  "log_writes start bs V ts = map (\<lambda>i. (log_block start i, V (bs i))) ts"

definition home_writes :: "int \<Rightarrow> (nat \<Rightarrow> u32) \<Rightarrow> (u32 \<Rightarrow> u8 list) \<Rightarrow> nat list \<Rightarrow> (u32 \<times> u8 list) list" where
  "home_writes start bs V ts = map (\<lambda>i. (bs i, V (log_block start i))) ts"

lemma write_log_loop_spec:
  assumes "crep p D s0 Map.empty V P d w s" "D = lg_dev s0" "log_layout (lg_start s0) n (lh_block s0)" "set ts \<subseteq> {..<n}"
    "\<And>i. i < n \<Longrightarrow> P (lh_block s0 i) = 1" "\<And>b. b \<in> log_area (lg_start s0) \<Longrightarrow> P b = 0" "room P 0"
  shows "runs (write_log_loop ts s) (\<lambda>_ t. crep p D s0 Map.empty (upds (log_writes (lg_start s0) (lh_block s0) V ts) V) P
    (upds (log_writes (lg_start s0) (lh_block s0) V ts) d) (w @ log_writes (lg_start s0) (lh_block s0) V ts) t)"
  using assms(1,4)
proof (induction ts arbitrary: V d w s)
  case Nil
  then show ?case by (simp add: log_writes_def)
next
  case (Cons i ts)
  let ?a = "log_block (lg_start s0) i" and ?b = "lh_block s0 i"
  let ?V = "V(?a := V ?b)" and ?d = "d(?a := V ?b)"
  have i: "i < n" "i < LOGSIZE" using Cons.prems(2) log_layoutD(6) [OF assms(3)] by auto
  have ab: "?a \<noteq> ?b" using log_layoutD(1) [OF assms(3) i] by simp
  have P: "P ?a = 0" "P ?b = 1" using assms(5,6) i by (auto simp: log_area_def)
  have two: "runs (bread D ?a s) (\<lambda>x t. crep p D s0 [x \<mapsto> ?a] V P d w t \<and>
      runs (bread D ?b t) (\<lambda>y u. x \<noteq> y \<and> crep p D s0 [x \<mapsto> ?a, y \<mapsto> ?b] V P d w u))"
    by (rule bc.read_two [OF Cons.prems(1) ab]) (use P assms(7) in simp_all)
  have step: "runs (bwrite x (set_data x (buf_data y u) u)) (\<lambda>_ t. runs (brelse y t) (\<lambda>_ t. runs (brelse x t)
      (\<lambda>_ t. crep p D s0 Map.empty ?V P ?d (w @ [(?a, V ?b)]) t)))"
    if "x \<noteq> y" "crep p D s0 [x \<mapsto> ?a, y \<mapsto> ?b] V P d w u" for x y u
    unfolding set_data_def buf_data_def
    by (rule runs_mono [OF bc.copy_held [OF that(2)]], use that(1) in simp, simp)
      (rule bc.rel_two(2), assumption, use that(1) P in simp_all)
  have nxt: "log_writes (lg_start s0) (lh_block s0) ?V ts = log_writes (lg_start s0) (lh_block s0) V ts"
    using log_layoutD(1) [OF assms(3) _ i(2)] Cons.prems(2) by (auto simp: log_writes_def)
  let ?Q = "\<lambda>_ u. crep p D s0 Map.empty (upds (log_writes (lg_start s0) (lh_block s0) V (i # ts)) V) P
    (upds (log_writes (lg_start s0) (lh_block s0) V (i # ts)) d) (w @ log_writes (lg_start s0) (lh_block s0) V (i # ts)) u"
  have loop: "runs (write_log_loop ts t) ?Q" if "crep p D s0 Map.empty ?V P ?d (w @ [(?a, V ?b)]) t" for t
    using Cons.IH [OF that] Cons.prems(2) unfolding nxt by (simp add: log_writes_def fun_upd_def)
  have "runs (bwrite x (set_data x (buf_data y u) u)) (\<lambda>_ t. runs (brelse y t) (\<lambda>_ t. runs (brelse x t)
      (\<lambda>_ t. runs (write_log_loop ts t) ?Q)))"
    if "x \<noteq> y \<and> crep p D s0 [x \<mapsto> ?a, y \<mapsto> ?b] V P d w u" for x y u
    by (rule runs_mono [OF step [of x y u]], use that in blast, use that in blast)
      (erule runs_mono, erule runs_mono, rule loop)
  then have fin: "runs (bread D ?b t) (\<lambda>y u. runs (bwrite x (set_data x (buf_data y u) u)) (\<lambda>_ t. runs (brelse y t)
      (\<lambda>_ t. runs (brelse x t) (\<lambda>_ t. runs (write_log_loop ts t) ?Q))))"
    if "runs (bread D ?b t) (\<lambda>y u. x \<noteq> y \<and> crep p D s0 [x \<mapsto> ?a, y \<mapsto> ?b] V P d w u)" for x t
    by (rule runs_mono [OF that])
  have "runs (bread D ?a s) (\<lambda>x t. runs (bread (lg_dev t) (lh_block t i) t) (\<lambda>y u.
      runs (bwrite x (set_data x (buf_data y u) u)) (\<lambda>_ t. runs (brelse y t)
        (\<lambda>_ t. runs (brelse x t) (\<lambda>_ t. runs (write_log_loop ts t) ?Q)))))"
  proof (rule runs_mono [OF two])
    fix x t
    assume t: "crep p D s0 [x \<mapsto> ?a] V P d w t \<and> runs (bread D ?b t) (\<lambda>y u. x \<noteq> y \<and> crep p D s0 [x \<mapsto> ?a, y \<mapsto> ?b] V P d w u)"
    then have "lg_dev t = D" "lh_block t i = ?b" using crep_log [of p D s0 "[x \<mapsto> ?a]" V P d w t] assms(2) by simp_all
    then show "runs (bread (lg_dev t) (lh_block t i) t) (\<lambda>y u. runs (bwrite x (set_data x (buf_data y u) u))
        (\<lambda>_ t. runs (brelse y t) (\<lambda>_ t. runs (brelse x t) (\<lambda>_ t. runs (write_log_loop ts t) ?Q))))"
      using fin t by simp
  qed
  then show ?case using i(2) assms(2) crep_log [OF Cons.prems(1)] by simp
qed

text \<open>
  \<open>install_trans\<close>, for recovery (no block is pinned) and for a commit (each logged block has
  the pin of its \<open>log_write\<close>, which is dropped).
\<close>

definition unpinned :: "bool \<Rightarrow> (nat \<Rightarrow> u32) \<Rightarrow> nat list \<Rightarrow> (u32 \<Rightarrow> nat) \<Rightarrow> u32 \<Rightarrow> nat" where
  "unpinned recovering bs ts P = (if recovering then P else fold (\<lambda>i P. P(bs i := P (bs i) - 1)) ts P)"

lemma unpinned_step:
  "unpinned r bs (i # ts) P = unpinned r bs ts (if r then P else P(bs i := P (bs i) - 1))"
  by (simp add: unpinned_def)

lemma room_mono: "room P n \<Longrightarrow> (\<And>b. P' b \<le> P b) \<Longrightarrow> room P' n"
proof -
  assume r: "room P n" and l: "\<And>b. P' b \<le> P b"
  have "{b. 0 < P' b} \<subseteq> {b. 0 < P b}" using l by (auto intro: less_le_trans)
  then show "room P' n" using r card_mono finite_subset unfolding room_def by (metis add_le_mono1 le_less_trans)
qed

lemma install_trans_loop_spec:
  assumes "crep p D s0 Map.empty V P d w s" "D = lg_dev s0" "log_layout (lg_start s0) n (lh_block s0)" "set ts \<subseteq> {..<n}"
    "distinct ts" "\<And>i. i \<in> set ts \<Longrightarrow> P (lh_block s0 i) = of_bool (\<not> r)"
    "\<And>b. b \<in> log_area (lg_start s0) \<Longrightarrow> P b = 0" "room P (of_bool r)"
  shows "runs (install_trans_loop r ts s) (\<lambda>_ t. crep p D s0 Map.empty (upds (home_writes (lg_start s0) (lh_block s0) V ts) V)
    (unpinned r (lh_block s0) ts P) (upds (home_writes (lg_start s0) (lh_block s0) V ts) d)
    (w @ home_writes (lg_start s0) (lh_block s0) V ts) t)"
  using assms(1,4-)
proof (induction ts arbitrary: V P d w s)
  case Nil
  then show ?case by (simp add: home_writes_def unpinned_def)
next
  case (Cons i ts)
  let ?a = "log_block (lg_start s0) i" and ?b = "lh_block s0 i"
  let ?V = "V(?b := V ?a)" and ?d = "d(?b := V ?a)" and ?w = "w @ [(?b, V ?a)]" and ?P = "if r then P else P(?b := P ?b - 1)"
  have i: "i < n" "i < LOGSIZE" using Cons.prems(2) log_layoutD(6) [OF assms(3)] by auto
  have ab: "?a \<noteq> ?b" using log_layoutD(1) [OF assms(3) i] by simp
  have P: "P ?a = 0" "P ?b = of_bool (\<not> r)" using Cons.prems(4,5) i by (auto simp: log_area_def)
  have va: "V ?a = d ?a" using bc.clean [OF Cons.prems(1) P(1)] .
  have r0: "room P 0" using Cons.prems(6) by (simp add: room_def)
  have P': "?P ?b = 0" "?P ?a = 0" "\<And>b. ?P b \<le> P b" using P ab by auto
  have two: "runs (bread D ?a s) (\<lambda>x t. crep p D s0 [x \<mapsto> ?a] V P d w t \<and>
      runs (bread D ?b t) (\<lambda>y u. x \<noteq> y \<and> crep p D s0 [x \<mapsto> ?a, y \<mapsto> ?b] V P d w u))"
    by (rule bc.read_two [OF Cons.prems(1) ab]) (use P Cons.prems(6) r0 in \<open>auto split: if_splits\<close>)
  let ?Q = "\<lambda>_ u. crep p D s0 Map.empty (upds (home_writes (lg_start s0) (lh_block s0) V (i # ts)) V)
    (unpinned r (lh_block s0) (i # ts) P) (upds (home_writes (lg_start s0) (lh_block s0) V (i # ts)) d)
    (w @ home_writes (lg_start s0) (lh_block s0) V (i # ts)) u"
  have nxt: "home_writes (lg_start s0) (lh_block s0) ?V ts = home_writes (lg_start s0) (lh_block s0) V ts"
    using log_layoutD(1) [OF assms(3) i(1)] log_layoutD(6) [OF assms(3)] Cons.prems(2) by (fastforce simp: home_writes_def)
  have loop: "runs (install_trans_loop r ts t) ?Q" if "crep p D s0 Map.empty ?V ?P ?d ?w t" for t
  proof -
    have "?P (lh_block s0 j) = of_bool (\<not> r)" if "j \<in> set ts" for j
      using that Cons.prems(2,3,4) log_layoutD(5) [OF assms(3), of j i] i(1) by auto
    moreover have "?P b = 0" if "b \<in> log_area (lg_start s0)" for b using Cons.prems(5) [OF that] P'(3) [of b] by simp
    ultimately show ?thesis
      using Cons.IH [OF that] Cons.prems(2,3) room_mono [OF Cons.prems(6) P'(3)] unfolding nxt
      by (simp add: home_writes_def unpinned_step fun_upd_def)
  qed
  have step: "runs (bwrite y (set_data y (buf_data x u) u)) (\<lambda>_ t. runs (if r then Ok () t else bunpin y t)
      (\<lambda>_ t. runs (brelse x t) (\<lambda>_ t. runs (brelse y t) (\<lambda>_ t. runs (install_trans_loop r ts t) ?Q))))"
    if "x \<noteq> y \<and> crep p D s0 [x \<mapsto> ?a, y \<mapsto> ?b] V P d w u" for x y u
  proof -
    have w: "runs (bwrite y (set_data y (buf_data x u) u)) (\<lambda>_ t. crep p D s0 [x \<mapsto> ?a, y \<mapsto> ?b] ?V P ?d ?w t)"
      unfolding set_data_def buf_data_def by (rule bc.copy_held [where H = "[x \<mapsto> ?a, y \<mapsto> ?b]"]) (use that in auto)
    have u: "runs (if r then Ok () t else bunpin y t) (\<lambda>_ t. crep p D s0 [x \<mapsto> ?a, y \<mapsto> ?b] ?V ?P ?d ?w t)"
      if "crep p D s0 [x \<mapsto> ?a, y \<mapsto> ?b] ?V P ?d ?w t" for t
      using that bc.unpin [OF that, of y ?b] P(2) by auto
    have l: "runs (brelse x t) (\<lambda>_ t. runs (brelse y t) (\<lambda>_ t. runs (install_trans_loop r ts t) ?Q))"
      if "crep p D s0 [x \<mapsto> ?a, y \<mapsto> ?b] ?V ?P ?d ?w t" for t
      by (rule runs_mono [OF bc.rel_two(1) [OF that]]) (use \<open>x \<noteq> y \<and> _\<close> ab va in simp, use ab va in simp, simp, erule runs_mono, rule loop)
    show ?thesis by (rule runs_mono [OF w], rule runs_mono [OF u], assumption, rule l)
  qed
  have "runs (bread D ?a s) (\<lambda>x t. runs (bread (lg_dev t) (lh_block t i) t) (\<lambda>y u.
      runs (bwrite y (set_data y (buf_data x u) u)) (\<lambda>_ t. runs (if r then Ok () t else bunpin y t)
        (\<lambda>_ t. runs (brelse x t) (\<lambda>_ t. runs (brelse y t) (\<lambda>_ t. runs (install_trans_loop r ts t) ?Q))))))"
  proof (rule runs_mono [OF two])
    fix x t
    assume t: "crep p D s0 [x \<mapsto> ?a] V P d w t \<and> runs (bread D ?b t) (\<lambda>y u. x \<noteq> y \<and> crep p D s0 [x \<mapsto> ?a, y \<mapsto> ?b] V P d w u)"
    then have "lg_dev t = D" "lh_block t i = ?b" using crep_log [of p D s0 "[x \<mapsto> ?a]" V P d w t] assms(2) by simp_all
    then show "runs (bread (lg_dev t) (lh_block t i) t) (\<lambda>y u. runs (bwrite y (set_data y (buf_data x u) u))
        (\<lambda>_ t. runs (if r then Ok () t else bunpin y t)
        (\<lambda>_ t. runs (brelse x t) (\<lambda>_ t. runs (brelse y t) (\<lambda>_ t. runs (install_trans_loop r ts t) ?Q)))))"
      using runs_mono [OF conjunct2 [OF t] step] by simp
  qed
  then show ?case using i(2) assms(2) crep_log [OF Cons.prems(1)] by simp
qed

section \<open>The header\<close>

definition head_bytes :: "nat \<Rightarrow> (nat \<Rightarrow> u32) \<Rightarrow> u8 list \<Rightarrow> u8 list" where
  "head_bytes n bs d = write_blocks [0..<n] bs (put32 0 (of_nat n) d)"

lemma head_bytes_read:
  assumes "length d = BSIZE" "n \<le> LOGSIZE"
  shows "length (head_bytes n bs d) = BSIZE" "sint (get32 0 (head_bytes n bs d)) = int n"
    "i < n \<Longrightarrow> get32 (4 + 4 * i) (head_bytes n bs d) = bs i"
proof -
  have "sint (of_nat n :: u32) = int n" using assms(2) by (simp add: signed_of_nat signed_take_bit_int_eq_self_iff)
  then show "length (head_bytes n bs d) = BSIZE" "sint (get32 0 (head_bytes n bs d)) = int n"
    "i < n \<Longrightarrow> get32 (4 + 4 * i) (head_bytes n bs d) = bs i"
    using assms by (simp_all add: head_bytes_def get32_write_blocks)
qed

lemma set_data_simps [simp]:
  "buf_data i (set_data i d s) = d" "set_data i x (set_data i y s) = set_data i x s"
  "lh_n (set_data i d s) = lh_n s" "lh_block (set_data i d s) = lh_block s"
  by (simp_all add: buf_data_def set_data_def set_buf_def)

lemma crep_set_head:
  assumes "crep p D s0 H V P d w s"
  shows "crep p D (s0\<lparr>lh_n := x\<rparr>) H V P d w (s\<lparr>lh_n := x\<rparr>)" "crep p D (s0\<lparr>lh_block := bs\<rparr>) H V P d w (s\<lparr>lh_block := bs\<rparr>)"
proof -
  have c: "cache p D H V P s" and k: "kept s0 s" "disk s = d" "dwrites s = w" using assms by (simp_all add: crep_def)
  have "quiet p (s\<lparr>lh_n := x\<rparr>) = quiet p s" "quiet p (s\<lparr>lh_block := bs\<rparr>) = quiet p s" by (intro quiet_cong; simp)+
  then have "cache p D H V P (s\<lparr>lh_n := x\<rparr>)" "cache p D H V P (s\<lparr>lh_block := bs\<rparr>)"
    using c by (simp_all add: cache_def is_at_def)
  moreover have e: "s\<lparr>procs := procs s0, sleeplocks := sleeplocks s0, bufs := bufs s0, blinks := blinks s0, disk := disk s0,
       dwrites := dwrites s0\<rparr> = s0" and q: "\<forall>i. \<exists>st. procs s i = (procs s0 i)\<lparr>p_state := st\<rparr>"
      "\<forall>i. sleeplocks s (InodeSleep i) = sleeplocks s0 (InodeSleep i)"
    using k(1) by (simp_all add: kept_def)
  have m: "s\<lparr>lh_n := x, procs := a, sleeplocks := b, bufs := c, blinks := e, disk := f, dwrites := g\<rparr> =
      s\<lparr>procs := a, sleeplocks := b, bufs := c, blinks := e, disk := f, dwrites := g, lh_n := x\<rparr>"
    "s\<lparr>lh_block := bs, procs := a, sleeplocks := b, bufs := c, blinks := e, disk := f, dwrites := g\<rparr> =
      s\<lparr>procs := a, sleeplocks := b, bufs := c, blinks := e, disk := f, dwrites := g, lh_block := bs\<rparr>" for a b c e f g
    by (rule log_st.equality; simp)+
  have "kept (s0\<lparr>lh_n := x\<rparr>) (s\<lparr>lh_n := x\<rparr>)" "kept (s0\<lparr>lh_block := bs\<rparr>) (s\<lparr>lh_block := bs\<rparr>)"
    using arg_cong [OF e, of "lh_n_update (\<lambda>_. x)"] arg_cong [OF e, of "lh_block_update (\<lambda>_. bs)"] q
    by (simp_all add: kept_def m)
  ultimately show "crep p D (s0\<lparr>lh_n := x\<rparr>) H V P d w (s\<lparr>lh_n := x\<rparr>)"
    "crep p D (s0\<lparr>lh_block := bs\<rparr>) H V P d w (s\<lparr>lh_block := bs\<rparr>)"
    using k by (simp_all add: crep_def)
qed

lemma write_head_spec:
  assumes c: "crep p D s0 Map.empty V P d w s" and D: "D = lg_dev s0" and n: "lh_n s0 = int n" "n \<le> LOGSIZE"
    and P: "P h = 0" "room P 0" and h: "h = word_of_int (lg_start s0)"
  shows "runs (write_head s) (\<lambda>_ t. crep p D s0 Map.empty (V(h := head_bytes n (lh_block s0) (V h))) P
    (d(h := head_bytes n (lh_block s0) (V h))) (w @ [(h, head_bytes n (lh_block s0) (V h))]) t)"
proof -
  have "runs (bread D h s) (\<lambda>i t. crep p D s0 [i \<mapsto> h] V P d w t)"
    by (rule runs_mono [OF bc.rd [OF c, of h]]) (use P in simp_all)
  then obtain i t where b: "bread D h s = Ok i t" and t: "crep p D s0 [i \<mapsto> h] V P d w t" by (auto simp: runs_iff)
  have "runs (bnd (bread D h s) (\<lambda>i s. bnd (bwrite i (set_data i (head_bytes n (lh_block s0) (buf_data i s)) s)) (\<lambda>_ s. brelse i s)))
    (\<lambda>_ t. crep p D s0 Map.empty (V(h := head_bytes n (lh_block s0) (V h))) P
    (d(h := head_bytes n (lh_block s0) (V h))) (w @ [(h, head_bytes n (lh_block s0) (V h))]) t)"
    unfolding set_data_def buf_data_def by (rule bc.rewrite_block [OF c]) (use P in simp_all)
  then show ?thesis
    using b crep_log [OF c] crep_log [OF t] n D h by (simp add: write_head_def Let_def head_bytes_def)
qed

lemma read_head_spec:
  assumes c: "crep p D s0 Map.empty V P d w s" and D: "D = lg_dev s0"
    and n: "sint (get32 0 (V h)) = n" "n \<le> int LOGSIZE"
    and P: "P h = 0" "room P 0" and h: "h = word_of_int (lg_start s0)"
  shows "runs (read_head s) (\<lambda>_ t. crep p D (s0\<lparr>lh_n := n, lh_block := read_blocks (nat n) (V h) (lh_block s0)\<rparr>) Map.empty V P d w t)"
proof -
  have "runs (bread D h s) (\<lambda>i t. crep p D s0 [i \<mapsto> h] V P d w t)"
    by (rule runs_mono [OF bc.rd [OF c, of h]]) (use P in simp_all)
  then obtain i t where b: "bread D h s = Ok i t" and t: "crep p D s0 [i \<mapsto> h] V P d w t" by (auto simp: runs_iff)
  let ?t = "t\<lparr>lh_n := n, lh_block := read_blocks (nat n) (V h) (lh_block s0)\<rparr>"
  have "buf_data i t = V h" unfolding buf_data_def by (rule bc.get [OF t]) simp
  moreover have "runs (brelse i ?t) (\<lambda>_ t. crep p D (s0\<lparr>lh_n := n, lh_block := read_blocks (nat n) (V h) (lh_block s0)\<rparr>)
      Map.empty V P d w t)"
    by (rule bc.rel_last [OF crep_set_head(2) [OF crep_set_head(1) [OF t]]]) (rule bc.clean [OF c])
  ultimately show ?thesis
    using b crep_log [OF c] crep_log [OF t] n D h by (simp add: read_head_def Let_def)
qed

section \<open>Commit and recovery as lists of writes\<close>

definition commit_writes :: "int \<Rightarrow> nat \<Rightarrow> (nat \<Rightarrow> u32) \<Rightarrow> (u32 \<Rightarrow> u8 list) \<Rightarrow> (u32 \<times> u8 list) list" where
  "commit_writes start n bs V =
     log_writes start bs V [0..<n] @ (word_of_int start, head_bytes n bs (V (word_of_int start))) #
     map (\<lambda>i. (bs i, V (bs i))) [0..<n] @
     [(word_of_int start, head_bytes 0 bs (head_bytes n bs (V (word_of_int start))))]"

definition pinned :: "nat \<Rightarrow> (nat \<Rightarrow> u32) \<Rightarrow> u32 \<Rightarrow> nat" where
  "pinned n bs b = of_bool (b \<in> bs ` {..<n})"

lemma pinned_at: "i < n \<Longrightarrow> pinned n bs (bs i) = 1"
  by (auto simp: pinned_def)

lemma unpinned_pinned: "unpinned False bs [0..<n] (pinned n bs) = (\<lambda>_. 0)"
proof -
  have "(\<And>b. P b \<le> 1) \<Longrightarrow> fold (\<lambda>i P. P(bs i := P (bs i) - 1)) ts P b = (if b \<in> bs ` set ts then 0 else P b)"
    for ts :: "nat list" and P :: "u32 \<Rightarrow> nat" and b
    by (induction ts arbitrary: P) (auto simp: diff_le_self le_diff_conv)
  from this [of "pinned n bs"] show ?thesis
    by (auto simp: fun_eq_iff unpinned_def pinned_def atLeast0LessThan)
qed

lemma room_pinned: "n + k < NBUF \<Longrightarrow> room (pinned n bs) k"
proof -
  have "{b. 0 < pinned n bs b} = bs ` {..<n}" by (auto simp: pinned_def)
  then show "n + k < NBUF \<Longrightarrow> room (pinned n bs) k"
    using card_image_le [of "{..<n}" bs] by (simp add: room_def)
qed

lemma upds_log_writes:
  assumes "log_layout start n bs"
  shows "b \<notin> log_block start ` {..<n} \<Longrightarrow> upds (log_writes start bs V [0..<n]) f b = f b"
    and "i < n \<Longrightarrow> upds (log_writes start bs V [0..<n]) f (log_block start i) = V (bs i)"
proof -
  show "b \<notin> log_block start ` {..<n} \<Longrightarrow> upds (log_writes start bs V [0..<n]) f b = f b"
    by (rule upds_other) (auto simp: log_writes_def)
  have "inj_on (log_block start) (set [0..<n])"
    using log_layoutD(4,6) [OF assms] by (auto simp: inj_on_def)
  then show "i < n \<Longrightarrow> upds (log_writes start bs V [0..<n]) f (log_block start i) = V (bs i)"
    using upds_map [of "log_block start" "[0..<n]" i "\<lambda>i. V (bs i)" f] by (simp add: log_writes_def)
qed

lemma commit_spec:
  assumes c: "cache p D Map.empty V (pinned n bs) s" and D: "D = lg_dev s"
    and n: "lh_n s = int n" "0 < n" "n < NBUF" and l: "log_layout start n bs" and s: "start = lg_start s" "bs = lh_block s"
  shows "runs (commit s) (\<lambda>_ t. crep p D (s\<lparr>lh_n := 0\<rparr>) Map.empty (upds (commit_writes start n bs V) V) (\<lambda>_. 0)
    (upds (commit_writes start n bs V) (disk s)) (dwrites s @ commit_writes start n bs V) t)"
proof -
  let ?h = "word_of_int start :: u32" and ?W = "log_writes start bs V [0..<n]"
  let ?V1 = "upds ?W V" and ?H = "head_bytes n bs (V ?h)"
  let ?V2 = "?V1(?h := ?H)" and ?B = "map (\<lambda>i. (bs i, V (bs i))) [0..<n]"
  let ?V3 = "upds ?B ?V2" and ?d3 = "upds ?B ((upds ?W (disk s))(?h := ?H))"
  have c0: "crep p D s Map.empty V (pinned n bs) (disk s) (dwrites s) s" using c by (simp add: crep_def)
  have pin: "pinned n bs b = 0" if "b \<in> log_area start" for b using l that by (auto simp: log_layout_def pinned_def)
  have hd: "?h \<notin> log_block start ` {..<n}" "?h \<in> log_area start" "?h \<notin> bs ` {..<n}"
    using log_layoutD(2,3,6) [OF l] by (force simp: log_area_def)+
  have w1: "runs (write_log s) (\<lambda>_ t. crep p D s Map.empty ?V1 (pinned n bs) (upds ?W (disk s)) (dwrites s @ ?W) t)"
    using write_log_loop_spec [OF c0 D, of n "[0..<n]"] l pin n s room_pinned [of n 0 bs]
    by (simp add: write_log_def pinned_def atLeast0LessThan)
  have w2: "runs (write_head t) (\<lambda>_ t. crep p D s Map.empty ?V2 (pinned n bs) ((upds ?W (disk s))(?h := ?H)) (dwrites s @ ?W @ [(?h, ?H)]) t)"
    if "crep p D s Map.empty ?V1 (pinned n bs) (upds ?W (disk s)) (dwrites s @ ?W) t" for t
    using write_head_spec [OF that D n(1), of ?h] n(3) s room_pinned [of n 0 bs] pin hd upds_log_writes(1) [OF l hd(1)] by simp
  have "home_writes start bs ?V2 [0..<n] = ?B"
    using log_layoutD(3,6) [OF l] upds_log_writes(2) [OF l] by (auto simp: home_writes_def)
  then have w3: "runs (install_trans False t) (\<lambda>_ t. crep p D s Map.empty ?V3 (\<lambda>_. 0) ?d3 (dwrites s @ ?W @ [(?h, ?H)] @ ?B) t)"
    if "crep p D s Map.empty ?V2 (pinned n bs) ((upds ?W (disk s))(?h := ?H)) (dwrites s @ ?W @ [(?h, ?H)]) t" for t
    using install_trans_loop_spec [OF that D, of n "[0..<n]" False] l pin n s room_pinned [of n 0 bs] crep_log [OF that]
    by (simp add: install_trans_def pinned_at atLeast0LessThan unpinned_pinned)
  have "?V3 ?h = ?H" using hd(3) by (subst upds_other) auto
  then have w4: "runs (write_head (t\<lparr>lh_n := 0\<rparr>)) (\<lambda>_ t. crep p D (s\<lparr>lh_n := 0\<rparr>) Map.empty (upds (commit_writes start n bs V) V)
      (\<lambda>_. 0) (upds (commit_writes start n bs V) (disk s)) (dwrites s @ commit_writes start n bs V) t)"
    if "crep p D s Map.empty ?V3 (\<lambda>_. 0) ?d3 (dwrites s @ ?W @ [(?h, ?H)] @ ?B) t" for t
    using write_head_spec [OF crep_set_head(1) [OF that, of 0], of 0 ?h] D s by (simp add: commit_writes_def room_def)
  show ?thesis
    using n(1,2) by (simp add: commit_def) (rule runs_mono [OF w1], erule runs_mono [OF w2], erule runs_mono [OF w3], erule w4)
qed

text \<open>What recovery makes of a disk: the blocks of the log, if its header has any, copied home.\<close>

definition head_n :: "int \<Rightarrow> disk \<Rightarrow> nat" where
  "head_n start d = nat (sint (get32 0 (d (word_of_int start))))"

definition head_blocks :: "int \<Rightarrow> disk \<Rightarrow> nat \<Rightarrow> u32" where
  "head_blocks start d i = get32 (4 + 4 * i) (d (word_of_int start))"

definition recovered :: "int \<Rightarrow> disk \<Rightarrow> disk" where
  "recovered start d = upds (home_writes start (head_blocks start d) d [0..<head_n start d]) d"

definition recovery_writes :: "int \<Rightarrow> disk \<Rightarrow> (u32 \<times> u8 list) list" where
  "recovery_writes start d = home_writes start (head_blocks start d) d [0..<head_n start d] @
     [(word_of_int start, put32 0 0 (d (word_of_int start)))]"

definition valid_head :: "int \<Rightarrow> disk \<Rightarrow> bool" where
  "valid_head start d \<longleftrightarrow> 0 \<le> sint (get32 0 (d (word_of_int start))) \<and>
     log_layout start (head_n start d) (head_blocks start d) \<and> length (d (word_of_int start)) = BSIZE"

lemma home_writes_cong:
  "(\<And>i. i \<in> set ts \<Longrightarrow> bs i = bs' i) \<Longrightarrow> home_writes start bs V ts = home_writes start bs' V ts"
  by (simp add: home_writes_def)

lemma log_layout_cong:
  assumes "\<And>i. i < n \<Longrightarrow> bs i = bs' i"
  shows "log_layout start n bs = log_layout start n bs'"
proof -
  have "bs ` {..<n} = bs' ` {..<n}" "inj_on bs {..<n} = inj_on bs' {..<n}"
    using assms by (auto simp: inj_on_def intro!: image_cong)
  then show ?thesis by (simp add: log_layout_def)
qed

lemma recover_spec:
  assumes c: "cache p D Map.empty d (\<lambda>_. 0) s" and D: "D = lg_dev s" and d: "disk s = d" and v: "valid_head start d"
    and s: "start = lg_start s"
  shows "runs (recover_from_log s) (\<lambda>_ t. disk t = (recovered start d)(word_of_int start := put32 0 0 (d (word_of_int start))) \<and>
    dwrites t = dwrites s @ recovery_writes start d \<and> lh_n t = 0 \<and> cache p D Map.empty (disk t) (\<lambda>_. 0) t)"
proof -
  let ?h = "word_of_int start :: u32" and ?n = "head_n start d" and ?bs = "read_blocks (head_n start d) (d (word_of_int start)) (lh_block s)"
  let ?s = "s\<lparr>lh_n := int ?n, lh_block := ?bs\<rparr>" and ?B = "home_writes start (head_blocks start d) d [0..<?n]"
  have c0: "crep p D s Map.empty d (\<lambda>_. 0) d (dwrites s) s" using c d by (simp add: crep_def)
  have bs: "?bs i = head_blocks start d i" if "i < ?n" for i using that by (simp add: read_blocks_def head_blocks_def)
  have l: "log_layout start ?n ?bs" "log_layout start ?n (head_blocks start d)"
    using v log_layout_cong [OF bs] by (auto simp: valid_head_def)
  have n: "sint (get32 0 (d ?h)) = int ?n" "?n \<le> LOGSIZE" using v l(2) by (simp_all add: valid_head_def head_n_def log_layout_def)
  have r: "room (\<lambda>_. 0) 0" "room (\<lambda>_. 0) 1" by (simp_all add: room_def)
  have hw: "home_writes start ?bs d [0..<?n] = ?B" by (rule home_writes_cong) (simp add: bs)
  have w1: "runs (read_head s) (\<lambda>_ t. crep p D ?s Map.empty d (\<lambda>_. 0) d (dwrites s) t)"
    using read_head_spec [OF c0 D n(1)] n(2) r s by simp
  have w2: "runs (install_trans True t) (\<lambda>_ t. crep p D ?s Map.empty (recovered start d) (\<lambda>_. 0) (recovered start d) (dwrites s @ ?B) t)"
    if "crep p D ?s Map.empty d (\<lambda>_. 0) d (dwrites s) t" for t
    using install_trans_loop_spec [OF that, of ?n "[0..<?n]" True] D l r s crep_log [OF that]
    by (simp add: install_trans_def atLeast0LessThan unpinned_def hw [unfolded s] recovered_def)
  have "?h \<notin> fst ` set ?B" using log_layoutD(2) [OF l(2)] by (force simp: home_writes_def)
  then have "recovered start d ?h = d ?h" by (simp add: recovered_def upds_other)
  then have w3: "runs (write_head (t\<lparr>lh_n := 0\<rparr>)) (\<lambda>_ t. crep p D (?s\<lparr>lh_n := 0\<rparr>) Map.empty ((recovered start d)(?h := put32 0 0 (d ?h))) (\<lambda>_. 0)
      ((recovered start d)(?h := put32 0 0 (d ?h))) (dwrites s @ recovery_writes start d) t)"
    if "crep p D ?s Map.empty (recovered start d) (\<lambda>_. 0) (recovered start d) (dwrites s @ ?B) t" for t
    using write_head_spec [OF crep_set_head(1) [OF that, of 0], of 0 ?h] D s r by (simp add: recovery_writes_def head_bytes_def)
  have "runs (recover_from_log s) (\<lambda>_ t. crep p D (?s\<lparr>lh_n := 0\<rparr>) Map.empty ((recovered start d)(?h := put32 0 0 (d ?h))) (\<lambda>_. 0)
      ((recovered start d)(?h := put32 0 0 (d ?h))) (dwrites s @ recovery_writes start d) t)"
    unfolding recover_from_log_def runs_bnd by (rule runs_mono [OF w1], erule runs_mono [OF w2], erule w3)
  then show ?thesis by (rule runs_mono) (use crep_log in \<open>fastforce simp: crep_def\<close>)
qed

section \<open>Crashes\<close>

text \<open>Recovery looks at the header, the log blocks it names, and otherwise at nothing.\<close>

lemma recovered_at:
  assumes "log_layout start (head_n start d) (head_blocks start d)"
  shows "i < head_n start d \<Longrightarrow> recovered start d (head_blocks start d i) = d (log_block start i)"
    and "b \<notin> head_blocks start d ` {..<head_n start d} \<Longrightarrow> recovered start d b = d b"
proof -
  have "inj_on (head_blocks start d) (set [0..<head_n start d])"
    using assms by (simp add: log_layout_def atLeast0LessThan)
  then show "i < head_n start d \<Longrightarrow> recovered start d (head_blocks start d i) = d (log_block start i)"
    using upds_map [of "head_blocks start d" "[0..<head_n start d]" i "\<lambda>i. d (log_block start i)" d]
    by (simp add: recovered_def home_writes_def)
  show "b \<notin> head_blocks start d ` {..<head_n start d} \<Longrightarrow> recovered start d b = d b"
    unfolding recovered_def by (rule upds_other) (auto simp: home_writes_def)
qed

lemma recovered_eq:
  assumes n: "head_n start d = n" and bs: "\<And>i. i < n \<Longrightarrow> head_blocks start d i = bs i"
    and l: "log_layout start n bs"
  shows "log_layout start (head_n start d) (head_blocks start d)"
    and "i < n \<Longrightarrow> recovered start d (bs i) = d (log_block start i)"
    and "b \<notin> bs ` {..<n} \<Longrightarrow> recovered start d b = d b"
proof -
  show *: "log_layout start (head_n start d) (head_blocks start d)" using l log_layout_cong [OF bs] n by simp
  have "head_blocks start d ` {..<n} = bs ` {..<n}" using bs by (intro image_cong) auto
  then show "i < n \<Longrightarrow> recovered start d (bs i) = d (log_block start i)" "b \<notin> bs ` {..<n} \<Longrightarrow> recovered start d b = d b"
    using recovered_at [OF *] n bs by auto
qed

text \<open>
  The three stages of a commit: the log is being written, the header is written and the blocks are
  being installed, the header is cleared.
\<close>

lemma commit_prefix:
  "take k (commit_writes start n bs V) =
    (if k \<le> n then take k (log_writes start bs V [0..<n])
     else log_writes start bs V [0..<n] @ (word_of_int start, head_bytes n bs (V (word_of_int start))) #
       (if k \<le> 2 * n + 1 then map (\<lambda>i. (bs i, V (bs i))) [0..<k - n - 1]
        else map (\<lambda>i. (bs i, V (bs i))) [0..<n] @
          [(word_of_int start, head_bytes 0 bs (head_bytes n bs (V (word_of_int start))))]))"
proof -
  have "length (log_writes start bs V [0..<n]) = n" by (simp add: log_writes_def)
  moreover have "take j (map (\<lambda>i. (bs i, V (bs i))) [0..<n]) = map (\<lambda>i. (bs i, V (bs i))) [0..<j]" if "j \<le> n" for j
    using that by (simp add: take_map min_def)
  ultimately show ?thesis
    by (auto simp: commit_writes_def take_Cons' not_le Suc_diff_le)
qed

lemma crash_before_head:
  assumes l: "log_layout start n bs" and z: "get32 0 (d (word_of_int start)) = 0"
  shows "\<forall>b. b \<notin> log_area start \<longrightarrow> recovered start (upds (take k (log_writes start bs V [0..<n])) d) b = d b"
    and "get32 0 (upds (take k (log_writes start bs V [0..<n])) d (word_of_int start)) = 0"
proof -
  let ?d = "upds (take k (log_writes start bs V [0..<n])) d"
  have f: "fst ` set (take k (log_writes start bs V [0..<n])) \<subseteq> log_block start ` {..<n}"
    by (auto simp: log_writes_def dest!: in_set_takeD)
  then have "word_of_int start \<notin> fst ` set (take k (log_writes start bs V [0..<n]))"
    using log_layoutD(3,6) [OF l] by (metis (no_types, lifting) imageE lessThan_iff subsetD)
  then show g: "get32 0 (?d (word_of_int start)) = 0" using z by (simp add: upds_other)
  then have "recovered start ?d b = ?d b" for b by (simp add: recovered_def head_n_def home_writes_def)
  moreover have "?d b = d b" if "b \<notin> log_area start" for b
    using f that log_layoutD(6) [OF l] by (intro upds_other) (auto simp: log_area_def)
  ultimately show "\<forall>b. b \<notin> log_area start \<longrightarrow> recovered start ?d b = d b" by simp
qed

lemma crash_after_head:
  assumes l: "log_layout start n bs" and h: "h = word_of_int start" and V: "length (V h) = BSIZE"
    and cl: "\<And>b. b \<notin> bs ` {..<n} \<Longrightarrow> d b = V b" and j: "j \<le> n"
    and d: "d' = upds (map (\<lambda>i. (bs i, V (bs i))) [0..<j]) ((upds (log_writes start bs V [0..<n]) d)(h := head_bytes n bs (V h)))"
  shows "valid_head start d'" "b \<notin> log_area start \<Longrightarrow> recovered start d' b = V b"
proof -
  have n: "n \<le> LOGSIZE" using l by (simp add: log_layout_def)
  have ba: "bs i \<notin> log_area start" if "i < n" for i using l that unfolding log_layout_def by blast
  have at: "d' b = upds (log_writes start bs V [0..<n]) d b" if "b \<noteq> h" "b \<notin> bs ` {..<j}" for b
    using that unfolding d by (subst upds_other) auto
  have hd: "d' h = head_bytes n bs (V h)"
    unfolding d using log_layoutD(2) [OF l] j h by (subst upds_other) (auto, metis lessThan_iff less_le_trans)
  have hn: "head_n start d' = n" "\<And>i. i < n \<Longrightarrow> head_blocks start d' i = bs i"
    using hd head_bytes_read [OF V n] h by (simp_all add: head_n_def head_blocks_def)
  note r = recovered_eq [OF hn(1) hn(2) l]
  show "valid_head start d'"
    using r(1) hd head_bytes_read(1,2) [OF V n, of bs] h by (simp add: valid_head_def)
  show "recovered start d' b = V b" if b: "b \<notin> log_area start"
  proof (cases "b \<in> bs ` {..<n}")
    case True
    then obtain i where i: "i < n" "b = bs i" by auto
    have "log_block start i \<noteq> h" "log_block start i \<notin> bs ` {..<j}"
      using log_layoutD(1,3,6) [OF l] i(1) j h by (auto, metis less_le_trans)
    then have "d' (log_block start i) = V (bs i)" using at upds_log_writes(2) [OF l i(1)] by simp
    then show ?thesis using r(2) [OF _ i(1)] i(2) by simp
  next
    case False
    moreover have "b \<notin> log_block start ` {..<n}" "b \<noteq> h" using b n h by (auto simp: log_area_def)
    moreover have "b \<notin> bs ` {..<j}" using False j by auto
    ultimately show ?thesis
      using r(3) [of b] at [of b] j cl upds_log_writes(1) [OF l, of b V d] by auto
  qed
qed

lemma crash_after_clear:
  assumes l: "log_layout start n bs" and h: "h = word_of_int start" and V: "length (V h) = BSIZE"
    and cl: "\<And>b. b \<notin> bs ` {..<n} \<Longrightarrow> d b = V b"
    and d: "d' = (upds (map (\<lambda>i. (bs i, V (bs i))) [0..<n]) ((upds (log_writes start bs V [0..<n]) d)(h := head_bytes n bs (V h))))
      (h := head_bytes 0 bs (head_bytes n bs (V h)))"
  shows "valid_head start d'" "b \<notin> log_area start \<Longrightarrow> recovered start d' b = V b"
proof -
  have n: "n \<le> LOGSIZE" using l by (simp add: log_layout_def)
  note hb = head_bytes_read [OF head_bytes_read(1) [OF V n], of 0]
  have hn: "head_n start d' = 0" using hb(2) [of bs bs] d h by (simp add: head_n_def)
  show "valid_head start d'"
    using hb(1,2) [of bs bs] d h hn l by (simp add: valid_head_def log_layout_def)
  assume b: "b \<notin> log_area start"
  then have o: "b \<noteq> h" "b \<notin> log_block start ` {..<n}" using n h by (auto simp: log_area_def)
  have "recovered start d' b = d' b" by (simp add: recovered_def hn home_writes_def)
  also have "\<dots> = V b"
  proof (cases "b \<in> bs ` {..<n}")
    case True
    then obtain i where i: "i < n" "b = bs i" by auto
    have "inj_on bs (set [0..<n])" using l by (simp add: log_layout_def atLeast0LessThan)
    then show ?thesis using upds_map [of bs "[0..<n]" i "\<lambda>i. V (bs i)"] i o by (simp add: d)
  next
    case False
    then show ?thesis using o cl upds_log_writes(1) [OF l, of b V d] by (simp add: d) (subst upds_other, auto)
  qed
  finally show "recovered start d' b = V b" .
qed

lemma crash_commit:
  assumes l: "log_layout start n bs" and h: "h = word_of_int start" and V: "length (V h) = BSIZE" and z: "get32 0 (V h) = 0"
    and cl: "\<And>b. b \<notin> bs ` {..<n} \<Longrightarrow> d b = V b"
  shows "valid_head start (upds (take k (commit_writes start n bs V)) d) \<and>
    (\<forall>b. b \<notin> log_area start \<longrightarrow> recovered start (upds (take k (commit_writes start n bs V)) d) b = (if n < k then V b else d b))"
proof -
  have dh: "d h = V h" using cl log_layoutD(2) [OF l] h by (metis imageE lessThan_iff)
  consider "k \<le> n" | "n < k" "k \<le> 2 * n + 1" | "2 * n + 1 < k" by linarith
  then show ?thesis
  proof cases
    case 1
    let ?d = "upds (take k (log_writes start bs V [0..<n])) d"
    have "h \<notin> fst ` set (take k (log_writes start bs V [0..<n]))"
      using log_layoutD(3,6) [OF l] h by (force simp: log_writes_def dest!: in_set_takeD)
    then have "length (?d h) = BSIZE" using dh V by (simp add: upds_other)
    then have "valid_head start ?d"
      using crash_before_head(2) [OF l, of d k V] z dh h l by (simp add: valid_head_def head_n_def log_layout_def)
    then show ?thesis using 1 crash_before_head(1) [OF l, of d k V] z dh h by (simp add: commit_prefix)
  next
    case 2
    then show ?thesis
      using crash_after_head [where V = V and d = d and j = "k - n - 1", OF l h V cl] h by (simp add: commit_prefix)
  next
    case 3
    then show ?thesis
      using crash_after_clear [where V = V and d = d, OF l h V cl] h by (simp add: commit_prefix)
  qed
qed

text \<open>A crash in the middle of recovery: what recovery makes of the disk does not change.\<close>

lemma crash_recovery:
  assumes v: "valid_head start d"
  shows "valid_head start (upds (take k (recovery_writes start d)) d) \<and>
    (\<forall>b. b \<notin> log_area start \<longrightarrow> recovered start (upds (take k (recovery_writes start d)) d) b = recovered start d b)"
proof -
  let ?n = "head_n start d" and ?bs = "head_blocks start d" and ?h = "word_of_int start :: u32"
  have l: "log_layout start ?n ?bs" and len: "length (d ?h) = BSIZE" using v by (simp_all add: valid_head_def)
  have o: "upds (home_writes start ?bs d [0..<j]) d b = d b" if "j \<le> ?n" "b \<in> log_area start" for j b
    using that log_home [OF l] by (intro upds_other) (fastforce simp: home_writes_def)
  show ?thesis
  proof (cases "k \<le> ?n")
    case True
    let ?d = "upds (home_writes start ?bs d [0..<k]) d"
    have e: "take k (recovery_writes start d) = home_writes start ?bs d [0..<k]"
      using True by (simp add: recovery_writes_def home_writes_def take_map)
    have hn: "head_n start ?d = ?n" "head_blocks start ?d = ?bs"
      using o [OF True, of ?h] by (simp_all add: head_n_def head_blocks_def log_area_def fun_eq_iff)
    note r = recovered_eq [OF hn(1) _ l, unfolded hn(2)]
    have "recovered start ?d b = recovered start d b" for b
    proof (cases "b \<in> ?bs ` {..<?n}")
      case b: True
      then obtain i where i: "i < ?n" "b = ?bs i" by auto
      then have "?d (log_block start i) = d (log_block start i)"
        using o [OF True] log_layoutD(6) [OF l] by (simp add: log_area_def)
      then show ?thesis using r(2) i recovered_at(1) [OF l] by simp
    next
      case b: False
      then have "?d b = d b" using True by (intro upds_other) (auto simp: home_writes_def)
      then show ?thesis using r(3) b recovered_at(2) [OF l b] by simp
    qed
    moreover have "valid_head start ?d" using v hn o [OF True, of ?h] by (simp add: valid_head_def log_area_def)
    ultimately show ?thesis unfolding e by simp
  next
    case False
    let ?d = "(recovered start d)(?h := put32 0 0 (d ?h))"
    have e: "upds (take k (recovery_writes start d)) d = ?d"
      using False by (simp add: recovery_writes_def recovered_def home_writes_def)
    have z: "head_n start ?d = 0" using len by (simp add: head_n_def)
    then have "recovered start ?d b = ?d b" for b by (simp add: recovered_def home_writes_def)
    moreover have "valid_head start ?d" using v z len by (simp add: valid_head_def log_layout_def)
    ultimately show ?thesis unfolding e by (auto simp: log_area_def)
  qed
qed

section \<open>Properties\<close>

text \<open>A machine that has just booted with disk \<open>d\<close>: the cache of process \<open>p\<close> is empty.\<close>

definition booted :: "nat \<Rightarrow> u32 \<Rightarrow> disk \<Rightarrow> 'a log_st_scheme \<Rightarrow> bool" where
  "booted p D d s \<longleftrightarrow> cache p D Map.empty d (\<lambda>_. 0) s \<and> disk s = d"

lemma initlog_recovers:
  assumes b: "booted p D d s" and v: "valid_head start d" and sb: "sint (sb_logstart sb) = start"
  shows "runs (initlog D sb s) (\<lambda>_ t. disk t = (recovered start d)(word_of_int start := put32 0 0 (d (word_of_int start))) \<and>
    dwrites t = dwrites s @ recovery_writes start d \<and> lh_n t = 0 \<and> booted p D (disk t) t)"
proof -
  let ?s = "(initlock LogLock ''log'' s)\<lparr>lg_start := sint (sb_logstart sb), lg_size := sint (sb_nlog sb), lg_dev := D\<rparr>"
  have c: "cache p D Map.empty d (\<lambda>_. 0) s" "disk s = d" using b by (simp_all add: booted_def)
  have "lock_free L ?s" for L using quietD(2) [OF cacheD(1) [OF c(1)], of L] by (simp add: lock_free_def initlock_def set_lock_def)
  moreover have "settled ?s = settled s" by (rule settled_cong) (simp_all add: initlock_def set_lock_def)
  ultimately have "quiet p ?s" using cacheD(1) [OF c(1)] by (simp add: quiet_def initlock_def set_lock_def)
  then have c': "cache p D Map.empty d (\<lambda>_. 0) ?s"
    using c(1) unfolding cache_def by (simp add: is_at_def initlock_def set_lock_def)
  have e: "disk ?s = d" "dwrites ?s = dwrites s" "D = lg_dev ?s" "start = lg_start ?s"
    using c(2) sb by (simp_all add: initlock_def set_lock_def)
  have "runs (recover_from_log ?s) (\<lambda>_ t. disk t = (recovered start d)(word_of_int start := put32 0 0 (d (word_of_int start))) \<and>
      dwrites t = dwrites s @ recovery_writes start d \<and> lh_n t = 0 \<and> cache p D Map.empty (disk t) (\<lambda>_. 0) t)"
    using recover_spec [OF c' e(3,1) v e(4)] unfolding e(2) .
  then show ?thesis by (simp add: initlog_def sizeof_logheader_def Let_def booted_def)
qed

text \<open>
  C22. Recovery can itself be interrupted. If the machine stops after any number \<open>k\<close> of the block
  writes of \<open>initlog\<close> and boots again, the second \<open>initlog\<close> gives every block outside the log
  the contents that the first would have given it.
\<close>

theorem recovery_idempotent:
  assumes "booted p D d s" "valid_head start d" "sint (sb_logstart sb) = start"
  shows "runs (initlog D sb s) (\<lambda>_ t. \<exists>ws. dwrites t = dwrites s @ ws \<and>
    (\<forall>k q r. booted q D (upds (take k ws) d) (r :: log_st) \<longrightarrow>
      runs (initlog D sb r) (\<lambda>_ u. \<forall>b. b \<notin> log_area start \<longrightarrow> disk u b = disk t b)))"
proof -
  have rec: "runs (initlog D sb r) (\<lambda>_ u. \<forall>b. b \<notin> log_area start \<longrightarrow> disk u b = recovered start d b)"
    if "booted q D (upds (take k (recovery_writes start d)) d) (r :: log_st)" for k q r
    by (rule runs_mono [OF initlog_recovers [OF that _ assms(3)]]) (use crash_recovery [OF assms(2), of k] in \<open>auto simp: log_area_def\<close>)
  show ?thesis
    by (rule runs_mono [OF initlog_recovers [OF assms]]) (use rec in \<open>auto simp: log_area_def elim!: runs_mono\<close>)
qed

text \<open>A machine with an empty disk and an empty log in blocks 2 to 31.\<close>

definition log_machine :: log_st where
  "log_machine = bio_st.extend (bio_machine (\<lambda>_. replicate BSIZE 0))
     \<lparr>lg_start = 2, lg_size = 30, lg_outstanding = 0, lg_committing = False, lg_dev = 1, lh_n = 0, lh_block = (\<lambda>_. 100)\<rparr>"

lemma log_machine_booted: "booted 0 1 (\<lambda>_. replicate BSIZE 0) (binit log_machine)"
proof -
  have "quiet 0 log_machine"
    by (simp add: quiet_def settled_def cpu_ok_def machine_defs lock_free_def log_machine_def bio_machine_def small_machine_def
        mem_st.defs bio_st.defs)
  moreover have "disk log_machine = (\<lambda>_. replicate BSIZE 0)" "bufs log_machine = (\<lambda>_. blank_buf)"
    by (simp_all add: log_machine_def bio_machine_def mem_st.defs bio_st.defs)
  ultimately show ?thesis
    using binit_cache [of 0 log_machine 1] by (simp add: booted_def blank_buf_def binit_state)
qed

theorem recovery_idempotent_witness:
  "runs (initlog 1 \<lparr>sb_magic = 0x10203040, sb_size = 2000, sb_nblocks = 1954, sb_ninodes = 200, sb_nlog = 30, sb_logstart = 2,
      sb_inodestart = 32, sb_bmapstart = 45\<rparr> (binit log_machine)) (\<lambda>_ t. \<exists>ws. dwrites t = dwrites (binit log_machine) @ ws)"
proof -
  let ?d = "\<lambda>_. replicate BSIZE 0 :: u8 list"
  have "get32 0 (replicate BSIZE 0) = 0" by (simp add: get32_def word_of_bytes_def numeral_eq_Suc)
  then have "valid_head 2 ?d" by (simp add: valid_head_def head_n_def log_layout_def)
  then show ?thesis by (rule runs_mono [OF recovery_idempotent [OF log_machine_booted]]) auto
qed

end
