(* ===== verification/Fs.thy ===== *)
theory Fs
  imports Log
begin

text \<open>
  The file system of \<open>kernel/fs.c\<close>: the block allocator, the table of inodes, the contents of
  inodes, directories and path names. Structures on disk are read and written as bytes of the blocks
  of the buffer cache. A kernel buffer that a routine fills is part of its result, so \<open>readi\<close> for a
  kernel destination returns the bytes it copies; strings are byte lists without their final zero.
  \<open>ap\<close> is the source of page-table pages that the page-table walk of a user copy takes.
\<close>

section \<open>State and formats\<close>

record inode =
  i_dev :: u32
  i_inum :: u32
  i_ref :: int
  i_valid :: bool
  i_type :: u16
  i_major :: u16
  i_minor :: u16
  i_nlink :: u16
  i_size :: u32
  i_addrs :: "u32 list"

record fs_st = log_st +
  sb :: superblock
  inodes :: "nat \<Rightarrow> inode"

definition set_inode :: "nat \<Rightarrow> (inode \<Rightarrow> inode) \<Rightarrow> 'a fs_st_scheme \<Rightarrow> 'a fs_st_scheme" where
  "set_inode i f s = s\<lparr>inodes := (inodes s)(i := f (inodes s i))\<rparr>"

definition FSMAGIC :: u32 where "FSMAGIC = 0x10203040"
definition ROOTINO :: u32 where "ROOTINO = 1"
definition NDIRECT :: nat where "NDIRECT = 12"
definition NINDIRECT :: nat where "NINDIRECT = BSIZE div 4"
definition MAXFILE :: nat where "MAXFILE = NDIRECT + NINDIRECT"
definition IPB :: u32 where "IPB = 16"
definition BPB :: nat where "BPB = BSIZE * 8"
definition DIRSIZ :: nat where "DIRSIZ = 14"
definition T_DIR :: u16 where "T_DIR = 1"
definition T_FILE :: u16 where "T_FILE = 2"
definition T_DEVICE :: u16 where "T_DEVICE = 3"

definition IBLOCK :: "u32 \<Rightarrow> superblock \<Rightarrow> u32" where
  "IBLOCK i b = i div IPB + sb_inodestart b"

definition BBLOCK :: "u32 \<Rightarrow> superblock \<Rightarrow> u32" where
  "BBLOCK n b = n div of_nat BPB + sb_bmapstart b"

definition get16 :: "nat \<Rightarrow> u8 list \<Rightarrow> u16" where
  "get16 i xs = word_of_bytes (take 2 (drop i xs))"

definition put16 :: "nat \<Rightarrow> u16 \<Rightarrow> u8 list \<Rightarrow> u8 list" where
  "put16 i v xs = take i xs @ bytes_of_word 2 v @ drop (i + 2) xs"

definition put_bytes :: "nat \<Rightarrow> u8 list \<Rightarrow> u8 list \<Rightarrow> u8 list" where
  "put_bytes i ys xs = take i xs @ ys @ drop (i + length ys) xs"

text \<open>\<open>struct dinode\<close> occupies 64 bytes: four shorts, the size, the thirteen block addresses.\<close>

definition dinode_off :: "u32 \<Rightarrow> nat" where
  "dinode_off inum = 64 * unat (inum mod IPB)"

definition read_dinode :: "u8 list \<Rightarrow> nat \<Rightarrow> inode \<Rightarrow> inode" where
  "read_dinode d pos ip = ip\<lparr>i_type := get16 pos d, i_major := get16 (pos + 2) d, i_minor := get16 (pos + 4) d,
     i_nlink := get16 (pos + 6) d, i_size := get32 (pos + 8) d,
     i_addrs := map (\<lambda>k. get32 (pos + 12 + 4 * k) d) [0..<NDIRECT + 1]\<rparr>"

definition write_dinode :: "inode \<Rightarrow> nat \<Rightarrow> u8 list \<Rightarrow> u8 list" where
  "write_dinode ip pos d =
     (let d = put16 pos (i_type ip) d;
          d = put16 (pos + 2) (i_major ip) d;
          d = put16 (pos + 4) (i_minor ip) d;
          d = put16 (pos + 6) (i_nlink ip) d;
          d = put32 (pos + 8) (i_size ip) d
      in put_bytes (pos + 12) (concat (map (bytes_of_word 4) (i_addrs ip))) d)"

section \<open>Blocks\<close>

definition read_superblock :: "u8 list \<Rightarrow> superblock" where
  "read_superblock d = \<lparr>sb_magic = get32 0 d, sb_size = get32 4 d, sb_nblocks = get32 8 d, sb_ninodes = get32 12 d,
     sb_nlog = get32 16 d, sb_logstart = get32 20 d, sb_inodestart = get32 24 d, sb_bmapstart = get32 28 d\<rparr>"

definition readsb :: "u32 \<Rightarrow> 'a fs_st_scheme \<Rightarrow> (unit, 'a fs_st_scheme) outcome" where
  "readsb dev s =
     bnd (bread dev 1 s) (\<lambda>bp s. brelse bp (s\<lparr>sb := read_superblock (buf_data bp s)\<rparr>))"

definition fsinit :: "u32 \<Rightarrow> 'a fs_st_scheme \<Rightarrow> (unit, 'a fs_st_scheme) outcome" where
  "fsinit dev s =
     bnd (readsb dev s) (\<lambda>_ s.
     if sb_magic (sb s) \<noteq> FSMAGIC then Panic ''invalid file system'' else initlog dev (sb s) s)"

definition bzero :: "u32 \<Rightarrow> u32 \<Rightarrow> 'a fs_st_scheme \<Rightarrow> (unit, 'a fs_st_scheme) outcome" where
  "bzero dev bno s =
     bnd (bread dev bno s) (\<lambda>bp s.
     bnd (log_write bp (set_data bp (replicate BSIZE 0) s)) (\<lambda>_ s.
     brelse bp s))"

definition block_bit :: "u8 list \<Rightarrow> nat \<Rightarrow> bool" where
  "block_bit d bi = ((d ! (bi div 8)) AND push_bit (bi mod 8) 1 \<noteq> 0)"

definition set_block_bit :: "nat \<Rightarrow> u8 list \<Rightarrow> u8 list" where
  "set_block_bit bi d = d[bi div 8 := (d ! (bi div 8)) OR push_bit (bi mod 8) 1]"

definition clear_block_bit :: "nat \<Rightarrow> u8 list \<Rightarrow> u8 list" where
  "clear_block_bit bi d = d[bi div 8 := (d ! (bi div 8)) AND NOT (push_bit (bi mod 8) 1)]"

text \<open>
  The outer loop of \<open>balloc\<close> runs over the first block numbers \<open>b\<close> of the bitmap blocks. \<open>b\<close> is an \<open>int\<close>
  in the code and a natural number here, which agree on a disk of at most \<open>2 ^ 31\<close> blocks.
\<close>

fun balloc_loop :: "u32 \<Rightarrow> nat list \<Rightarrow> 'a fs_st_scheme \<Rightarrow> (u32, 'a fs_st_scheme) outcome" where
  "balloc_loop dev [] s = Ok 0 (pr ''balloc: out of blocks'' s)"
| "balloc_loop dev (b # bs) s =
     bnd (bread dev (BBLOCK (of_nat b) (sb s)) s) (\<lambda>bp s.
     case find (\<lambda>bi. \<not> block_bit (buf_data bp s) bi) [0..<min BPB (unat (sb_size (sb s)) - b)] of
       Some bi \<Rightarrow>
         bnd (log_write bp (set_data bp (set_block_bit bi (buf_data bp s)) s)) (\<lambda>_ s.
         bnd (brelse bp s) (\<lambda>_ s.
         bnd (bzero dev (of_nat (b + bi)) s) (\<lambda>_ s.
         Ok (of_nat (b + bi)) s)))
     | None \<Rightarrow> bnd (brelse bp s) (\<lambda>_ s. balloc_loop dev bs s))"

definition balloc :: "u32 \<Rightarrow> 'a fs_st_scheme \<Rightarrow> (u32, 'a fs_st_scheme) outcome" where
  "balloc dev s = balloc_loop dev (map (\<lambda>k. k * BPB) [0..<(unat (sb_size (sb s)) + BPB - 1) div BPB]) s"

definition bfree :: "u32 \<Rightarrow> u32 \<Rightarrow> 'a fs_st_scheme \<Rightarrow> (unit, 'a fs_st_scheme) outcome" where
  "bfree dev b s =
     bnd (bread dev (BBLOCK b (sb s)) s) (\<lambda>bp s.
     let bi = unat b mod BPB
     in if \<not> block_bit (buf_data bp s) bi then Panic ''freeing free block''
        else bnd (log_write bp (set_data bp (clear_block_bit bi (buf_data bp s)) s)) (\<lambda>_ s. brelse bp s))"

section \<open>Inodes\<close>

definition iinit :: "'a fs_st_scheme \<Rightarrow> 'a fs_st_scheme" where
  "iinit s = fold (\<lambda>i. init_sleeplock (InodeSleep i) ''inode'') [0..<NINODE] (initlock ItableLock ''itable'' s)"

text \<open>The search of \<open>iget\<close>: the entry of the inode, or the first free one.\<close>

definition iget_find :: "u32 \<Rightarrow> u32 \<Rightarrow> 'a fs_st_scheme \<Rightarrow> nat option" where
  "iget_find dev inum s =
     find (\<lambda>i. 0 < i_ref (inodes s i) \<and> i_dev (inodes s i) = dev \<and> i_inum (inodes s i) = inum) [0..<NINODE]"

definition iget :: "u32 \<Rightarrow> u32 \<Rightarrow> 'a fs_st_scheme \<Rightarrow> (nat, 'a fs_st_scheme) outcome" where
  "iget dev inum s =
     bnd (acquire ItableLock s) (\<lambda>_ s.
     case iget_find dev inum s of
       Some ip \<Rightarrow> bnd (release ItableLock (set_inode ip (\<lambda>x. x\<lparr>i_ref := i_ref x + 1\<rparr>) s)) (\<lambda>_ s. Ok ip s)
     | None \<Rightarrow>
         (case find (\<lambda>i. i_ref (inodes s i) = 0) [0..<NINODE] of
            None \<Rightarrow> Panic ''iget: no inodes''
          | Some ip \<Rightarrow>
              bnd (release ItableLock
                (set_inode ip (\<lambda>x. x\<lparr>i_dev := dev, i_inum := inum, i_ref := 1, i_valid := False\<rparr>) s)) (\<lambda>_ s.
              Ok ip s)))"

fun ialloc_loop :: "u32 \<Rightarrow> u16 \<Rightarrow> nat list \<Rightarrow> 'a fs_st_scheme \<Rightarrow> (nat option, 'a fs_st_scheme) outcome" where
  "ialloc_loop dev type [] s = Ok None (pr ''ialloc: no inodes'' s)"
| "ialloc_loop dev type (inum # is) s =
     bnd (bread dev (IBLOCK (of_nat inum) (sb s)) s) (\<lambda>bp s.
     let pos = dinode_off (of_nat inum)
     in if get16 pos (buf_data bp s) = 0 then
          bnd (log_write bp (set_data bp (put16 pos type (put_bytes pos (replicate 64 0) (buf_data bp s))) s)) (\<lambda>_ s.
          bnd (brelse bp s) (\<lambda>_ s.
          bnd (iget dev (of_nat inum) s) (\<lambda>ip s. Ok (Some ip) s)))
        else bnd (brelse bp s) (\<lambda>_ s. ialloc_loop dev type is s))"

definition ialloc :: "u32 \<Rightarrow> u16 \<Rightarrow> 'a fs_st_scheme \<Rightarrow> (nat option, 'a fs_st_scheme) outcome" where
  "ialloc dev type s = ialloc_loop dev type [1..<unat (sb_ninodes (sb s))] s"

definition iupdate :: "nat \<Rightarrow> 'a fs_st_scheme \<Rightarrow> (unit, 'a fs_st_scheme) outcome" where
  "iupdate ip s =
     bnd (bread (i_dev (inodes s ip)) (IBLOCK (i_inum (inodes s ip)) (sb s)) s) (\<lambda>bp s.
     let x = inodes s ip
     in bnd (log_write bp (set_data bp (write_dinode x (dinode_off (i_inum x)) (buf_data bp s)) s)) (\<lambda>_ s.
        brelse bp s))"

definition idup :: "nat \<Rightarrow> 'a fs_st_scheme \<Rightarrow> (nat, 'a fs_st_scheme) outcome" where
  "idup ip s =
     bnd (acquire ItableLock s) (\<lambda>_ s.
     bnd (release ItableLock (set_inode ip (\<lambda>x. x\<lparr>i_ref := i_ref x + 1\<rparr>) s)) (\<lambda>_ s.
     Ok ip s))"

text \<open>In \<open>ilock\<close> and \<open>iunlock\<close> the null pointer is \<open>None\<close>.\<close>

fun ilock :: "nat option \<Rightarrow> 'a fs_st_scheme \<Rightarrow> (unit, 'a fs_st_scheme) outcome" where
  "ilock None s = Panic ''ilock''"
| "ilock (Some ip) s =
     (if i_ref (inodes s ip) < 1 then Panic ''ilock''
      else bnd (acquire_sleep (InodeSleep ip) s) (\<lambda>_ s.
        if \<not> i_valid (inodes s ip) then
          bnd (bread (i_dev (inodes s ip)) (IBLOCK (i_inum (inodes s ip)) (sb s)) s) (\<lambda>bp s.
          let s = set_inode ip (read_dinode (buf_data bp s) (dinode_off (i_inum (inodes s ip)))) s
          in bnd (brelse bp s) (\<lambda>_ s.
             let s = set_inode ip (\<lambda>x. x\<lparr>i_valid := True\<rparr>) s
             in if i_type (inodes s ip) = 0 then Panic ''ilock: no type'' else Ok () s))
        else Ok () s))"

fun iunlock :: "nat option \<Rightarrow> 'a fs_st_scheme \<Rightarrow> (unit, 'a fs_st_scheme) outcome" where
  "iunlock None s = Panic ''iunlock''"
| "iunlock (Some ip) s =
     bnd (holding_sleep (InodeSleep ip) s) (\<lambda>h s.
     if \<not> h \<or> i_ref (inodes s ip) < 1 then Panic ''iunlock'' else release_sleep (InodeSleep ip) s)"

section \<open>Contents of inodes\<close>

definition set_addr :: "nat \<Rightarrow> nat \<Rightarrow> u32 \<Rightarrow> 'a fs_st_scheme \<Rightarrow> 'a fs_st_scheme" where
  "set_addr ip k a = set_inode ip (\<lambda>x. x\<lparr>i_addrs := (i_addrs x)[k := a]\<rparr>)"

text \<open>The address in slot \<open>k\<close> of the inode, allocated if it is 0; 0 if there is no block.\<close>

definition bmap_slot :: "nat \<Rightarrow> nat \<Rightarrow> 'a fs_st_scheme \<Rightarrow> (u32, 'a fs_st_scheme) outcome" where
  "bmap_slot ip k s =
     (let addr = i_addrs (inodes s ip) ! k
      in if addr = 0 then
           bnd (balloc (i_dev (inodes s ip)) s) (\<lambda>addr s.
           if addr = 0 then Ok 0 s else Ok addr (set_addr ip k addr s))
         else Ok addr s)"

definition bmap :: "nat \<Rightarrow> u32 \<Rightarrow> 'a fs_st_scheme \<Rightarrow> (u32, 'a fs_st_scheme) outcome" where
  "bmap ip bn s =
     (if unat bn < NDIRECT then bmap_slot ip (unat bn) s
      else let n = unat bn - NDIRECT
      in if n < NINDIRECT then
           bnd (bmap_slot ip NDIRECT s) (\<lambda>addr s.
           if addr = 0 then Ok 0 s
           else bnd (bread (i_dev (inodes s ip)) addr s) (\<lambda>bp s.
             let addr = get32 (4 * n) (buf_data bp s)
             in if addr = 0 then
                  bnd (balloc (i_dev (inodes s ip)) s) (\<lambda>addr s.
                  bnd (if addr \<noteq> 0 then log_write bp (set_data bp (put32 (4 * n) addr (buf_data bp s)) s) else Ok () s) (\<lambda>_ s.
                  bnd (brelse bp s) (\<lambda>_ s. Ok addr s)))
                else bnd (brelse bp s) (\<lambda>_ s. Ok addr s)))
         else Panic ''bmap: out of range'')"

fun itrunc_direct :: "nat \<Rightarrow> nat list \<Rightarrow> 'a fs_st_scheme \<Rightarrow> (unit, 'a fs_st_scheme) outcome" where
  "itrunc_direct ip [] s = Ok () s"
| "itrunc_direct ip (k # ks) s =
     (if i_addrs (inodes s ip) ! k \<noteq> 0 then
        bnd (bfree (i_dev (inodes s ip)) (i_addrs (inodes s ip) ! k) s) (\<lambda>_ s.
        itrunc_direct ip ks (set_addr ip k 0 s))
      else itrunc_direct ip ks s)"

fun itrunc_indirect :: "nat \<Rightarrow> nat \<Rightarrow> nat list \<Rightarrow> 'a fs_st_scheme \<Rightarrow> (unit, 'a fs_st_scheme) outcome" where
  "itrunc_indirect ip bp [] s = Ok () s"
| "itrunc_indirect ip bp (j # js) s =
     (let a = get32 (4 * j) (buf_data bp s)
      in if a \<noteq> 0 then bnd (bfree (i_dev (inodes s ip)) a s) (\<lambda>_ s. itrunc_indirect ip bp js s)
         else itrunc_indirect ip bp js s)"

definition itrunc :: "nat \<Rightarrow> 'a fs_st_scheme \<Rightarrow> (unit, 'a fs_st_scheme) outcome" where
  "itrunc ip s =
     bnd (itrunc_direct ip [0..<NDIRECT] s) (\<lambda>_ s.
     bnd (let a = i_addrs (inodes s ip) ! NDIRECT
          in if a \<noteq> 0 then
               bnd (bread (i_dev (inodes s ip)) a s) (\<lambda>bp s.
               bnd (itrunc_indirect ip bp [0..<NINDIRECT] s) (\<lambda>_ s.
               bnd (brelse bp s) (\<lambda>_ s.
               bnd (bfree (i_dev (inodes s ip)) (i_addrs (inodes s ip) ! NDIRECT) s) (\<lambda>_ s.
               Ok () (set_addr ip NDIRECT 0 s)))))
             else Ok () s) (\<lambda>_ s.
     iupdate ip (set_inode ip (\<lambda>x. x\<lparr>i_size := 0\<rparr>) s)))"

text \<open>Following a null inode pointer.\<close>

definition deref :: "'p option \<Rightarrow> ('p \<Rightarrow> ('r, 's) outcome) \<Rightarrow> ('r, 's) outcome" where
  "deref p f = (case p of None \<Rightarrow> Undef ''null pointer'' | Some x \<Rightarrow> f x)"

definition iput :: "nat \<Rightarrow> 'a fs_st_scheme \<Rightarrow> (unit, 'a fs_st_scheme) outcome" where
  "iput ip s =
     bnd (acquire ItableLock s) (\<lambda>_ s.
     bnd (if i_ref (inodes s ip) = 1 \<and> i_valid (inodes s ip) \<and> i_nlink (inodes s ip) = 0 then
            bnd (acquire_sleep (InodeSleep ip) s) (\<lambda>_ s.
            bnd (release ItableLock s) (\<lambda>_ s.
            bnd (itrunc ip s) (\<lambda>_ s.
            bnd (iupdate ip (set_inode ip (\<lambda>x. x\<lparr>i_type := 0\<rparr>) s)) (\<lambda>_ s.
            bnd (release_sleep (InodeSleep ip) (set_inode ip (\<lambda>x. x\<lparr>i_valid := False\<rparr>) s)) (\<lambda>_ s.
            acquire ItableLock s)))))
          else Ok () s) (\<lambda>_ s.
     release ItableLock (set_inode ip (\<lambda>x. x\<lparr>i_ref := i_ref x - 1\<rparr>) s)))"

definition iunlockput :: "nat \<Rightarrow> 'a fs_st_scheme \<Rightarrow> (unit, 'a fs_st_scheme) outcome" where
  "iunlockput ip s = bnd (iunlock (Some ip) s) (\<lambda>_ s. iput ip s)"

record stat =
  st_dev :: u32
  st_ino :: u32
  st_type :: u16
  st_nlink :: u16
  st_size :: u64

definition stati :: "nat \<Rightarrow> 'a fs_st_scheme \<Rightarrow> stat" where
  "stati ip s = (let x = inodes s ip
     in \<lparr>st_dev = i_dev x, st_ino = i_inum x, st_type = i_type x, st_nlink = i_nlink x, st_size = ucast (i_size x)\<rparr>)"

text \<open>
  The part of a transfer that stays within the block of \<open>off\<close>, in the unsigned arithmetic of the
  source.
\<close>

definition block_chunk :: "u32 \<Rightarrow> u32 \<Rightarrow> u32" where
  "block_chunk off n = min n (of_nat BSIZE - off mod of_nat BSIZE)"

lemma unat_block_chunk: "unat (block_chunk off n) = min (unat n) (BSIZE - unat off mod BSIZE)"
proof -
  have "off mod 1024 \<le> (1024 :: u32)" using word_mod_less_divisor [of 1024 off] by (simp add: word_less_def le_less)
  then have "unat (1024 - off mod 1024 :: u32) = 1024 - unat off mod 1024"
    by (simp add: unat_sub_if' unat_mod_distrib word_le_nat_alt)
  then show ?thesis by (auto simp: block_chunk_def min_def word_le_nat_alt)
qed

lemma block_chunk_progress:
  assumes "tot < n"
  shows "unat (n - (tot + block_chunk off (n - tot))) < unat (n - tot)" "0 < unat (block_chunk off (n - tot))"
proof -
  have "0 < unat (n - tot)" using assms by (simp add: word_less_nat_alt unat_sub_if')
  then show p: "0 < unat (block_chunk off (n - tot))" by (simp add: unat_block_chunk)
  have e: "n - (tot + block_chunk off (n - tot)) = (n - tot) - block_chunk off (n - tot)" by simp
  have "unat (block_chunk off (n - tot)) \<le> unat (n - tot)" by (simp add: unat_block_chunk)
  then have "unat (n - tot - block_chunk off (n - tot)) = unat (n - tot) - unat (block_chunk off (n - tot))"
    by (subst unat_sub_if') simp
  then show "unat (n - (tot + block_chunk off (n - tot))) < unat (n - tot)"
    unfolding e using p \<open>0 < unat (n - tot)\<close> by linarith
qed

text \<open>
  The loop of \<open>readi\<close>. The result is the value returned, and the kernel memory \<open>kmem\<close> of the
  destination after the reads; for a user destination the bytes are in the memory of the machine.
\<close>

function readi_loop :: "('a fs_st_scheme) page_source \<Rightarrow> nat \<Rightarrow> bool \<Rightarrow> u64 \<Rightarrow> bytes \<Rightarrow> u32 \<Rightarrow> u32 \<Rightarrow> u32 \<Rightarrow>
    'a fs_st_scheme \<Rightarrow> (int \<times> bytes, 'a fs_st_scheme) outcome" where
  "readi_loop ap ip user_dst dst kmem off n tot s =
     (if tot < n then
        bnd (bmap ip (off div of_nat BSIZE) s) (\<lambda>addr s.
        if addr = 0 then Ok (sint tot, kmem) s
        else bnd (bread (i_dev (inodes s ip)) addr s) (\<lambda>bp s.
          let m = block_chunk off (n - tot)
          in bnd (either_copyout ap user_dst dst (take (unat m) (drop (unat off mod BSIZE) (buf_data bp s))) kmem s) (\<lambda>(r, kmem) s.
             if r = - 1 then bnd (brelse bp s) (\<lambda>_ s. Ok (- 1, kmem) s)
             else bnd (brelse bp s) (\<lambda>_ s.
               readi_loop ap ip user_dst (dst + ucast m) kmem (off + m) n (tot + m) s))))
      else Ok (sint tot, kmem) s)"
  by pat_completeness auto

termination
  by (relation "measure (\<lambda>(ap, ip, user_dst, dst, kmem, off, n, tot, s). unat (n - tot))")
    (simp_all add: block_chunk_progress)

declare readi_loop.simps [simp del]

definition readi :: "('a fs_st_scheme) page_source \<Rightarrow> nat \<Rightarrow> bool \<Rightarrow> u64 \<Rightarrow> bytes \<Rightarrow> u32 \<Rightarrow> u32 \<Rightarrow> 'a fs_st_scheme \<Rightarrow>
    (int \<times> bytes, 'a fs_st_scheme) outcome" where
  "readi ap ip user_dst dst kmem off n s =
     (let size = i_size (inodes s ip)
      in if off > size \<or> off + n < off then Ok (0, kmem) s
         else let n = (if off + n > size then size - off else n)
              in readi_loop ap ip user_dst dst kmem off n 0 s)"

text \<open>
  The loop of \<open>writei\<close>; \<open>ksrc\<close> holds the bytes of a kernel source. A copy from user memory that
  fails half-way has already changed the first bytes of the buffer.
\<close>

function writei_loop :: "('a fs_st_scheme) page_source \<Rightarrow> nat \<Rightarrow> bool \<Rightarrow> u64 \<Rightarrow> u8 list \<Rightarrow> u32 \<Rightarrow> u32 \<Rightarrow> u32 \<Rightarrow>
    'a fs_st_scheme \<Rightarrow> (u32 \<times> u32, 'a fs_st_scheme) outcome" where
  "writei_loop ap ip user_src src ksrc off n tot s =
     (if tot < n then
        bnd (bmap ip (off div of_nat BSIZE) s) (\<lambda>addr s.
        if addr = 0 then Ok (tot, off) s
        else bnd (bread (i_dev (inodes s ip)) addr s) (\<lambda>bp s.
          let m = block_chunk off (n - tot)
          in bnd (either_copyin ap user_src src ksrc (unat m) s) (\<lambda>(r, xs) s.
             let s = set_data bp (put_bytes (unat off mod BSIZE) xs (buf_data bp s)) s
             in if r = - 1 then bnd (brelse bp s) (\<lambda>_ s. Ok (tot, off) s)
                else bnd (log_write bp s) (\<lambda>_ s.
                  bnd (brelse bp s) (\<lambda>_ s.
                  writei_loop ap ip user_src (src + ucast m) (drop (unat m) ksrc) (off + m) n (tot + m) s)))))
      else Ok (tot, off) s)"
  by pat_completeness auto

termination
  by (relation "measure (\<lambda>(ap, ip, user_src, src, ksrc, off, n, tot, s). unat (n - tot))")
    (simp_all add: block_chunk_progress)

declare writei_loop.simps [simp del]

definition writei :: "('a fs_st_scheme) page_source \<Rightarrow> nat \<Rightarrow> bool \<Rightarrow> u64 \<Rightarrow> u8 list \<Rightarrow> u32 \<Rightarrow> u32 \<Rightarrow>
    'a fs_st_scheme \<Rightarrow> (int, 'a fs_st_scheme) outcome" where
  "writei ap ip user_src src ksrc off n s =
     (if off > i_size (inodes s ip) \<or> off + n < off then Ok (- 1) s
      else if off + n > of_nat (MAXFILE * BSIZE) then Ok (- 1) s
      else bnd (writei_loop ap ip user_src src ksrc off n 0 s) (\<lambda>(tot, off) s.
        let s = (if off > i_size (inodes s ip) then set_inode ip (\<lambda>x. x\<lparr>i_size := off\<rparr>) s else s)
        in bnd (iupdate ip s) (\<lambda>_ s. Ok (sint tot) s)))"

section \<open>Directories\<close>

text \<open>\<open>strncmp\<close> of two byte lists, which end with a zero: the bytes from there on do not count.\<close>

fun strncmp_bytes :: "nat \<Rightarrow> u8 list \<Rightarrow> u8 list \<Rightarrow> int" where
  "strncmp_bytes 0 p q = 0"
| "strncmp_bytes (Suc n) p q =
     (let a = (case p of [] \<Rightarrow> 0 | x # _ \<Rightarrow> x); b = (case q of [] \<Rightarrow> 0 | x # _ \<Rightarrow> x)
      in if a \<noteq> 0 \<and> a = b then strncmp_bytes n (tl p) (tl q) else uint a - uint b)"

definition namecmp :: "u8 list \<Rightarrow> u8 list \<Rightarrow> int" where
  "namecmp s t = strncmp_bytes DIRSIZ s t"

text \<open>\<open>struct dirent\<close>: two bytes for the inode number, then \<open>DIRSIZ\<close> bytes of name.\<close>

definition de_inum :: "u8 list \<Rightarrow> u16" where "de_inum de = get16 0 de"
definition de_name :: "u8 list \<Rightarrow> u8 list" where "de_name de = take DIRSIZ (drop 2 de)"

text \<open>
  The destination of a read into a local variable of the caller: a memory of its own, with the variable
  at address 0. Its bytes are indeterminate before the read, and 0 here; the callers look at them only
  after a read of all of them.
\<close>

definition auto_object :: bytes where
  "auto_object = (\<lambda>_. 0)"

definition dirent_offs :: "nat \<Rightarrow> 'a fs_st_scheme \<Rightarrow> u32 list" where
  "dirent_offs dp s = map (\<lambda>k. of_nat (16 * k)) [0..<(unat (i_size (inodes s dp)) + 15) div 16]"

fun dirlookup_loop :: "('a fs_st_scheme) page_source \<Rightarrow> nat \<Rightarrow> u8 list \<Rightarrow> u32 list \<Rightarrow> 'a fs_st_scheme \<Rightarrow>
    ((nat \<times> u32) option, 'a fs_st_scheme) outcome" where
  "dirlookup_loop ap dp name [] s = Ok None s"
| "dirlookup_loop ap dp name (off # offs) s =
     bnd (readi ap dp False 0 auto_object off 16 s) (\<lambda>(r, km) s.
     let de = load_bytes km 0 16 in
     if r \<noteq> 16 then Panic ''dirlookup read''
     else if de_inum de = 0 then dirlookup_loop ap dp name offs s
     else if namecmp name (de_name de) = 0 then
       bnd (iget (i_dev (inodes s dp)) (ucast (de_inum de)) s) (\<lambda>ip s. Ok (Some (ip, off)) s)
     else dirlookup_loop ap dp name offs s)"

definition dirlookup :: "('a fs_st_scheme) page_source \<Rightarrow> nat \<Rightarrow> u8 list \<Rightarrow> 'a fs_st_scheme \<Rightarrow>
    ((nat \<times> u32) option, 'a fs_st_scheme) outcome" where
  "dirlookup ap dp name s =
     (if i_type (inodes s dp) \<noteq> T_DIR then Panic ''dirlookup not DIR''
      else dirlookup_loop ap dp name (dirent_offs dp s) s)"

text \<open>The search for a free entry: its offset, or the end of the directory.\<close>

fun dirlink_find :: "('a fs_st_scheme) page_source \<Rightarrow> nat \<Rightarrow> u32 list \<Rightarrow> 'a fs_st_scheme \<Rightarrow>
    (u32, 'a fs_st_scheme) outcome" where
  "dirlink_find ap dp [] s = Ok (of_nat (16 * ((unat (i_size (inodes s dp)) + 15) div 16))) s"
| "dirlink_find ap dp (off # offs) s =
     bnd (readi ap dp False 0 auto_object off 16 s) (\<lambda>(r, km) s.
     let de = load_bytes km 0 16 in
     if r \<noteq> 16 then Panic ''dirlink read''
     else if de_inum de = 0 then Ok off s
     else dirlink_find ap dp offs s)"

definition dirent_name :: "u8 list \<Rightarrow> u8 list" where
  "dirent_name name = (let xs = take DIRSIZ (takeWhile (\<lambda>x. x \<noteq> 0) name) in xs @ replicate (DIRSIZ - length xs) 0)"

definition dirlink :: "('a fs_st_scheme) page_source \<Rightarrow> nat \<Rightarrow> u8 list \<Rightarrow> u32 \<Rightarrow> 'a fs_st_scheme \<Rightarrow>
    (int, 'a fs_st_scheme) outcome" where
  "dirlink ap dp name inum s =
     bnd (dirlookup ap dp name s) (\<lambda>r s.
     case r of
       Some (ip, _) \<Rightarrow> bnd (iput ip s) (\<lambda>_ s. Ok (- 1) s)
     | None \<Rightarrow>
         bnd (dirlink_find ap dp (dirent_offs dp s) s) (\<lambda>off s.
         bnd (writei ap dp False 0 (bytes_of_word 2 (ucast inum :: u16) @ dirent_name name) off 16 s) (\<lambda>r s.
         Ok (if r \<noteq> 16 then - 1 else 0) s)))"

section \<open>Paths\<close>

definition slash :: u8 where "slash = 47"

text \<open>
  \<open>skipelem\<close>: the rest of the path, and the buffer \<open>name\<close> after the copy. An element of
  \<open>DIRSIZ\<close> or more bytes fills the buffer without a terminating zero.
\<close>

definition skipelem :: "u8 list \<Rightarrow> u8 list \<Rightarrow> (u8 list \<times> u8 list) option" where
  "skipelem path name =
     (let path = dropWhile (\<lambda>x. x = slash) path
      in if path = [] then None
         else let s = takeWhile (\<lambda>x. x \<noteq> slash) path;
                  name = (if length s \<ge> DIRSIZ then put_bytes 0 (take DIRSIZ s) name else put_bytes 0 (s @ [0]) name)
              in Some (dropWhile (\<lambda>x. x = slash) (dropWhile (\<lambda>x. x \<noteq> slash) path), name))"

lemma length_dropWhile_less: "xs \<noteq> [] \<Longrightarrow> P (hd xs) \<Longrightarrow> length (dropWhile P xs) < length xs"
  by (cases xs) (simp_all add: length_dropWhile_le le_imp_less_Suc)

lemma skipelem_shorter:
  assumes "skipelem path name = Some (path', name')"
  shows "length path' < length path"
proof -
  let ?p = "dropWhile (\<lambda>x. x = slash) path"
  have p: "?p \<noteq> []" "path' = dropWhile (\<lambda>x. x = slash) (dropWhile (\<lambda>x. x \<noteq> slash) ?p)"
    using assms by (auto simp: skipelem_def Let_def split: if_splits)
  then have "length (dropWhile (\<lambda>x. x \<noteq> slash) ?p) < length ?p"
    using hd_dropWhile [of "\<lambda>x. x = slash" path] by (intro length_dropWhile_less) auto
  moreover have "length path' \<le> length (dropWhile (\<lambda>x. x \<noteq> slash) ?p)" unfolding p(2) by (rule length_dropWhile_le)
  moreover have "length ?p \<le> length path" by (rule length_dropWhile_le)
  ultimately show ?thesis by linarith
qed

text \<open>The loop of \<open>namex\<close>; the result has the inode and the last element copied to \<open>name\<close>.\<close>

function namex_loop :: "('a fs_st_scheme) page_source \<Rightarrow> u8 list \<Rightarrow> bool \<Rightarrow> u8 list \<Rightarrow> nat \<Rightarrow> 'a fs_st_scheme \<Rightarrow>
    (nat option \<times> u8 list, 'a fs_st_scheme) outcome" where
  "namex_loop ap path nameiparent name ip s =
     (case skipelem path name of
        None \<Rightarrow> if nameiparent then bnd (iput ip s) (\<lambda>_ s. Ok (None, name) s) else Ok (Some ip, name) s
      | Some (path', name') \<Rightarrow>
          bnd (ilock (Some ip) s) (\<lambda>_ s.
          if i_type (inodes s ip) \<noteq> T_DIR then bnd (iunlockput ip s) (\<lambda>_ s. Ok (None, name') s)
          else if nameiparent \<and> path' = [] then bnd (iunlock (Some ip) s) (\<lambda>_ s. Ok (Some ip, name') s)
          else bnd (dirlookup ap ip name' s) (\<lambda>r s.
            case r of
              None \<Rightarrow> bnd (iunlockput ip s) (\<lambda>_ s. Ok (None, name') s)
            | Some (nxt, _) \<Rightarrow> bnd (iunlockput ip s) (\<lambda>_ s. namex_loop ap path' nameiparent name' nxt s))))"
  by pat_completeness auto

termination
  by (relation "measure (\<lambda>(ap, path, nameiparent, name, ip, s). length path)") (auto dest: skipelem_shorter)

declare namex_loop.simps [simp del]

definition namex :: "('a fs_st_scheme) page_source \<Rightarrow> u8 list \<Rightarrow> bool \<Rightarrow> u8 list \<Rightarrow> 'a fs_st_scheme \<Rightarrow>
    (nat option \<times> u8 list, 'a fs_st_scheme) outcome" where
  "namex ap path nameiparent name s =
     bnd (if take 1 path = [slash] then iget ROOTDEV ROOTINO s
          else bnd (this_proc_deref s) (\<lambda>p s. deref (p_cwd (procs s p)) (\<lambda>ip. idup ip s))) (\<lambda>ip s.
     namex_loop ap path nameiparent name ip s)"

text \<open>The buffer \<open>name\<close> on the stack of \<open>namei\<close> has no defined contents; zeros stand for them.\<close>

definition namei :: "('a fs_st_scheme) page_source \<Rightarrow> u8 list \<Rightarrow> 'a fs_st_scheme \<Rightarrow> (nat option, 'a fs_st_scheme) outcome" where
  "namei ap path s = bnd (namex ap path False (replicate DIRSIZ 0) s) (\<lambda>(ip, _) s. Ok ip s)"

definition nameiparent :: "('a fs_st_scheme) page_source \<Rightarrow> u8 list \<Rightarrow> u8 list \<Rightarrow> 'a fs_st_scheme \<Rightarrow>
    (nat option \<times> u8 list, 'a fs_st_scheme) outcome" where
  "nameiparent ap path name s = namex ap path True name s"

end
