(* ===== verification/Ring_Buffer.thy ===== *)
theory Ring_Buffer
  imports Prelude
begin

text \<open>
  The output buffer of \<open>printk\<close>: \<open>kernel/printk/ring_buffer.c\<close> and the structure
  \<open>ring_buf_t\<close> of \<open>kernel/printk/internal.h\<close>. The function pointer \<open>out_func\<close> is
  represented by what it is called with: \<open>rb_out\<close> is the sequence of bytes handed to it so
  far. Indices are natural numbers; the invariant \<open>ring_wf\<close> keeps them below the capacity,
  so the wrap-around of \<open>size_t\<close> is never reached.
\<close>

section \<open>State and operations\<close>

abbreviation (input) MAX_RING_BUF_SIZE :: nat where "MAX_RING_BUF_SIZE \<equiv> 64"

record ring_buf =
  rb_buffer :: "u8 list"
  rb_head :: nat
  rb_tail :: nat
  rb_full :: bool
  rb_out :: "u8 list"

definition ring_buf_empty :: "ring_buf \<Rightarrow> bool" where
  "ring_buf_empty r \<longleftrightarrow> rb_head r = rb_tail r \<and> \<not> rb_full r"

definition ring_buf_is_full :: "ring_buf \<Rightarrow> bool" where
  "ring_buf_is_full r \<longleftrightarrow> rb_head r = rb_tail r \<and> rb_full r"

definition ring_buf_capacity :: "ring_buf \<Rightarrow> nat" where
  "ring_buf_capacity r = MAX_RING_BUF_SIZE"

definition ring_buf_size :: "ring_buf \<Rightarrow> nat" where
  "ring_buf_size r =
     (if rb_tail r < rb_head r then rb_tail r + ring_buf_capacity r - rb_head r
      else rb_tail r - rb_head r)"

text \<open>The loop \<open>while (!ring_buf_empty(rbuf) && len--)\<close>; its body calls \<open>out_func\<close>.\<close>

fun ring_buf_flush_loop :: "nat \<Rightarrow> ring_buf \<Rightarrow> ring_buf" where
  "ring_buf_flush_loop len r =
     (if ring_buf_empty r then r
      else case len of
        0 \<Rightarrow> r
      | Suc len' \<Rightarrow>
          ring_buf_flush_loop len'
            (r\<lparr>rb_out := rb_out r @ [rb_buffer r ! rb_head r],
               rb_head := Suc (rb_head r) mod ring_buf_capacity r\<rparr>))"

definition ring_buf_flush_part :: "ring_buf \<Rightarrow> nat \<Rightarrow> ring_buf" where
  "ring_buf_flush_part r len = (ring_buf_flush_loop len r)\<lparr>rb_full := False\<rparr>"

definition ring_buf_reset :: "ring_buf \<Rightarrow> ring_buf" where
  "ring_buf_reset r = r\<lparr>rb_head := 0, rb_tail := 0, rb_full := False\<rparr>"

text \<open>\<open>ring_buf_init\<close> also installs the output function, which has produced nothing yet.\<close>

definition ring_buf_init :: "ring_buf \<Rightarrow> ring_buf" where
  "ring_buf_init r = (ring_buf_reset r)\<lparr>rb_out := []\<rparr>"

definition ring_buf_put :: "ring_buf \<Rightarrow> u8 \<Rightarrow> ring_buf" where
  "ring_buf_put r data =
     (let r = (if ring_buf_is_full r then ring_buf_flush_part r (ring_buf_capacity r div 4) else r);
          r = r\<lparr>rb_buffer := (rb_buffer r)[rb_tail r := data], rb_tail := Suc (rb_tail r)\<rparr>;
          r = r\<lparr>rb_tail := rb_tail r mod ring_buf_capacity r\<rparr>
      in if rb_tail r = rb_head r then r\<lparr>rb_full := True\<rparr> else r)"

definition ring_buf_flush :: "ring_buf \<Rightarrow> ring_buf" where
  "ring_buf_flush r = ring_buf_flush_part r (ring_buf_size r)"

section \<open>Contents and invariant\<close>

definition ring_count :: "ring_buf \<Rightarrow> nat" where
  "ring_count r = (if ring_buf_is_full r then 64
     else if rb_head r \<le> rb_tail r then rb_tail r - rb_head r
     else rb_tail r + 64 - rb_head r)"

definition ring_seg :: "ring_buf \<Rightarrow> nat \<Rightarrow> u8 list" where
  "ring_seg r n = map (\<lambda>i. rb_buffer r ! ((rb_head r + i) mod 64)) [0..<n]"

definition ring_contents :: "ring_buf \<Rightarrow> u8 list" where
  "ring_contents r = ring_seg r (ring_count r)"

definition ring_wf :: "ring_buf \<Rightarrow> bool" where
  "ring_wf r \<longleftrightarrow> length (rb_buffer r) = 64 \<and> rb_head r < 64 \<and> rb_tail r < 64 \<and>
     (rb_full r \<longrightarrow> rb_head r = rb_tail r)"

lemmas ring_defs = ring_buf_empty_def ring_buf_is_full_def ring_buf_capacity_def ring_buf_size_def

declare ring_buf_flush_loop.simps [simp del]

lemma ring_count_le: "ring_wf r \<Longrightarrow> ring_count r \<le> 64"
  by (auto simp: ring_count_def ring_wf_def)

lemma mod64: "x < 128 \<Longrightarrow> x mod 64 = (if x < 64 then x else x - 64)" for x :: nat
  by (simp add: le_mod_geq)

lemma ring_succ_cases:
  assumes "t < (64::nat)"
  obtains "Suc t mod 64 = 0" "t = 63" | "Suc t mod 64 = Suc t" "t < 63"
  using assms by (cases "t = 63") auto

lemma ring_succ_arith:
  fixes h t :: nat
  assumes "h < 64" "t < 64"
  shows "(if Suc t mod 64 = h then 64
       else if h \<le> Suc t mod 64 then Suc t mod 64 - h else Suc t mod 64 + 64 - h) =
     Suc (if h \<le> t then t - h else t + 64 - h)"
  using assms(2) by (cases rule: ring_succ_cases) (use assms in auto)

lemma ring_empty_count: "ring_wf r \<Longrightarrow> ring_buf_empty r \<longleftrightarrow> ring_count r = 0"
  by (auto simp: ring_wf_def ring_count_def ring_defs)

lemma length_ring_seg [simp]: "length (ring_seg r n) = n"
  by (simp add: ring_seg_def)

lemma ring_seg_append:
  assumes "rb_buffer r' = rb_buffer r" "rb_head r' = (rb_head r + m) mod 64"
  shows "ring_seg r (m + n) = ring_seg r m @ ring_seg r' n"
proof (rule nth_equalityI)
  fix i assume i: "i < length (ring_seg r (m + n))"
  show "ring_seg r (m + n) ! i = (ring_seg r m @ ring_seg r' n) ! i"
  proof (cases "i < m")
    case False
    then have "[0..<n] ! (i - m) = i - m" using i by simp
    with False i assms show ?thesis
      by (simp add: ring_seg_def nth_append mod_add_left_eq del: upt_Suc)
  qed (use i in \<open>simp add: ring_seg_def nth_append del: upt_Suc\<close>)
qed simp

lemma ring_seg_1: "rb_head r < 64 \<Longrightarrow> ring_seg r (Suc 0) = [rb_buffer r ! rb_head r]"
  by (simp add: ring_seg_def)

text \<open>Emitting no more bytes than the buffer holds emits exactly a prefix of its contents.\<close>

lemma ring_buf_flush_loop_eq:
  assumes "rb_head r < 64" "rb_tail r < 64" "n \<le> ring_count r"
  shows "ring_buf_flush_loop n r =
    r\<lparr>rb_head := (rb_head r + n) mod 64, rb_out := rb_out r @ ring_seg r n\<rparr>"
  using assms
proof (induction n arbitrary: r)
  case 0
  then show ?case
    by (subst ring_buf_flush_loop.simps) (simp add: ring_seg_def)
next
  case (Suc n)
  let ?r = "r\<lparr>rb_out := rb_out r @ [rb_buffer r ! rb_head r], rb_head := Suc (rb_head r) mod 64\<rparr>"
  have ne: "\<not> ring_buf_empty r"
    using Suc.prems by (auto simp: ring_defs ring_count_def split: if_splits)
  have "n \<le> ring_count ?r"
    using Suc.prems by (auto simp: ring_defs ring_count_def mod_Suc split: if_splits)
  then have IH: "ring_buf_flush_loop n ?r =
      ?r\<lparr>rb_head := (rb_head ?r + n) mod 64, rb_out := rb_out ?r @ ring_seg ?r n\<rparr>"
    using Suc.prems by (intro Suc.IH) simp_all
  have "ring_seg r (Suc n) = rb_buffer r ! rb_head r # ring_seg ?r n"
    using Suc.prems ring_seg_append [of ?r r "Suc 0" n] by (simp add: ring_seg_1)
  then show ?case
    using ne by (subst ring_buf_flush_loop.simps) (simp add: IH ring_buf_capacity_def mod_add_left_eq)
qed

text \<open>The invariant holds after initialisation and is kept by every operation.\<close>

lemma ring_wf_init: "length (rb_buffer r) = 64 \<Longrightarrow> ring_wf (ring_buf_init r)"
  by (simp add: ring_wf_def ring_buf_init_def ring_buf_reset_def)

lemma ring_contents_init: "ring_contents (ring_buf_init r) = []"
  by (simp add: ring_contents_def ring_seg_def ring_count_def ring_buf_init_def
      ring_buf_reset_def ring_defs)

lemma ring_buf_flush_part_eq:
  assumes "ring_wf r" "n \<le> ring_count r"
  shows "ring_buf_flush_part r n =
    r\<lparr>rb_head := (rb_head r + n) mod 64, rb_out := rb_out r @ ring_seg r n, rb_full := False\<rparr>"
  using assms by (simp add: ring_buf_flush_part_def ring_buf_flush_loop_eq ring_wf_def)

text \<open>Flushing 16 bytes out of a full buffer leaves the other 48.\<close>

lemma ring_flush_full:
  assumes "ring_wf r" "ring_buf_is_full r"
  defines "r' \<equiv> ring_buf_flush_part r (ring_buf_capacity r div 4)"
  shows "ring_wf r'" "ring_count r' = 48" "\<not> ring_buf_is_full r'"
    "rb_out r' @ ring_contents r' = rb_out r @ ring_contents r"
proof -
  have c: "ring_count r = 64"
    using assms(2) by (simp add: ring_count_def)
  have r': "r' = r\<lparr>rb_head := (rb_head r + 16) mod 64, rb_out := rb_out r @ ring_seg r 16,
      rb_full := False\<rparr>"
    unfolding r'_def using assms(1) c
    by (simp add: ring_buf_flush_part_eq ring_buf_capacity_def)
  show "ring_wf r'" "\<not> ring_buf_is_full r'"
    using assms(1) by (simp_all add: r' ring_wf_def ring_defs)
  show n: "ring_count r' = 48"
    using assms(1,2) by (auto simp: r' ring_count_def ring_wf_def ring_defs mod64)
  have "ring_seg r 64 = ring_seg r 16 @ ring_seg r' 48"
    using ring_seg_append [of r' r 16 48] by (simp add: r')
  then show "rb_out r' @ ring_contents r' = rb_out r @ ring_contents r"
    by (simp add: ring_contents_def c n) (simp add: r')
qed

lemma ring_slot:
  assumes "ring_wf r" "i < ring_count r"
  shows "(rb_head r + i) mod 64 \<noteq> rb_tail r \<or> ring_buf_is_full r \<and> i = 0"
  using assms by (auto simp: ring_wf_def ring_count_def ring_defs mod64 split: if_splits)

lemma ring_tail_slot: "ring_wf r \<Longrightarrow> (rb_head r + ring_count r) mod 64 = rb_tail r"
  by (auto simp: ring_wf_def ring_count_def ring_defs)

lemma ring_put_eq:
  assumes "\<not> ring_buf_is_full r"
  shows "ring_buf_put r d = r\<lparr>rb_buffer := (rb_buffer r)[rb_tail r := d],
    rb_tail := Suc (rb_tail r) mod 64,
    rb_full := (rb_full r \<or> Suc (rb_tail r) mod 64 = rb_head r)\<rparr>"
  using assms by (simp add: ring_buf_put_def ring_buf_capacity_def Let_def)

text \<open>A put into a buffer with room appends one byte and emits nothing.\<close>

lemma ring_put_room:
  assumes "ring_wf r" "\<not> ring_buf_is_full r"
  shows "ring_wf (ring_buf_put r d)" "ring_count (ring_buf_put r d) = Suc (ring_count r)"
    "rb_out (ring_buf_put r d) = rb_out r"
    "ring_contents (ring_buf_put r d) = ring_contents r @ [d]"
proof -
  let ?r = "ring_buf_put r d"
  have nf: "\<not> rb_full r"
    using assms by (auto simp: ring_wf_def ring_defs)
  show "ring_wf ?r" "rb_out ?r = rb_out r"
    using assms nf by (auto simp: ring_put_eq ring_wf_def)
  show c: "ring_count ?r = Suc (ring_count r)"
  proof -
    have "h < 64" "t < 64" if "h = rb_head r" "t = rb_tail r" for h t
      using assms(1) that by (simp_all add: ring_wf_def)
    moreover have "ring_count r = (if rb_head r \<le> rb_tail r then rb_tail r - rb_head r
        else rb_tail r + 64 - rb_head r)"
      using assms(2) by (simp add: ring_count_def)
    moreover have "ring_count ?r = (if Suc (rb_tail r) mod 64 = rb_head r then 64
        else if rb_head r \<le> Suc (rb_tail r) mod 64 then Suc (rb_tail r) mod 64 - rb_head r
        else Suc (rb_tail r) mod 64 + 64 - rb_head r)"
      using nf by (simp add: ring_put_eq [OF assms(2)] ring_count_def ring_buf_is_full_def)
    ultimately show ?thesis
      using ring_succ_arith [of "rb_head r" "rb_tail r"] by simp
  qed
  have h: "rb_head ?r = rb_head r" and b: "rb_buffer ?r = (rb_buffer r)[rb_tail r := d]"
    using assms(2) by (simp_all add: ring_put_eq)
  have "rb_tail r \<noteq> (rb_head r + i) mod 64" if "i < ring_count r" for i
    using ring_slot [OF assms(1) that] assms(2) by auto
  then have "ring_seg ?r (ring_count r) = ring_seg r (ring_count r)"
    by (simp add: ring_seg_def h b)
  moreover have "rb_tail r < length (rb_buffer r)"
    using assms(1) by (simp add: ring_wf_def)
  ultimately show "ring_contents ?r = ring_contents r @ [d]"
    unfolding ring_contents_def c
    using ring_tail_slot [OF assms(1)] by (simp add: ring_seg_def h b)
qed

lemma ring_put_count:
  assumes "ring_wf r"
  shows "ring_count (ring_buf_put r d) = (if ring_count r = 64 then 49 else Suc (ring_count r))"
proof (cases "ring_buf_is_full r")
  case True
  let ?f = "ring_buf_flush_part r (ring_buf_capacity r div 4)"
  have "ring_buf_put r d = ring_buf_put ?f d"
    using True ring_flush_full(3) [OF assms True] by (simp add: ring_buf_put_def ring_buf_capacity_def)
  then show ?thesis
    using True ring_flush_full [OF assms True] ring_put_room(2) [of ?f]
    by (simp add: ring_count_def [of r])
next
  case False
  then have "ring_count r \<noteq> 64"
    using assms by (auto simp: ring_wf_def ring_count_def)
  then show ?thesis using ring_put_room(2) [OF assms False] by simp
qed

lemma ring_full_iff: "ring_wf r \<Longrightarrow> ring_buf_is_full r \<longleftrightarrow> ring_count r = 64"
  by (auto simp: ring_wf_def ring_count_def)

lemma ring_put_stream:
  assumes "ring_wf r"
  shows "ring_wf (ring_buf_put r d)"
    "rb_out (ring_buf_put r d) @ ring_contents (ring_buf_put r d) =
       rb_out r @ ring_contents r @ [d]"
proof -
  let ?f = "ring_buf_flush_part r (ring_buf_capacity r div 4)"
  have "ring_wf (ring_buf_put r d) \<and> rb_out (ring_buf_put r d) @ ring_contents (ring_buf_put r d) =
       rb_out r @ ring_contents r @ [d]"
  proof (cases "ring_buf_is_full r")
    case True
    note F = ring_flush_full [OF assms True]
    have "ring_buf_put r d = ring_buf_put ?f d"
      using True F(3) by (simp add: ring_buf_put_def ring_buf_capacity_def)
    then show ?thesis
      using F(4) ring_put_room [OF F(1,3), of d] by simp
  next
    case False
    then show ?thesis using ring_put_room [OF assms False, of d] by simp
  qed
  then show "ring_wf (ring_buf_put r d)"
    "rb_out (ring_buf_put r d) @ ring_contents (ring_buf_put r d) = rb_out r @ ring_contents r @ [d]"
    by simp_all
qed

section \<open>Flushing\<close>

lemma ring_size_count: "ring_wf r \<Longrightarrow> \<not> ring_buf_is_full r \<Longrightarrow> ring_buf_size r = ring_count r"
  by (auto simp: ring_buf_size_def ring_count_def ring_buf_capacity_def)

lemma ring_flush_room:
  assumes "ring_wf r" "\<not> ring_buf_is_full r"
  shows "rb_out (ring_buf_flush r) = rb_out r @ ring_contents r"
    "ring_contents (ring_buf_flush r) = []" "ring_wf (ring_buf_flush r)"
proof -
  have f: "ring_buf_flush r = r\<lparr>rb_head := (rb_head r + ring_count r) mod 64,
      rb_out := rb_out r @ ring_seg r (ring_count r), rb_full := False\<rparr>"
    using assms by (simp add: ring_buf_flush_def ring_size_count ring_buf_flush_part_eq)
  show "rb_out (ring_buf_flush r) = rb_out r @ ring_contents r"
    by (simp add: f ring_contents_def)
  show "ring_wf (ring_buf_flush r)"
    using assms(1) by (simp add: f ring_wf_def)
  have "ring_count (ring_buf_flush r) = 0"
    using ring_tail_slot [OF assms(1)] by (simp add: f ring_count_def ring_buf_is_full_def)
  then show "ring_contents (ring_buf_flush r) = []"
    by (simp add: ring_contents_def ring_seg_def)
qed

text \<open>
  \<open>ring_buf_size\<close> does not look at \<open>full\<close>: on a full buffer it answers 0, so the flush
  emits nothing, clears \<open>full\<close> and so forgets all 64 bytes.
\<close>

lemma ring_flush_drops:
  assumes "ring_buf_is_full r"
  shows "ring_buf_flush r = r\<lparr>rb_full := False\<rparr>"
proof -
  have "ring_buf_size r = 0"
    using assms by (simp add: ring_buf_size_def ring_buf_is_full_def)
  then show ?thesis
    using assms unfolding ring_buf_flush_def ring_buf_flush_part_def
    by (subst ring_buf_flush_loop.simps) simp
qed

text \<open>A run of puts from an empty buffer, as \<open>vsprintf\<close> makes it.\<close>

definition ring_buf_puts :: "ring_buf \<Rightarrow> u8 list \<Rightarrow> ring_buf" where
  "ring_buf_puts r xs = foldl ring_buf_put r xs"

lemma ring_puts_Nil [simp]: "ring_buf_puts r [] = r"
  by (simp add: ring_buf_puts_def)

lemma ring_puts_snoc [simp]: "ring_buf_puts r (xs @ [x]) = ring_buf_put (ring_buf_puts r xs) x"
  by (simp add: ring_buf_puts_def)

lemma ring_puts_append: "ring_buf_puts r (xs @ ys) = ring_buf_puts (ring_buf_puts r xs) ys"
  by (simp add: ring_buf_puts_def)

lemma ring_puts_stream:
  assumes "ring_wf r"
  shows "ring_wf (ring_buf_puts r xs) \<and>
    rb_out (ring_buf_puts r xs) @ ring_contents (ring_buf_puts r xs) = rb_out r @ ring_contents r @ xs"
  using assms by (induction xs rule: rev_induct) (auto simp: ring_put_stream)

definition ring_level :: "nat \<Rightarrow> nat" where
  "ring_level n = (if n \<le> 64 then n else 49 + (n - 65) mod 16)"

lemma ring_level_0: "ring_level 0 = 0"
  by (simp add: ring_level_def)

lemma ring_level_Suc: "ring_level (Suc n) = (if ring_level n = 64 then 49 else Suc (ring_level n))"
proof (cases "n \<le> 64")
  case False
  then obtain k where n: "n = 65 + k"
    using nat_le_iff_add [of 65 n] by auto
  show ?thesis by (simp add: n ring_level_def mod_Suc)
qed (auto simp: ring_level_def)

lemma ring_level_full: "ring_level n = 64 \<longleftrightarrow> 64 \<le> n \<and> 16 dvd n - 64"
proof (cases "n \<le> 64")
  case False
  then obtain k where n: "n = 65 + k"
    using nat_le_iff_add [of 65 n] by auto
  have "k mod 16 = 15 \<longleftrightarrow> 16 dvd Suc k" by presburger
  then show ?thesis by (simp add: n ring_level_def)
qed (auto simp: ring_level_def)

lemma ring_puts_count:
  assumes "ring_wf r" "ring_count r = 0"
  shows "ring_count (ring_buf_puts r xs) = ring_level (length xs)"
  using assms
  by (induction xs rule: rev_induct)
     (simp_all add: ring_level_0 ring_put_count ring_puts_stream ring_level_Suc)

end
