(* ===== verification/Vsprintf.thy ===== *)
theory Vsprintf
  imports Ring_Buffer Spinlock
begin

text \<open>
  Formatted kernel output: \<open>kernel/printk/vsprintf.c\<close>, and the body of \<open>printk\<close> of \<open>kernel/printk/printk.c\<close>.
  Characters are emitted into a \<open>sink\<close>: the ring buffer of \<open>printk\<close>, or, when the buffer
  pointer is null, the console itself. A C string is the list of its bytes before the
  terminating zero. The variadic arguments are the list of 64-bit slots they arrive in, and
  \<open>str\<close> gives the string a pointer argument points to.
\<close>

section \<open>Characters and strings\<close>

datatype sink = Ring ring_buf | Direct "u8 list"

definition printk_char :: "sink \<Rightarrow> u8 \<Rightarrow> sink" where
  "printk_char out c = (case out of Ring r \<Rightarrow> Ring (ring_buf_put r c) | Direct cs \<Rightarrow> Direct (cs @ [c]))"

fun printk_pad :: "nat \<Rightarrow> u8 \<Rightarrow> sink \<Rightarrow> sink" where
  "printk_pad 0 padchar out = out"
| "printk_pad (Suc n) padchar out = printk_pad n padchar (printk_char out padchar)"

fun printk_chars :: "u8 list \<Rightarrow> sink \<Rightarrow> sink" where
  "printk_chars [] out = out"
| "printk_chars (c # cs) out = printk_chars cs (printk_char out c)"

abbreviation (input) PAD_ZERO :: u32 where "PAD_ZERO \<equiv> 1"
abbreviation (input) PAD_RIGHT :: u32 where "PAD_RIGHT \<equiv> 2"

text \<open>The three loops of \<open>__printk_str\<close>: padding on the left, the string, padding on the right.\<close>

definition printk_str :: "sink \<Rightarrow> u8 list \<Rightarrow> int \<Rightarrow> u32 \<Rightarrow> int \<times> sink" where
  "printk_str out str width flags =
     (let padchar = (if width > 0 \<and> flags AND PAD_ZERO \<noteq> 0 then 48 else 32);
          width = (if width > 0 then (if int (length str) \<ge> width then 0 else width - int (length str))
                   else width);
          left = (if flags AND PAD_RIGHT = 0 then nat width else 0);
          right = (if flags AND PAD_RIGHT = 0 then 0 else nat width);
          out = printk_pad left padchar out;
          out = printk_chars str out;
          out = printk_pad right padchar out
      in (int left + int (length str) + int right, out))"

section \<open>Integers\<close>

abbreviation (input) PRINT_BUF_LEN :: nat where "PRINT_BUF_LEN \<equiv> 64"

text \<open>
  The digit loop. \<open>pos\<close> is the index of \<open>s\<close> in \<open>print_buf\<close>; a store through \<open>*--s\<close> at
  index 0 is outside the array.
\<close>

fun printk_digits :: "nat \<Rightarrow> u64 \<Rightarrow> u64 \<Rightarrow> u8 \<Rightarrow> u8 list \<Rightarrow> (u8 list, nat) outcome" where
  "printk_digits pos u base letbase acc =
     (if u = 0 then Ok acc pos
      else case pos of
        0 \<Rightarrow> Undef ''store before print_buf''
      | Suc pos' \<Rightarrow>
          (let t = u mod base;
               c = (if t \<ge> 10 then ucast t + letbase - 10 else ucast t + 48)
           in printk_digits pos' (u div base) base letbase (c # acc)))"

declare printk_digits.simps [simp del]

text \<open>
  \<open>__printk_int\<close>. The negation \<open>u = -i\<close> is undefined in C for the least \<open>long long\<close>.
\<close>

definition printk_int ::
  "sink \<Rightarrow> u64 \<Rightarrow> u64 \<Rightarrow> bool \<Rightarrow> int \<Rightarrow> u32 \<Rightarrow> u8 \<Rightarrow> (int, sink) outcome" where
  "printk_int out i base sign width flags letbase =
     (if i = 0 then (let (pc, out) = printk_str out [48] width flags in Ok pc out)
      else let neg = (sign \<and> base = 10 \<and> sint i < 0)
      in if neg \<and> i = push_bit 63 1 then Undef ''negation of LLONG_MIN''
      else bnd (printk_digits (PRINT_BUF_LEN - 1) (if neg then - i else i) base letbase [])
        (\<lambda>s pos.
           if neg \<and> width \<noteq> 0 \<and> flags AND PAD_ZERO \<noteq> 0 then
             (let out = printk_char out 45;
                  (pc, out) = printk_str out s (width - 1) flags
              in Ok (1 + pc) out)
           else if neg then
             (if pos = 0 then Undef ''store before print_buf''
              else let (pc, out) = printk_str out (45 # s) width flags in Ok pc out)
           else (let (pc, out) = printk_str out s width flags in Ok pc out)))"

section \<open>Formats\<close>

text \<open>
  The union \<open>u\<close> of \<open>vsprintf\<close> is a 64-bit cell. Storing a member of \<open>n\<close> bits keeps the
  other bits, as the compilers the kernel is built with do; the language leaves them unspecified,
  which matters only to \<open>conv_short\<close>.
\<close>

record fmt_state =
  f_out :: sink
  f_pc :: int
  f_ap :: "u64 list"
  f_u :: u64

definition set_low :: "nat \<Rightarrow> u64 \<Rightarrow> u64 \<Rightarrow> u64" where
  "set_low n v u = (u AND NOT (mask n)) OR (v AND mask n)"

definition va_arg :: "fmt_state \<Rightarrow> (u64, fmt_state) outcome" where
  "va_arg st = (case f_ap st of [] \<Rightarrow> Undef ''va_arg'' | a # ap \<Rightarrow> Ok a (st\<lparr>f_ap := ap\<rparr>))"

text \<open>
  One integer conversion: a member of \<open>n\<close> bits is stored, and the member read back (\<open>rd\<close>)
  is printed.
\<close>

definition conv_int :: "nat \<Rightarrow> (u64 \<Rightarrow> u64) \<Rightarrow> u64 \<Rightarrow> bool \<Rightarrow> u8 \<Rightarrow> int \<Rightarrow> u32 \<Rightarrow> fmt_state \<Rightarrow>
    (unit, fmt_state) outcome" where
  "conv_int n rd base sign letbase width flags st =
     bnd (va_arg st) (\<lambda>a st.
       let u = set_low n a (f_u st)
       in bnd (printk_int (f_out st) (rd u) base sign width flags letbase) (\<lambda>pc out.
            Ok () (st\<lparr>f_u := u, f_out := out, f_pc := f_pc st + pc\<rparr>)))"

definition conv_char :: "int \<Rightarrow> u32 \<Rightarrow> fmt_state \<Rightarrow> (unit, fmt_state) outcome" where
  "conv_char width flags st =
     bnd (va_arg st) (\<lambda>a st.
       let u = set_low 8 a (f_u st);
           c = (ucast u :: u8);
           (pc, out) = printk_str (f_out st) (if c = 0 then [] else [c]) width flags
       in Ok () (st\<lparr>f_u := u, f_out := out, f_pc := f_pc st + pc\<rparr>))"

definition bytes_of :: "string \<Rightarrow> u8 list" where
  "bytes_of cs = map of_char cs"

definition conv_str :: "(u64 \<Rightarrow> u8 list) \<Rightarrow> int \<Rightarrow> u32 \<Rightarrow> fmt_state \<Rightarrow> (unit, fmt_state) outcome" where
  "conv_str str width flags st =
     bnd (va_arg st) (\<lambda>a st.
       let (pc, out) = printk_str (f_out st) (if a \<noteq> 0 then str a else bytes_of ''(null)'') width flags
       in Ok () (st\<lparr>f_u := a, f_out := out, f_pc := f_pc st + pc\<rparr>))"

text \<open>The conversions after \<open>%l\<close>, \<open>%ll\<close>, \<open>%h\<close> and \<open>%hh\<close>; an unknown letter is skipped.\<close>

definition conv_long :: "char \<Rightarrow> int \<Rightarrow> u32 \<Rightarrow> fmt_state \<Rightarrow> (unit, fmt_state) outcome" where
  "conv_long c width flags st =
     (if c = CHR ''d'' then conv_int 64 id 10 True 97 width flags st
      else if c = CHR ''u'' then conv_int 64 id 10 False 97 width flags st
      else if c = CHR ''x'' then conv_int 64 id 16 False 97 width flags st
      else if c = CHR ''X'' then conv_int 64 id 16 False 65 width flags st
      else Ok () st)"

text \<open>The unsigned short forms store \<open>u.hu\<close> or \<open>u.hhu\<close> and then print \<open>u.lli\<close>.\<close>

definition conv_short :: "nat \<Rightarrow> char \<Rightarrow> int \<Rightarrow> u32 \<Rightarrow> fmt_state \<Rightarrow> (unit, fmt_state) outcome" where
  "conv_short n c width flags st =
     (if c = CHR ''d'' then conv_int n (signed_take_bit (n - 1)) 10 True 97 width flags st
      else if c = CHR ''u'' then conv_int n id 10 False 97 width flags st
      else if c = CHR ''x'' then conv_int n id 16 False 97 width flags st
      else if c = CHR ''X'' then conv_int n id 16 False 65 width flags st
      else Ok () st)"

text \<open>
  The switch on the conversion letter. It returns what is left of the format. A format that
  ends inside a conversion makes the loop step over the terminating zero.
\<close>

definition convert :: "(u64 \<Rightarrow> u8 list) \<Rightarrow> string \<Rightarrow> int \<Rightarrow> u32 \<Rightarrow> fmt_state \<Rightarrow>
    (string, fmt_state) outcome" where
  "convert str f width flags st =
     (case f of
        [] \<Rightarrow> Undef ''format overrun''
      | c # f \<Rightarrow>
         if c = CHR ''d'' then bnd (conv_int 32 (signed_take_bit 31) 10 True 97 width flags st) (\<lambda>_. Ok f)
         else if c = CHR ''b'' then bnd (conv_int 32 (signed_take_bit 31) 2 True 97 width flags st) (\<lambda>_. Ok f)
         else if c = CHR ''u'' then bnd (conv_int 32 (take_bit 32) 10 False 97 width flags st) (\<lambda>_. Ok f)
         else if c = CHR ''p'' then bnd (conv_int 64 id 16 False 97 width flags st) (\<lambda>_. Ok f)
         else if c = CHR ''x'' then bnd (conv_int 32 (take_bit 32) 16 False 97 width flags st) (\<lambda>_. Ok f)
         else if c = CHR ''X'' then bnd (conv_int 32 (take_bit 32) 16 False 65 width flags st) (\<lambda>_. Ok f)
         else if c = CHR ''c'' then bnd (conv_char width flags st) (\<lambda>_. Ok f)
         else if c = CHR ''s'' then bnd (conv_str str width flags st) (\<lambda>_. Ok f)
         else if c = CHR ''l'' then
           (case f of
              [] \<Rightarrow> Undef ''format overrun''
            | c # f \<Rightarrow>
               if c = CHR ''l'' then
                 (case f of
                    [] \<Rightarrow> Undef ''format overrun''
                  | c # f \<Rightarrow> bnd (conv_long c width flags st) (\<lambda>_. Ok f))
               else bnd (conv_long c width flags st) (\<lambda>_. Ok f))
         else if c = CHR ''h'' then
           (case f of
              [] \<Rightarrow> Undef ''format overrun''
            | c # f \<Rightarrow>
               if c = CHR ''h'' then
                 (case f of
                    [] \<Rightarrow> Undef ''format overrun''
                  | c # f \<Rightarrow> bnd (conv_short 8 c width flags st) (\<lambda>_. Ok f))
               else bnd (conv_short 16 c width flags st) (\<lambda>_. Ok f))
         else Ok f st)"

lemma convert_shorter: "convert str f width flags st = Ok g st' \<Longrightarrow> length g < length f"
  by (auto simp: convert_def bnd_eq_Ok split: list.splits if_splits)

fun skip_zeros :: "string \<Rightarrow> u32 \<Rightarrow> string \<times> u32" where
  "skip_zeros (c # f) flags =
     (if c = CHR ''0'' then skip_zeros f (flags OR PAD_ZERO) else (c # f, flags))"
| "skip_zeros [] flags = ([], flags)"

fun read_width :: "string \<Rightarrow> int \<Rightarrow> string \<times> int" where
  "read_width (c # f) width =
     (let d = (of_char c :: int)
      in if 48 \<le> d \<and> d \<le> 57 then read_width f (width * 10 + (d - 48)) else (c # f, width))"
| "read_width [] width = ([], width)"

definition parse_width :: "string \<Rightarrow> fmt_state \<Rightarrow> (string \<times> int, fmt_state) outcome" where
  "parse_width f st =
     (case f of
        c # f' \<Rightarrow>
          if c = CHR ''*'' then bnd (va_arg st) (\<lambda>a st. Ok (f', sint (ucast a :: u32)) st)
          else Ok (read_width f 0) st
      | [] \<Rightarrow> Ok (read_width f 0) st)"

lemma skip_zeros_length: "length (fst (skip_zeros f flags)) \<le> length f"
  by (induction f flags rule: skip_zeros.induct) auto

lemma read_width_length: "length (fst (read_width f w)) \<le> length f"
  by (induction f w rule: read_width.induct) (auto simp: Let_def)

lemma parse_width_length: "parse_width f st = Ok (g, w) st' \<Longrightarrow> length g \<le> length f"
  using read_width_length [of f 0]
  by (auto simp: parse_width_def bnd_eq_Ok split: list.splits if_splits)

text \<open>The branch at the label \<open>out\<close>: one literal character, a newline as two.\<close>

definition put_literal :: "char \<Rightarrow> fmt_state \<Rightarrow> fmt_state" where
  "put_literal c st =
     (let out = (if c = CHR 0x0A then printk_char (f_out st) 13 else f_out st)
      in st\<lparr>f_out := printk_char out (of_char c), f_pc := f_pc st + 1\<rparr>)"

lemma vsprintf_shorter:
  assumes "(f1, flags) = (if hd f = CHR ''-'' then (tl f, k) else (f, 0))"
    "(f2, flags') = skip_zeros f1 flags" "parse_width f2 st = Ok r st1" "(f3, width) = r"
    "convert str f3 width flags' st2 = Ok f4 st3"
  shows "length f4 < Suc (length f)"
proof -
  have "length f1 \<le> length f"
    using assms(1) by (auto split: if_splits)
  moreover have "length f2 \<le> length f1"
    using skip_zeros_length [of f1 flags] assms(2) by (metis fst_conv)
  moreover have "length f3 \<le> length f2"
    using parse_width_length assms(3,4) by metis
  moreover have "length f4 < length f3"
    using assms(5) by (rule convert_shorter)
  ultimately show ?thesis by simp
qed

function vsprintf_loop :: "(u64 \<Rightarrow> u8 list) \<Rightarrow> string \<Rightarrow> fmt_state \<Rightarrow> (unit, fmt_state) outcome" where
  "vsprintf_loop str [] st = Ok () st"
| "vsprintf_loop str (c # f) st =
     (if c \<noteq> CHR ''%'' then vsprintf_loop str f (put_literal c st)
      else if f = [] then Ok () st
      else if hd f = CHR ''%'' then vsprintf_loop str (tl f) (put_literal (hd f) st)
      else
        let (f1, flags) = (if hd f = CHR ''-'' then (tl f, PAD_RIGHT) else (f, 0));
            (f2, flags) = skip_zeros f1 flags
        in bnd (parse_width f2 st) (\<lambda>(f3, width) st.
             bnd (convert str f3 width flags st) (\<lambda>f4 st. vsprintf_loop str f4 st)))"
  by pat_completeness auto
termination
  by (relation "measure (\<lambda>(str, f, st). length f)") (simp_all add: vsprintf_shorter)

definition vsprintf :: "(u64 \<Rightarrow> u8 list) \<Rightarrow> sink \<Rightarrow> string \<Rightarrow> u64 list \<Rightarrow> u64 \<Rightarrow> (int, sink) outcome" where
  "vsprintf str out f ap u0 =
     bnd (vsprintf_loop str f \<lparr>f_out = out, f_pc = 0, f_ap = ap, f_u = u0\<rparr>)
       (\<lambda>_ st. Ok (f_pc st) (case f_out st of Ring r \<Rightarrow> Ring (ring_buf_put r 0) | Direct cs \<Rightarrow> Direct cs))"

section \<open>\<open>printk\<close>\<close>

text \<open>
  The body of \<open>printk\<close>. The ring buffer is initialised with the routine that puts characters on the
  console: \<open>emit\<close> is what this routine does with the bytes that the ring hands to it, in their order.
  \<open>locking\<close> is \<open>pr.locking\<close>; \<open>junk\<close> and \<open>u0\<close> are the uninitialised stack bytes under the ring buffer and
  the union.
\<close>

definition printk_via :: "(u8 list \<Rightarrow> 'a machine_scheme \<Rightarrow> (unit, 'a machine_scheme) outcome) \<Rightarrow> bool \<Rightarrow> (u64 \<Rightarrow> u8 list) \<Rightarrow>
    ring_buf \<Rightarrow> u64 \<Rightarrow> string option \<Rightarrow> u64 list \<Rightarrow> 'a machine_scheme \<Rightarrow> (int, 'a machine_scheme) outcome" where
  "printk_via emit locking str junk u0 fmt ap s =
     (case fmt of
        None \<Rightarrow> Panic ''null fmt''
      | Some f \<Rightarrow>
          let ring = ring_buf_init junk
          in bnd (if locking then acquire PrLock s else Ok () s) (\<lambda>_ s.
             bnd (vsprintf str (Ring ring) f ap u0) (\<lambda>i out.
             bnd (case out of
                    Ring r \<Rightarrow> emit (rb_out (ring_buf_flush r)) s
                  | Direct cs \<Rightarrow> emit cs s) (\<lambda>_ s.
             bnd (if locking then release PrLock s else Ok () s) (\<lambda>_ s. Ok i s)))))"

section \<open>What is emitted\<close>

text \<open>The bytes that went through a sink: emitted ones, then those still buffered.\<close>

fun sink_ok :: "sink \<Rightarrow> bool" where
  "sink_ok (Ring r) = ring_wf r"
| "sink_ok (Direct cs) = True"

fun stream :: "sink \<Rightarrow> u8 list" where
  "stream (Ring r) = rb_out r @ ring_contents r"
| "stream (Direct cs) = cs"

lemma printk_char_stream [simp]:
  assumes "sink_ok out"
  shows "sink_ok (printk_char out c)" "stream (printk_char out c) = stream out @ [c]"
  using assms by (cases out; simp add: printk_char_def ring_put_stream)+

lemma printk_pad_stream [simp]:
  assumes "sink_ok out"
  shows "sink_ok (printk_pad n c out) \<and> stream (printk_pad n c out) = stream out @ replicate n c"
  using assms by (induction n c out rule: printk_pad.induct) (simp_all add: replicate_app_Cons_same)

lemma printk_chars_stream [simp]:
  assumes "sink_ok out"
  shows "sink_ok (printk_chars cs out) \<and> stream (printk_chars cs out) = stream out @ cs"
  using assms by (induction cs out rule: printk_chars.induct) simp_all

text \<open>The value a digit string denotes.\<close>

definition digit_val :: "u8 \<Rightarrow> u8 \<Rightarrow> nat" where
  "digit_val letbase c = (if unat c < 58 then unat c - 48 else unat c - unat letbase + 10)"

definition num_val :: "nat \<Rightarrow> u8 \<Rightarrow> u8 list \<Rightarrow> nat" where
  "num_val base letbase ds = foldl (\<lambda>v c. v * base + digit_val letbase c) 0 ds"

text \<open>The characters that are digits in a base.\<close>

definition is_digit :: "u64 \<Rightarrow> u8 \<Rightarrow> u8 \<Rightarrow> bool" where
  "is_digit base letbase c \<longleftrightarrow> (48 \<le> c \<and> c < 58 \<or> letbase \<le> c \<and> c < letbase + 6) \<and> digit_val letbase c < unat base"

lemma foldl_num: "foldl (\<lambda>v c. v * b + f c) a ds = a * b ^ length ds + foldl (\<lambda>v c. v * b + f c) (0::nat) ds"
proof (induction ds arbitrary: a)
  case (Cons d ds)
  show ?case using Cons [of "a * b + f d"] Cons [of "f d"] by (simp add: algebra_simps)
qed simp

lemma num_val_Cons: "num_val b l (c # ds) = digit_val l c * b ^ length ds + num_val b l ds"
  unfolding num_val_def by (simp add: foldl_num [of b _ "digit_val l c"])

lemma digit_char:
  fixes t :: u64
  assumes "unat t < 16" "letbase \<in> {97, 65}"
  defines "c \<equiv> (if t \<ge> 10 then ucast t + letbase - 10 else ucast t + 48 :: u8)"
  shows "digit_val letbase c = unat t" "c = 48 \<longleftrightarrow> t = 0" "48 \<le> c \<and> c < 58 \<or> letbase \<le> c \<and> c < letbase + 6"
proof -
  have "t = of_nat (unat t)" by simp
  then have "t \<in> of_nat ` set [0..<16]"
    using assms(1) by (metis atLeastLessThan_iff image_eqI le0 set_upt)
  then have t: "t \<in> {0,1,2,3,4,5,6,7,8,9,10,11,12,13,14,15}"
    by (simp add: upt_rec)
  show "digit_val letbase c = unat t"
    using t assms(2) by (auto simp: c_def digit_val_def word_le_nat_alt)
  show "c = 48 \<longleftrightarrow> t = 0"
    using t assms(2) by (auto simp: c_def word_le_nat_alt)
  show "48 \<le> c \<and> c < 58 \<or> letbase \<le> c \<and> c < letbase + 6"
    using t assms(2) by (auto simp: c_def word_le_nat_alt word_less_nat_alt)
qed

text \<open>
  The digit loop succeeds exactly when the number fits the room left of \<open>pos\<close>, and what it
  has written then denotes the number, with no leading zero.
\<close>

lemma printk_digits_step:
  "u \<noteq> 0 \<Longrightarrow> printk_digits (Suc pos) u base letbase acc =
     printk_digits pos (u div base) base letbase
       ((if u mod base \<ge> 10 then ucast (u mod base) + letbase - 10 else ucast (u mod base) + 48) # acc)"
  by (subst printk_digits.simps) (simp add: Let_def)

lemma printk_digits_ok:
  assumes "1 < unat base" "unat base \<le> 16" "letbase \<in> {97, 65}" "unat u < unat base ^ k" "k \<le> pos"
  shows "\<exists>ds. printk_digits pos u base letbase acc = Ok (ds @ acc) (pos - length ds) \<and>
    length ds \<le> k \<and> list_all (is_digit base letbase) ds \<and> num_val (unat base) letbase ds = unat u \<and> (u \<noteq> 0 \<longrightarrow> ds \<noteq> [] \<and> hd ds \<noteq> 48)"
  using assms(4,5)
proof (induction k arbitrary: u pos acc)
  case 0
  then have "u = 0" by (simp add: unat_0_iff)
  then show ?case by (subst printk_digits.simps) (simp add: num_val_def)
next
  case (Suc k)
  show ?case
  proof (cases "u = 0")
    case True
    then show ?thesis by (subst printk_digits.simps) (simp add: num_val_def)
  next
    case False
    obtain pos' where pos: "pos = Suc pos'" using Suc.prems(2) by (cases pos) auto
    define c where "c = (if u mod base \<ge> 10 then ucast (u mod base) + letbase - 10 else ucast (u mod base) + 48 :: u8)"
    have m: "unat (u mod base) = unat u mod unat base" and d: "unat (u div base) = unat u div unat base"
      by (simp_all add: unat_mod unat_div)
    have "unat u mod unat base < unat base" using assms(1) by simp
    then have "unat (u mod base) < 16" using assms(2) m by linarith
    then have c: "digit_val letbase c = unat (u mod base)" "c = 48 \<longleftrightarrow> u mod base = 0"
        "48 \<le> c \<and> c < 58 \<or> letbase \<le> c \<and> c < letbase + 6"
      unfolding c_def using assms(3) by (rule digit_char)+
    have "unat (u div base) < unat base ^ k"
      using Suc.prems(1) assms(1) by (simp add: d less_mult_imp_div_less mult.commute)
    then obtain ds where ds: "printk_digits pos' (u div base) base letbase (c # acc) =
        Ok (ds @ c # acc) (pos' - length ds)" "length ds \<le> k"
        "num_val (unat base) letbase ds = unat (u div base)"
        "u div base \<noteq> 0 \<longrightarrow> ds \<noteq> [] \<and> hd ds \<noteq> 48" "list_all (is_digit base letbase) ds"
      using Suc.IH [of "u div base" pos' "c # acc"] Suc.prems(2) pos by auto
    have val: "num_val (unat base) letbase (ds @ [c]) = unat u"
      using ds(3) by (simp add: num_val_def c(1) m d)
    have lead: "hd (ds @ [c]) \<noteq> 48"
    proof (cases "u div base = 0")
      case True
      then have "num_val (unat base) letbase ds = 0" using ds(3) by simp
      show ?thesis
      proof (cases ds)
        case Nil
        have "u mod base \<noteq> 0"
          using True False by (metis word_mod_div_equality add.right_neutral mult_zero_left)
        then show ?thesis using Nil c(2) by simp
      next
        case (Cons a ds')
        have "printk_digits pos' (u div base) base letbase (c # acc) = Ok (c # acc) pos'"
          using True by (subst printk_digits.simps) simp
        then show ?thesis using ds(1) Cons by simp
      qed
    qed (use ds(4) in simp)
    have "is_digit base letbase c" using c(1,3) m \<open>unat u mod unat base < unat base\<close> by (simp add: is_digit_def)
    then show ?thesis
      using printk_digits_step [OF False, of pos' base letbase acc] ds(1,2,5) val lead pos
      by (intro exI [of _ "ds @ [c]"]) (simp add: c_def)
  qed
qed

lemma printk_digits_overflow:
  assumes "1 < unat base" "unat base ^ pos \<le> unat u"
  shows "printk_digits pos u base letbase acc = Undef ''store before print_buf''"
  using assms(2)
proof (induction pos arbitrary: u acc)
  case 0
  then have "u \<noteq> 0" by auto
  then show ?case by (subst printk_digits.simps) simp
next
  case (Suc pos)
  have "0 < unat base ^ Suc pos" using assms(1) by simp
  with Suc.prems have "u \<noteq> 0" by (metis le_zero_eq not_gr0 unat_0)
  moreover have "unat base ^ pos \<le> unat (u div base)"
    using Suc.prems assms(1) by (simp add: unat_div less_eq_div_iff_mult_less_eq mult.commute)
  ultimately show ?case by (simp add: printk_digits_step Suc.IH)
qed

lemma printk_digits_full:
  assumes "base = 10 \<and> k = 20 \<or> base = 16 \<and> k = 16" "letbase \<in> {97, 65}"
  shows "\<exists>ds. printk_digits 63 u base letbase [] = Ok ds (63 - length ds) \<and>
    length ds \<le> k \<and> list_all (is_digit base letbase) ds \<and> num_val (unat base) letbase ds = unat u \<and> (u \<noteq> 0 \<longrightarrow> ds \<noteq> [] \<and> hd ds \<noteq> 48)"
proof -
  have "unat u < 2 ^ 64" using unsigned_less [of u, where ?'a = nat] by simp
  moreover have "2 ^ 64 \<le> unat base ^ k" using assms(1) by auto
  ultimately have "unat u < unat base ^ k" by simp
  then show ?thesis
    using assms printk_digits_ok [of base letbase u k 63 "[]"] by auto
qed

section \<open>Properties\<close>

text \<open>
  The text of a number: an optional minus sign and digits, most significant first, without a
  leading zero.
\<close>

definition denotes :: "u64 \<Rightarrow> u8 \<Rightarrow> u8 list \<Rightarrow> int \<Rightarrow> bool" where
  "denotes base letbase txt n \<longleftrightarrow>
     (\<exists>ds. txt = (if n < 0 then 45 # ds else ds) \<and> int (num_val (unat base) letbase ds) = \<bar>n\<bar> \<and> list_all (is_digit base letbase) ds \<and>
        ds \<noteq> [] \<and> (hd ds = 48 \<longrightarrow> ds = [48]))"

lemma denotes_zero: "0 < base \<Longrightarrow> denotes base letbase [48] 0"
  by (auto simp: denotes_def num_val_def digit_val_def is_digit_def word_less_nat_alt intro!: exI [of _ "[48]"])

text \<open>
  The text of a number with its padding: zeros go between the sign and the digits, blanks in front, and
  with \<open>PAD_RIGHT\<close> the padding goes behind, zeros included.
\<close>

definition padded :: "int \<Rightarrow> u32 \<Rightarrow> u8 list \<Rightarrow> u8 list \<Rightarrow> u8 list" where
  "padded width flags sg ds =
     (let k = nat (width - int (length (sg @ ds)))
      in if flags AND PAD_RIGHT \<noteq> 0 then sg @ ds @ replicate k (if flags AND PAD_ZERO \<noteq> 0 then 48 else 32)
         else if flags AND PAD_ZERO \<noteq> 0 then sg @ replicate k 48 @ ds
         else replicate k 32 @ sg @ ds)"

lemma printk_str_padded:
  assumes "sink_ok out" "t = padded width flags [] str"
  shows "\<exists>out'. printk_str out str width flags = (int (length t), out') \<and> sink_ok out' \<and> stream out' = stream out @ t"
  using assms by (auto simp: printk_str_def padded_def Let_def)

text \<open>
  C33. Printing and reading back integers. For every width and all flags, \<open>__printk_int\<close> in base 10 or
  16 emits the digits of its argument, taken as signed for a signed decimal conversion and as unsigned
  otherwise, with no leading zero and a minus sign where due, padded to the width with blanks in front,
  zeros behind the sign, or on the right, and returns the number of characters it emitted; for the least
  \<open>long long\<close> printed as signed the negation in the code is undefined, and that case is excluded.
\<close>

theorem printk_int_reads_back:
  assumes "base = 10 \<or> base = 16" "letbase \<in> {97, 65}" "sink_ok out"
    and "\<not> (sign \<and> base = 10 \<and> i = push_bit 63 1)"
  shows "runs (printk_int out i base sign width flags letbase)
    (\<lambda>pc out'. sink_ok out' \<and> (\<exists>sg ds. sg = (if sign \<and> base = 10 \<and> sint i < 0 then [45] else []) \<and>
       denotes base letbase (sg @ ds) (if sign \<and> base = 10 then sint i else uint i) \<and>
       stream out' = stream out @ padded width flags sg ds \<and> pc = int (length (padded width flags sg ds))))"
proof (cases "i = 0")
  case True
  obtain out' where "printk_str out [48] width flags = (int (length (padded width flags [] [48])), out')" "sink_ok out'"
      "stream out' = stream out @ padded width flags [] [48]"
    using printk_str_padded [OF assms(3) refl, of "[48]"] by auto
  moreover have "0 < base" using assms(1) by auto
  ultimately show ?thesis
    using True by (auto simp: printk_int_def intro!: exI [of _ "[48]"] denotes_zero)
next
  case False
  define neg where "neg = (sign \<and> base = 10 \<and> sint i < 0)"
  define u where "u = (if neg then - i else i)"
  define sg :: "u8 list" where "sg = (if neg then [45] else [])"
  have abs: "int (unat u) = \<bar>if sign \<and> base = 10 then sint i else uint i\<bar>"
    using sint_neg_64 [of i] sint_nonneg_64 [of i]
    by (cases neg) (auto simp: u_def neg_def)
  have "u \<noteq> 0" using False by (simp add: u_def)
  then obtain ds where ds: "printk_digits 63 u base letbase [] = Ok ds (63 - length ds)" "length ds \<le> 20"
      "num_val (unat base) letbase ds = unat u" "ds \<noteq> []" "hd ds \<noteq> 48" "list_all (is_digit base letbase) ds"
    using assms(1,2) printk_digits_full [of base 20 letbase u] printk_digits_full [of base 16 letbase u]
    by fastforce
  have den: "denotes base letbase (sg @ ds) (if sign \<and> base = 10 then sint i else uint i)"
    unfolding denotes_def using abs ds(3-6)
    by (intro exI [of _ ds]) (auto simp: neg_def sg_def)
  have ll: "\<not> (neg \<and> i = push_bit 63 1)" using assms(4) by (auto simp: neg_def)
  let ?P = "\<lambda>pc out'. sink_ok out' \<and> stream out' = stream out @ padded width flags sg ds \<and> pc = int (length (padded width flags sg ds))"
  have "runs (printk_int out i base sign width flags letbase) ?P"
  proof (cases "neg \<and> width \<noteq> 0 \<and> flags AND PAD_ZERO \<noteq> 0")
    case True
    have o: "sink_ok (printk_char out 45)" "stream (printk_char out 45) = stream out @ [45]" using assms(3) by simp_all
    have p: "padded width flags sg ds = 45 # padded (width - 1) flags [] ds" using True by (simp add: padded_def sg_def Let_def algebra_simps)
    show ?thesis
      using printk_str_padded [OF o(1) refl, of ds "width - 1" flags] True False ds(1) ll o(2)
      by (auto simp: printk_int_def neg_def [symmetric] u_def p)
  next
    case no: False
    have p: "padded width flags sg ds = padded width flags [] (sg @ ds)" using no by (auto simp: padded_def sg_def Let_def)
    show ?thesis
      using printk_str_padded [OF assms(3) refl, of "sg @ ds" width flags] no False ds(1,2) ll
      unfolding p by (auto simp: printk_int_def neg_def [symmetric] u_def sg_def)
  qed
  then show ?thesis unfolding neg_def [symmetric] sg_def [symmetric] by (rule runs_mono) (use den in blast)
qed

theorem printk_int_reads_back_witness:
  "sink_ok (Direct []) \<and> runs (printk_int (Direct []) (- 42) 10 True 6 1 97)
    (\<lambda>pc out'. sink_ok out' \<and> (\<exists>ds. denotes 10 97 (45 # ds) (- 42) \<and> stream out' = padded 6 1 [45] ds))"
proof -
  have "sint (- 42 :: u64) = - 42" by (simp add: sint_64 uint_word_ariths)
  then show ?thesis
    using printk_int_reads_back [of 10 97 "Direct []" True "- 42" 6 1] by (auto simp: push_bit_eq_mult elim!: runs_mono)
qed

lemma vsprintf_single:
  assumes "c \<noteq> CHR ''%''" "c \<noteq> CHR ''-''" "c \<noteq> CHR ''0''" "c \<noteq> CHR ''*''"
    "\<not> (48 \<le> (of_char c :: int) \<and> (of_char c :: int) \<le> 57)"
  shows "vsprintf_loop str (CHR ''%'' # c # f) st =
    bnd (convert str (c # f) 0 0 st) (\<lambda>f st. vsprintf_loop str f st)"
  using assms by (auto simp: parse_width_def Let_def)

lemma set_low_64 [simp]: "set_low 64 v u = v"
  by (rule bit_eqI) (simp add: set_low_def bit_simps)

declare vsprintf_loop.simps(2) [simp del]

lemma high_bit_unat: "bit w n \<Longrightarrow> 2 ^ n \<le> unat w" for w :: u64
proof -
  assume "bit w n"
  then have "bit (unat w) n" by (simp add: bit_unsigned_iff)
  then have "unat w div 2 ^ n \<noteq> 0" by (metis bit_iff_odd even_zero)
  then show ?thesis by (simp add: div_eq_0_iff not_less)
qed

text \<open>
  C34. The conversion \<open>%b\<close> of a negative \<open>int\<close> overruns the digit buffer: the argument is
  sign-extended to 64 bits, needs 64 binary digits, and \<open>print_buf\<close> has room for 63 and the
  terminating zero, so the last digit is stored before the array.
\<close>

theorem vsprintf_b_overruns:
  assumes "bit a 31"
  shows "vsprintf str out ''%b'' [a] u0 = Undef ''store before print_buf''"
proof -
  define i where "i = signed_take_bit 31 (set_low 32 a u0)"
  have "bit i 63"
    using assms by (simp add: i_def set_low_def bit_simps)
  then have "unat (2::u64) ^ 63 \<le> unat i" and "i \<noteq> 0"
    using high_bit_unat [of i 63] by auto
  then have "printk_int out i 2 True 0 0 97 = Undef ''store before print_buf''"
    using printk_digits_overflow [of 2 63 i 97 "[]"] by (simp add: printk_int_def)
  then show ?thesis
    unfolding vsprintf_def
    by (subst vsprintf_single) (simp_all add: convert_def conv_int_def va_arg_def i_def)
qed

theorem vsprintf_b_overruns_witness:
  "bit (0xFFFFFFFF :: u64) 31 \<and>
   vsprintf (\<lambda>_. []) (Direct []) ''%b'' [0xFFFFFFFF] 0 = Undef ''store before print_buf''"
  using vsprintf_b_overruns [of "0xFFFFFFFF"] by (simp add: bit_numeral_rec)

text \<open>What a format without conversions puts into the buffer: newlines become two characters.\<close>

definition literal_bytes :: "string \<Rightarrow> u8 list" where
  "literal_bytes f = concat (map (\<lambda>c. if c = CHR 0x0A then [13, 10] else [of_char c]) f)"

lemma vsprintf_loop_lit: "c \<noteq> CHR ''%'' \<Longrightarrow> vsprintf_loop str (c # f) st = vsprintf_loop str f (put_literal c st)"
  by (simp add: vsprintf_loop.simps(2))

lemma literal_bytes_Cons: "literal_bytes (c # f) = literal_bytes [c] @ literal_bytes f"
  by (simp add: literal_bytes_def)

lemma vsprintf_loop_literal:
  assumes "CHR ''%'' \<notin> set f" "f_out st = Ring r"
  shows "vsprintf_loop str f st = Ok () (st\<lparr>f_out := Ring (ring_buf_puts r (literal_bytes f)),
    f_pc := f_pc st + int (length f)\<rparr>)"
  using assms
proof (induction f arbitrary: st r)
  case (Cons c f)
  have "put_literal c st = st\<lparr>f_out := Ring (ring_buf_puts r (literal_bytes [c])), f_pc := f_pc st + 1\<rparr>"
    using Cons.prems(2) by (simp add: put_literal_def printk_char_def literal_bytes_def ring_buf_puts_def)
  with Cons.prems Cons.IH [of "put_literal c st" "ring_buf_puts r (literal_bytes [c])"]
  show ?case
    by (auto simp: vsprintf_loop_lit ring_puts_append literal_bytes_Cons [of c f])
qed (simp add: literal_bytes_def)

lemma vsprintf_literal:
  assumes "CHR ''%'' \<notin> set f"
  shows "vsprintf str (Ring r) f ap u0 =
    Ok (int (length f)) (Ring (ring_buf_puts r (literal_bytes f @ [0])))"
  using assms by (simp add: vsprintf_def vsprintf_loop_literal)

text \<open>The bytes that survive the flush at the end of \<open>printk\<close>.\<close>

definition surviving :: "u8 list \<Rightarrow> u8 list" where
  "surviving xs = (if 64 \<le> length xs \<and> 16 dvd length xs - 64 then take (length xs - 64) xs else xs)"

lemma flush_surviving:
  assumes "length (rb_buffer junk) = 64"
  shows "rb_out (ring_buf_flush (ring_buf_puts (ring_buf_init junk) xs)) = surviving xs"
proof -
  let ?i = "ring_buf_init junk" let ?r = "ring_buf_puts ?i xs"
  have i: "ring_wf ?i" "ring_contents ?i = []" "rb_out ?i = []"
    using assms by (simp_all add: ring_wf_init ring_contents_init) (simp add: ring_buf_init_def)
  then have "ring_count ?i = 0" by (metis length_0_conv length_ring_seg ring_contents_def)
  then have c: "ring_count ?r = ring_level (length xs)" using i(1) by (simp add: ring_puts_count)
  have r: "ring_wf ?r" "rb_out ?r @ ring_contents ?r = xs"
    using ring_puts_stream [OF i(1), of xs] i by simp_all
  show ?thesis
  proof (cases "ring_buf_is_full ?r")
    case True
    then have "64 \<le> length xs \<and> 16 dvd length xs - 64"
      using c r(1) by (simp add: ring_full_iff ring_level_full)
    moreover have "length (ring_contents ?r) = 64"
      using True r(1) by (simp add: ring_contents_def ring_full_iff)
    then have "rb_out ?r = take (length xs - 64) xs"
      using r(2) by (metis append_eq_conv_conj diff_add_inverse2 length_append)
    ultimately show ?thesis
      using True by (simp add: ring_flush_drops surviving_def)
  next
    case False
    then have "\<not> (64 \<le> length xs \<and> 16 dvd length xs - 64)"
      using c r(1) by (simp add: ring_full_iff ring_level_full)
    then have "surviving xs = xs" by (simp only: surviving_def if_False)
    then show ?thesis
      using False r by (simp add: ring_flush_room)
  qed
qed

section \<open>Decimal numbers\<close>

fun dec_nat :: "nat \<Rightarrow> string" where
  "dec_nat n = (if n < 10 then [char_of (48 + n)] else dec_nat (n div 10) @ [char_of (48 + n mod 10)])"

definition dec_int :: "int \<Rightarrow> string" where
  "dec_int i = (if i < 0 then ''-'' @ dec_nat (nat (- i)) else dec_nat (nat i))"

declare dec_nat.simps [simp del]

lemma length_dec_nat: "n < 10 ^ Suc k \<Longrightarrow> length (dec_nat n) \<le> Suc k"
proof (induction k arbitrary: n)
  case 0
  then show ?case by (simp add: dec_nat.simps [of n])
next
  case (Suc k)
  then show ?case using Suc.IH [of "n div 10"] by (subst dec_nat.simps) (auto simp: less_mult_imp_div_less)
qed

lemma decimal_char:
  fixes t :: u64
  assumes "unat t < 10"
  shows "\<not> t \<ge> 10" "ucast t + 48 = (of_char (char_of (48 + unat t)) :: u8)"
proof -
  show "\<not> t \<ge> 10" using assms by (simp add: word_le_nat_alt)
  have "(of_char (char_of (48 + unat t)) :: nat) = 48 + unat t" using assms by simp
  then have "of_char (char_of (48 + unat t)) = (of_nat (48 + unat t) :: u8)" by (metis of_nat_of_char)
  then show "ucast t + 48 = (of_char (char_of (48 + unat t)) :: u8)" by (simp add: add.commute)
qed

lemma printk_digits_decimal:
  assumes "unat u < 10 ^ k" "k \<le> pos" "u \<noteq> 0"
  shows "printk_digits pos u 10 97 acc = Ok (bytes_of (dec_nat (unat u)) @ acc) (pos - length (dec_nat (unat u)))"
  using assms
proof (induction k arbitrary: u pos acc)
  case (Suc k)
  obtain pos' where pos: "pos = Suc pos'" using Suc.prems(2) by (cases pos) auto
  let ?c = "of_char (char_of (48 + unat u mod 10)) :: u8"
  have m: "unat (u mod 10) = unat u mod 10" and d: "unat (u div 10) = unat u div 10" by (simp_all add: unat_mod unat_div)
  then have s: "printk_digits pos u 10 97 acc = printk_digits pos' (u div 10) 10 97 (?c # acc)"
    using decimal_char [of "u mod 10"] by (simp add: pos printk_digits_step [OF Suc.prems(3)])
  show ?case
  proof (cases "u div 10 = 0")
    case True
    then have "unat u < 10" using d by (simp add: div_eq_0_iff)
    then show ?thesis using s True pos printk_digits.simps [of pos' 0 10 97] by (simp add: dec_nat.simps [of "unat u"] bytes_of_def)
  next
    case False
    then have "\<not> unat u < 10" using d by (metis div_less unat_eq_zero)
    moreover have "unat (u div 10) < 10 ^ k" using Suc.prems(1) by (simp add: d less_mult_imp_div_less)
    ultimately show ?thesis using s Suc.IH [of "u div 10" pos' "?c # acc"] False Suc.prems(2) pos
      by (simp add: d dec_nat.simps [of "unat u"] bytes_of_def)
  qed
qed (simp add: unat_0_iff)

lemma printk_int_decimal:
  assumes "- (2 ^ 63) < sint i"
  shows "printk_int out i 10 True 0 0 97 = (case printk_str out (bytes_of (dec_int (sint i))) 0 0 of (pc, out) \<Rightarrow> Ok pc out)"
proof (cases "i = 0")
  case True
  moreover have "of_char (char_of (48 :: nat)) = (48 :: u8)" using decimal_char(2) [of 0] by simp
  ultimately show ?thesis by (simp add: printk_int_def dec_int_def dec_nat.simps [of 0] bytes_of_def)
next
  case False
  define u where "u = (if sint i < 0 then - i else i)"
  have u: "int (unat u) = \<bar>sint i\<bar>" "u \<noteq> 0"
    using sint_neg_64 [of i] sint_nonneg_64 [of i] False by (auto simp: u_def)
  have "unat u < 10 ^ 20" using unsigned_less [of u, where ?'a = nat] by simp
  then have d: "printk_digits 63 u 10 97 [] = Ok (bytes_of (dec_nat (unat u))) (63 - length (dec_nat (unat u)))"
    "length (dec_nat (unat u)) \<le> 20"
    using printk_digits_decimal [of u 20 63 "[]"] u(2) length_dec_nat [of "unat u" 19] by simp_all
  have "unat u = nat \<bar>sint i\<bar>" using u(1) by linarith
  then have t: "bytes_of (dec_int (sint i)) = (if sint i < 0 then [45] else []) @ bytes_of (dec_nat (unat u))"
    by (simp add: dec_int_def bytes_of_def)
  have "i \<noteq> push_bit 63 1" using assms by auto
  then show ?thesis using False d t by (cases "sint i < 0") (auto simp: printk_int_def u_def)
qed

text \<open>Text without padding goes into the buffer as it is.\<close>

lemma ring_puts_Cons: "ring_buf_puts r (x # xs) = ring_buf_puts (ring_buf_put r x) xs"
  by (simp add: ring_buf_puts_def)

lemma printk_chars_ring: "printk_chars cs (Ring r) = Ring (ring_buf_puts r cs)"
  by (induction cs arbitrary: r) (simp_all add: printk_char_def ring_buf_puts_def)

lemma printk_str_ring: "printk_str (Ring r) cs 0 0 = (int (length cs), Ring (ring_buf_puts r cs))"
  by (simp add: printk_str_def Let_def printk_chars_ring)

lemma vsprintf_loop_conv:
  assumes "c \<in> {CHR ''d'', CHR ''s''}"
  shows "vsprintf_loop str (CHR ''%'' # c # f) st = bnd (convert str (c # f) 0 0 st) (\<lambda>f st. vsprintf_loop str f st)"
  by (rule vsprintf_single) (use assms in auto)

lemma signed_low_32:
  assumes "- (2 ^ 31) \<le> n" "n < 2 ^ 31"
  shows "sint (signed_take_bit 31 (set_low 32 (of_int n) u)) = n"
proof -
  have "signed_take_bit 31 (set_low 32 (of_int n) u) = (of_int n :: u64)"
  proof (rule bit_word_eqI)
    fix k assume k: "k < LENGTH(64)"
    have "signed_take_bit 31 n = n" using assms by (intro signed_take_bit_int_eq_self) simp_all
    moreover have "bit (signed_take_bit 31 n) j = bit n (min 31 j)" for j by (simp add: bit_simps)
    ultimately have "bit n 31 = bit n j" if "31 \<le> j" for j using that by (metis min_def)
    then show "bit (signed_take_bit 31 (set_low 32 (of_int n) u)) k = bit (of_int n :: u64) k"
      using k by (auto simp: bit_simps set_low_def min_def not_le)
  qed
  moreover have "sint (of_int n :: u64) = n" using assms by (simp add: signed_of_int signed_take_bit_int_eq_self)
  ultimately show ?thesis by simp
qed

text \<open>The line of \<open>procdump\<close>.\<close>

lemma vsprintf_listing:
  assumes "- (2 ^ 31) \<le> n" "n < 2 ^ 31" "a \<noteq> 0" "b \<noteq> 0"
  shows "\<exists>pc. vsprintf str (Ring r) ''%d %s %s'' [of_int n, a, b] u0 =
    Ok pc (Ring (ring_buf_puts r ((bytes_of (dec_int n) @ [32] @ str a @ [32] @ str b) @ [0])))"
proof -
  have "printk_int out (signed_take_bit 31 (set_low 32 (of_int n) u0)) 10 True 0 0 97 =
      (case printk_str out (bytes_of (dec_int n)) 0 0 of (pc, out) \<Rightarrow> Ok pc out)" for out
    using printk_int_decimal [of "signed_take_bit 31 (set_low 32 (of_int n) u0)" out] signed_low_32 [OF assms(1,2)] assms(1) by simp
  then show ?thesis using assms(3,4)
    by (simp add: vsprintf_def vsprintf_loop_conv vsprintf_loop_lit convert_def conv_int_def conv_str_def va_arg_def
        printk_str_ring put_literal_def printk_char_def ring_puts_append ring_puts_Cons Let_def)
qed

end
