(* ===== verification/Uart.thy ===== *)
theory Uart
  imports Fs Vsprintf
begin

text \<open>
  The serial port driver \<open>kernel/uart.c\<close>. The device is outside the program: the values that
  successive reads of its line status register and of its receive register return are part of the
  state, as lists \<open>uart_lsr\<close> and \<open>uart_rhr\<close>, and the values written to its registers are listed in
  \<open>uart_out\<close>, oldest first. When a list of readings is used up the register reads 0. A loop that
  polls for a reading that never comes has the outcome \<open>Block\<close>.
\<close>

section \<open>State\<close>

text \<open>\<open>pr_locking\<close> and \<open>panicked\<close> are the variables \<open>pr.locking\<close> and \<open>panicked\<close> of \<open>kernel/printk/printk.c\<close>.\<close>

abbreviation (input) UART_TX_BUF_SIZE :: nat where "UART_TX_BUF_SIZE \<equiv> 32"

record uart_st = fs_st +
  pr_locking :: bool
  panicked :: bool
  uart_tx_buf :: "u8 list"
  uart_tx_w :: u64
  uart_tx_r :: u64
  uart_lsr :: "u8 list"
  uart_rhr :: "u8 list"
  uart_out :: "(nat \<times> u8) list"

definition RHR :: nat where "RHR = 0"
definition THR :: nat where "THR = 0"
definition IER :: nat where "IER = 1"
definition FCR :: nat where "FCR = 2"
definition LCR :: nat where "LCR = 3"
definition LSR_RX_READY :: u8 where "LSR_RX_READY = 1"
definition LSR_TX_IDLE :: u8 where "LSR_TX_IDLE = 0x20"

definition WriteReg :: "nat \<Rightarrow> u8 \<Rightarrow> 'a uart_st_scheme \<Rightarrow> 'a uart_st_scheme" where
  "WriteReg reg v s = s\<lparr>uart_out := uart_out s @ [(reg, v)]\<rparr>"

definition ReadLSR :: "'a uart_st_scheme \<Rightarrow> u8 \<times> 'a uart_st_scheme" where
  "ReadLSR s = (case uart_lsr s of [] \<Rightarrow> (0, s) | x # xs \<Rightarrow> (x, s\<lparr>uart_lsr := xs\<rparr>))"

definition ReadRHR :: "'a uart_st_scheme \<Rightarrow> u8 \<times> 'a uart_st_scheme" where
  "ReadRHR s = (case uart_rhr s of [] \<Rightarrow> (0, s) | x # xs \<Rightarrow> (x, s\<lparr>uart_rhr := xs\<rparr>))"

section \<open>Operations\<close>

definition uartinit :: "'a uart_st_scheme \<Rightarrow> 'a uart_st_scheme" where
  "uartinit s =
     (let s = WriteReg IER 0x00 s;
          s = WriteReg LCR 0x80 s;
          s = WriteReg 0 0x03 s;
          s = WriteReg 1 0x00 s;
          s = WriteReg LCR 0x03 s;
          s = WriteReg FCR 0x07 s;
          s = WriteReg IER 0x03 s
      in initlock UartTxLock ''uart'' s)"

text \<open>
  The loop of \<open>uartstart\<close> sends at most \<open>uart_tx_w - uart_tx_r\<close> bytes, so that many turns and one
  more to find the buffer empty are enough.
\<close>

fun uartstart_loop :: "nat \<Rightarrow> 'a uart_st_scheme \<Rightarrow> (unit, 'a uart_st_scheme) outcome" where
  "uartstart_loop 0 s = Block"
| "uartstart_loop (Suc n) s =
     (if uart_tx_w s = uart_tx_r s then Ok () s
      else case ReadLSR s of (lsr, s) \<Rightarrow>
        if lsr AND LSR_TX_IDLE = 0 then Ok () s
        else let c = uart_tx_buf s ! (unat (uart_tx_r s) mod UART_TX_BUF_SIZE);
                 s = s\<lparr>uart_tx_r := uart_tx_r s + 1\<rparr>
             in bnd (wakeup (Some ChanUartTx) s) (\<lambda>_ s. uartstart_loop n (WriteReg THR c s)))"

definition uartstart :: "'a uart_st_scheme \<Rightarrow> (unit, 'a uart_st_scheme) outcome" where
  "uartstart s = uartstart_loop (Suc (unat (uart_tx_w s - uart_tx_r s))) s"

text \<open>When the buffer is full the writer sleeps until \<open>uartstart\<close> has made room.\<close>

definition uartputc :: "u8 \<Rightarrow> 'a uart_st_scheme \<Rightarrow> (unit, 'a uart_st_scheme) outcome" where
  "uartputc c s =
     bnd (acquire UartTxLock s) (\<lambda>_ s.
     if panicked s then Block
     else if uart_tx_w s = uart_tx_r s + of_nat UART_TX_BUF_SIZE then Block
     else let s = s\<lparr>uart_tx_buf := (uart_tx_buf s)[unat (uart_tx_w s) mod UART_TX_BUF_SIZE := c],
                    uart_tx_w := uart_tx_w s + 1\<rparr>
          in bnd (uartstart s) (\<lambda>_ s. release UartTxLock s))"

fun wait_tx_idle :: "u8 list \<Rightarrow> u8 list option" where
  "wait_tx_idle [] = None"
| "wait_tx_idle (x # xs) = (if x AND LSR_TX_IDLE = 0 then wait_tx_idle xs else Some xs)"

definition uartputc_sync :: "u8 \<Rightarrow> 'a uart_st_scheme \<Rightarrow> (unit, 'a uart_st_scheme) outcome" where
  "uartputc_sync c s =
     (let s = push_off s
      in if panicked s then Block
         else case wait_tx_idle (uart_lsr s) of
           None \<Rightarrow> Block
         | Some xs \<Rightarrow> pop_off (WriteReg THR c (s\<lparr>uart_lsr := xs\<rparr>)))"

definition uartgetc :: "'a uart_st_scheme \<Rightarrow> u8 option \<times> 'a uart_st_scheme" where
  "uartgetc s =
     (case ReadLSR s of (lsr, s) \<Rightarrow>
        if lsr AND 1 \<noteq> 0 then (case ReadRHR s of (c, s) \<Rightarrow> (Some c, s)) else (None, s))"

end
