(* ===== verification/Console.thy ===== *)
theory Console
  imports Uart
begin

text \<open>
  The console of \<open>kernel/console.c\<close>: line editing on input, and the read and write routines of
  the console device, with \<open>procdump\<close> of \<open>kernel/proc.c\<close> that it calls, and \<open>uartintr\<close> of \<open>kernel/uart.c\<close>,
  which would feed it and which nothing calls: \<open>devintr\<close> hands over the character itself. A reader that finds no complete line sleeps, which is the outcome
  \<open>Block\<close>. \<open>ap\<close> is the source of page-table pages that a user copy takes.
\<close>

section \<open>State\<close>

abbreviation (input) INPUT_BUF_SIZE :: nat where "INPUT_BUF_SIZE \<equiv> 128"

record cons_st = uart_st +
  cons_buf :: "u8 list"
  cons_r :: u32
  cons_w :: u32
  cons_e :: u32

text \<open>The indices count all bytes ever stored; \<open>cons_at\<close> is the byte they name.\<close>

definition cons_at :: "u32 \<Rightarrow> 'a cons_st_scheme \<Rightarrow> u8" where
  "cons_at i s = cons_buf s ! (unat i mod INPUT_BUF_SIZE)"

definition CTRL_D :: u8 where "CTRL_D = 4"
definition CTRL_P :: u8 where "CTRL_P = 16"
definition CTRL_U :: u8 where "CTRL_U = 21"
definition CTRL_H :: u8 where "CTRL_H = 8"
definition NEWLINE :: u8 where "NEWLINE = 10"

section \<open>Output\<close>

text \<open>\<open>None\<close> stands for the code \<open>BACKSPACE\<close>, which is no byte.\<close>

fun console_putchar :: "u8 option \<Rightarrow> 'a uart_st_scheme \<Rightarrow> (unit, 'a uart_st_scheme) outcome" where
  "console_putchar None s =
     bnd (uartputc_sync 8 s) (\<lambda>_ s. bnd (uartputc_sync 32 s) (\<lambda>_ s. uartputc_sync 8 s))"
| "console_putchar (Some c) s = uartputc_sync c s"

fun console_print :: "u8 list \<Rightarrow> 'a uart_st_scheme \<Rightarrow> (unit, 'a uart_st_scheme) outcome" where
  "console_print [] s = Ok () s"
| "console_print (c # cs) s = bnd (console_putchar (Some c) s) (\<lambda>_ s. console_print cs s)"

fun console_write_loop :: "('a cons_st_scheme) page_source \<Rightarrow> bool \<Rightarrow> u64 \<Rightarrow> u8 list \<Rightarrow> nat \<Rightarrow> int \<Rightarrow>
    'a cons_st_scheme \<Rightarrow> (int, 'a cons_st_scheme) outcome" where
  "console_write_loop ap user_src src ksrc 0 i s = Ok i s"
| "console_write_loop ap user_src src ksrc (Suc n) i s =
     bnd (either_copyin ap user_src src ksrc 1 s) (\<lambda>(r, xs) s.
     if r = - 1 then Ok i s
     else bnd (uartputc (hd xs) s) (\<lambda>_ s. console_write_loop ap user_src (src + 1) (tl ksrc) n (i + 1) s))"

definition console_write :: "('a cons_st_scheme) page_source \<Rightarrow> bool \<Rightarrow> u64 \<Rightarrow> u8 list \<Rightarrow> int \<Rightarrow>
    'a cons_st_scheme \<Rightarrow> (int, 'a cons_st_scheme) outcome" where
  "console_write ap user_src src ksrc n s = console_write_loop ap user_src src ksrc (nat n) 0 s"

section \<open>Input\<close>

text \<open>
  The loop of \<open>console_read\<close>, with \<open>n\<close> bytes still wanted and \<open>got\<close> bytes copied, which is
  \<open>target - n\<close>. For a kernel destination, which no caller passes, \<open>got\<close> is what was stored there. \<open>None\<close> is the early return of \<open>-1\<close> by a killed process, which has released the
  lock.
\<close>

fun console_read_loop :: "('a cons_st_scheme) page_source \<Rightarrow> bool \<Rightarrow> u64 \<Rightarrow> nat \<Rightarrow> u8 list \<Rightarrow>
    'a cons_st_scheme \<Rightarrow> (u8 list option, 'a cons_st_scheme) outcome" where
  "console_read_loop ap user_dst dst 0 got s = Ok (Some got) s"
| "console_read_loop ap user_dst dst (Suc n) got s =
     (if cons_r s = cons_w s then
        bnd (this_proc_deref s) (\<lambda>p s.
        bnd (killed p s) (\<lambda>k s.
        if k then bnd (release ConsLock s) (\<lambda>_ s. Ok None s) else Block))
      else let c = cons_at (cons_r s) s; s = s\<lparr>cons_r := cons_r s + 1\<rparr>
      in if c = CTRL_D then Ok (Some got) (if got \<noteq> [] then s\<lparr>cons_r := cons_r s - 1\<rparr> else s)
         else bnd (either_copyout ap user_dst dst [c] (\<lambda>_. 0) s) (\<lambda>(r, _) s.
           if r = - 1 then Ok (Some got) s
           else if c = NEWLINE then Ok (Some (got @ [c])) s
           else console_read_loop ap user_dst (dst + 1) n (got @ [c]) s))"

definition console_read :: "('a cons_st_scheme) page_source \<Rightarrow> bool \<Rightarrow> u64 \<Rightarrow> int \<Rightarrow> 'a cons_st_scheme \<Rightarrow>
    (int \<times> u8 list, 'a cons_st_scheme) outcome" where
  "console_read ap user_dst dst n s =
     bnd (acquire ConsLock s) (\<lambda>_ s.
     bnd (console_read_loop ap user_dst dst (nat n) [] s) (\<lambda>r s.
     case r of
       None \<Rightarrow> Ok (- 1, []) s
     | Some got \<Rightarrow> bnd (release ConsLock s) (\<lambda>_ s. Ok (int (length got), got) s)))"

text \<open>
  \<open>printk\<close> on the serial port: the buffer hands its characters to \<open>console_putchar\<close>. The bytes under the
  buffer and the union of \<open>vsprintf\<close> are indeterminate; they are 0 here.
\<close>

definition uart_printk :: "(u64 \<Rightarrow> u8 list) \<Rightarrow> string \<Rightarrow> u64 list \<Rightarrow> 'a uart_st_scheme \<Rightarrow> (int, 'a uart_st_scheme) outcome" where
  "uart_printk str fmt ap s =
     printk_via console_print (pr_locking s) str
       \<lparr>rb_buffer = replicate MAX_RING_BUF_SIZE 0, rb_head = 0, rb_tail = 0, rb_full = False, rb_out = []\<rparr> 0 (Some fmt) ap s"

fun state_name :: "procstate \<Rightarrow> string" where
  "state_name UNUSED = ''unused''"
| "state_name USED = ''used''"
| "state_name SLEEPING = ''sleep ''"
| "state_name RUNNABLE = ''runble''"
| "state_name RUNNING = ''run   ''"
| "state_name ZOMBIE = ''zombie''"

definition cstring_chars :: "u8 list \<Rightarrow> string" where
  "cstring_chars xs = map (\<lambda>b. char_of (unat b)) (takeWhile (\<lambda>b. b \<noteq> 0) xs)"

text \<open>
  The loop of \<open>procdump\<close> over the process table. The addresses 1 and 2 stand for those of the two strings.
\<close>

fun procdump_loop :: "nat list \<Rightarrow> 'a uart_st_scheme \<Rightarrow> (unit, 'a uart_st_scheme) outcome" where
  "procdump_loop [] s = Ok () s"
| "procdump_loop (i # is) s =
     (let p = procs s i
      in if p_state p = UNUSED then procdump_loop is s
         else bnd (uart_printk (\<lambda>a. if a = 1 then bytes_of (state_name (p_state p)) else takeWhile (\<lambda>b. b \<noteq> 0) (p_name p))
             ''%d %s %s'' [of_int (p_pid p), 1, 2] s) (\<lambda>_ s.
           bnd (uart_printk (\<lambda>_. []) [CHR 0x0A] [] s) (\<lambda>_ s.
           procdump_loop is s)))"

definition procdump :: "'a uart_st_scheme \<Rightarrow> (unit, 'a uart_st_scheme) outcome" where
  "procdump s =
     bnd (uart_printk (\<lambda>_. []) [CHR 0x0A] [] s) (\<lambda>_ s.
     procdump_loop [0..<NPROC] s)"

text \<open>Erasing the current line goes back from \<open>cons_e\<close> at most to \<open>cons_w\<close>.\<close>

fun kill_line :: "nat \<Rightarrow> 'a cons_st_scheme \<Rightarrow> (unit, 'a cons_st_scheme) outcome" where
  "kill_line 0 s = Block"
| "kill_line (Suc n) s =
     (if cons_e s \<noteq> cons_w s \<and> cons_at (cons_e s - 1) s \<noteq> NEWLINE
      then bnd (console_putchar None (s\<lparr>cons_e := cons_e s - 1\<rparr>)) (\<lambda>_ s. kill_line n s)
      else Ok () s)"

text \<open>The cases of the \<open>switch\<close> of \<open>console_intr\<close>; \<open>console_store\<close> is the default case, for input that fits.\<close>

definition console_store :: "u8 \<Rightarrow> 'a cons_st_scheme \<Rightarrow> (unit, 'a cons_st_scheme) outcome" where
  "console_store c s =
     bnd (console_putchar (Some c) s) (\<lambda>_ s.
     let s = s\<lparr>cons_buf := (cons_buf s)[unat (cons_e s) mod INPUT_BUF_SIZE := c], cons_e := cons_e s + 1\<rparr>
     in if c = NEWLINE \<or> c = CTRL_D \<or> cons_e s - cons_r s = of_nat INPUT_BUF_SIZE
        then wakeup (Some ChanCons) (s\<lparr>cons_w := cons_e s\<rparr>) else Ok () s)"

definition console_key :: "u8 \<Rightarrow> 'a cons_st_scheme \<Rightarrow> (unit, 'a cons_st_scheme) outcome" where
  "console_key c s =
     (if c = CTRL_P then procdump s
      else if c = CTRL_U then kill_line (Suc (unat (cons_e s - cons_w s))) s
      else if c = CTRL_H \<or> c = 0x7f then
        (if cons_e s \<noteq> cons_w s then console_putchar None (s\<lparr>cons_e := cons_e s - 1\<rparr>) else Ok () s)
      else if c \<noteq> 0 \<and> cons_e s - cons_r s < of_nat INPUT_BUF_SIZE
      then console_store (if c = 13 then NEWLINE else c) s
      else Ok () s)"

definition console_intr :: "u8 \<Rightarrow> 'a cons_st_scheme \<Rightarrow> (unit, 'a cons_st_scheme) outcome" where
  "console_intr c s =
     bnd (acquire ConsLock s) (\<lambda>_ s.
     bnd (console_key c s) (\<lambda>_ s.
     release ConsLock s))"

text \<open>\<open>uartintr\<close>: a loop over the input that is waiting, then the output.\<close>

fun uartintr_loop :: "nat \<Rightarrow> 'a cons_st_scheme \<Rightarrow> (unit, 'a cons_st_scheme) outcome" where
  "uartintr_loop 0 s = Block"
| "uartintr_loop (Suc n) s =
     (case uartgetc s of (r, s) \<Rightarrow>
        case r of None \<Rightarrow> Ok () s | Some c \<Rightarrow> bnd (console_intr c s) (\<lambda>_ s. uartintr_loop n s))"

definition uartintr :: "'a cons_st_scheme \<Rightarrow> (unit, 'a cons_st_scheme) outcome" where
  "uartintr s =
     bnd (uartintr_loop (Suc (length (uart_lsr s))) s) (\<lambda>_ s.
     bnd (acquire UartTxLock s) (\<lambda>_ s.
     bnd (uartstart s) (\<lambda>_ s.
     release UartTxLock s)))"

end
