(* ===== verification/File.thy ===== *)
theory File
  imports Console
begin

text \<open>
  Open files and pipes, \<open>kernel/file.c\<close> and \<open>kernel/pipe.c\<close>. A pipe lives in a page of
  \<open>kalloc\<close> and is named by the address of that page; its fields are the map \<open>pipes\<close>. The entries
  of \<open>devsw\<close> are the routines that \<open>console_init\<close> stores there. A reader of an empty pipe and a
  writer of a full one sleep, which is the outcome \<open>Block\<close>.
\<close>

section \<open>State\<close>

abbreviation (input) PIPESIZE :: nat where "PIPESIZE \<equiv> 512"

record pipe =
  pi_data :: "u8 list"
  pi_nread :: u32
  pi_nwrite :: u32
  pi_readopen :: bool
  pi_writeopen :: bool

datatype filetype = FD_NONE | FD_PIPE | FD_INODE | FD_DEVICE

record struct_file =
  f_type :: filetype
  f_ref :: int
  f_readable :: bool
  f_writable :: bool
  f_pipe :: u64
  f_ip :: "nat option"
  f_off :: u32
  f_major :: u16

datatype dev_routine = Console_read | Console_write

record file_st = cons_st +
  pipes :: "u64 \<Rightarrow> pipe"
  files :: "nat \<Rightarrow> struct_file"
  devsw_read :: "nat \<Rightarrow> dev_routine option"
  devsw_write :: "nat \<Rightarrow> dev_routine option"

definition set_pipe :: "u64 \<Rightarrow> (pipe \<Rightarrow> pipe) \<Rightarrow> 'a file_st_scheme \<Rightarrow> 'a file_st_scheme" where
  "set_pipe pi f s = s\<lparr>pipes := (pipes s)(pi := f (pipes s pi))\<rparr>"

definition set_file :: "nat \<Rightarrow> (struct_file \<Rightarrow> struct_file) \<Rightarrow> 'a file_st_scheme \<Rightarrow> 'a file_st_scheme" where
  "set_file i f s = s\<lparr>files := (files s)(i := f (files s i))\<rparr>"

definition console_init :: "'a file_st_scheme \<Rightarrow> 'a file_st_scheme" where
  "console_init s =
     (let s = uartinit (initlock ConsLock ''console'' s)
      in s\<lparr>devsw_read := (devsw_read s)(1 := Some Console_read), devsw_write := (devsw_write s)(1 := Some Console_write)\<rparr>)"

section \<open>Pipes\<close>

definition pipeclose :: "u64 \<Rightarrow> bool \<Rightarrow> 'a file_st_scheme \<Rightarrow> (unit, 'a file_st_scheme) outcome" where
  "pipeclose pi writable s =
     bnd (acquire (PipeLock pi) s) (\<lambda>_ s.
     bnd (if writable then wakeup (Some (ChanPipeRead pi)) (set_pipe pi (\<lambda>x. x\<lparr>pi_writeopen := False\<rparr>) s)
          else wakeup (Some (ChanPipeWrite pi)) (set_pipe pi (\<lambda>x. x\<lparr>pi_readopen := False\<rparr>) s)) (\<lambda>_ s.
     if \<not> pi_readopen (pipes s pi) \<and> \<not> pi_writeopen (pipes s pi)
     then bnd (release (PipeLock pi) s) (\<lambda>_ s. kfree pi s)
     else release (PipeLock pi) s))"

definition pipe_put :: "u8 \<Rightarrow> pipe \<Rightarrow> pipe" where
  "pipe_put c x = x\<lparr>pi_data := (pi_data x)[unat (pi_nwrite x) mod PIPESIZE := c], pi_nwrite := pi_nwrite x + 1\<rparr>"

text \<open>
  The loop of \<open>pipewrite\<close>. \<open>None\<close> is the early return of \<open>-1\<close>, which has released the lock.
\<close>

fun pipewrite_loop :: "('a file_st_scheme) page_source \<Rightarrow> u64 \<Rightarrow> nat \<Rightarrow> u64 \<Rightarrow> nat \<Rightarrow> int \<Rightarrow> 'a file_st_scheme \<Rightarrow>
    (int option, 'a file_st_scheme) outcome" where
  "pipewrite_loop ap pi p addr 0 i s = Ok (Some i) s"
| "pipewrite_loop ap pi p addr (Suc n) i s =
     bnd (if \<not> pi_readopen (pipes s pi) then Ok True s else killed p s) (\<lambda>stop s.
     if stop then bnd (release (PipeLock pi) s) (\<lambda>_ s. Ok None s)
     else if pi_nwrite (pipes s pi) = pi_nread (pipes s pi) + of_nat PIPESIZE
     then bnd (wakeup (Some (ChanPipeRead pi)) s) (\<lambda>_ s. Block)
     else bnd (copyin ap (p_pagetable (procs s p)) addr 1 s) (\<lambda>(r, xs) s.
       if r = - 1 then Ok (Some i) s
       else pipewrite_loop ap pi p (addr + 1) n (i + 1) (set_pipe pi (pipe_put (hd xs)) s)))"

definition pipewrite :: "('a file_st_scheme) page_source \<Rightarrow> u64 \<Rightarrow> u64 \<Rightarrow> int \<Rightarrow> 'a file_st_scheme \<Rightarrow>
    (int, 'a file_st_scheme) outcome" where
  "pipewrite ap pi addr n s =
     bnd (this_proc_deref s) (\<lambda>p s.
     bnd (acquire (PipeLock pi) s) (\<lambda>_ s.
     bnd (pipewrite_loop ap pi p addr (nat n) 0 s) (\<lambda>r s.
     case r of
       None \<Rightarrow> Ok (- 1) s
     | Some i \<Rightarrow> bnd (wakeup (Some (ChanPipeRead pi)) s) (\<lambda>_ s.
         bnd (release (PipeLock pi) s) (\<lambda>_ s. Ok i s)))))"

fun piperead_loop :: "('a file_st_scheme) page_source \<Rightarrow> u64 \<Rightarrow> nat \<Rightarrow> u64 \<Rightarrow> nat \<Rightarrow> int \<Rightarrow> 'a file_st_scheme \<Rightarrow>
    (int, 'a file_st_scheme) outcome" where
  "piperead_loop ap pi p addr 0 i s = Ok i s"
| "piperead_loop ap pi p addr (Suc n) i s =
     (if pi_nread (pipes s pi) = pi_nwrite (pipes s pi) then Ok i s
      else let ch = pi_data (pipes s pi) ! (unat (pi_nread (pipes s pi)) mod PIPESIZE);
               s = set_pipe pi (\<lambda>x. x\<lparr>pi_nread := pi_nread x + 1\<rparr>) s
      in bnd (copyout ap (p_pagetable (procs s p)) addr [ch] s) (\<lambda>r s.
         if r = - 1 then Ok i s else piperead_loop ap pi p (addr + 1) n (i + 1) s))"

definition piperead :: "('a file_st_scheme) page_source \<Rightarrow> u64 \<Rightarrow> u64 \<Rightarrow> int \<Rightarrow> 'a file_st_scheme \<Rightarrow>
    (int, 'a file_st_scheme) outcome" where
  "piperead ap pi addr n s =
     bnd (this_proc_deref s) (\<lambda>p s.
     bnd (acquire (PipeLock pi) s) (\<lambda>_ s.
     if pi_nread (pipes s pi) = pi_nwrite (pipes s pi) \<and> pi_writeopen (pipes s pi) then
       bnd (killed p s) (\<lambda>k s. if k then bnd (release (PipeLock pi) s) (\<lambda>_ s. Ok (- 1) s) else Block)
     else bnd (piperead_loop ap pi p addr (nat n) 0 s) (\<lambda>i s.
       bnd (wakeup (Some (ChanPipeWrite pi)) s) (\<lambda>_ s.
       bnd (release (PipeLock pi) s) (\<lambda>_ s. Ok i s)))))"

section \<open>Files\<close>

definition fileinit :: "'a file_st_scheme \<Rightarrow> 'a file_st_scheme" where
  "fileinit s = initlock FtableLock ''ftable'' s"

definition filealloc :: "'a file_st_scheme \<Rightarrow> (nat option, 'a file_st_scheme) outcome" where
  "filealloc s =
     bnd (acquire FtableLock s) (\<lambda>_ s.
     case find (\<lambda>i. f_ref (files s i) = 0) [0..<NFILE] of
       Some f \<Rightarrow> bnd (release FtableLock (set_file f (\<lambda>x. x\<lparr>f_ref := 1\<rparr>) s)) (\<lambda>_ s. Ok (Some f) s)
     | None \<Rightarrow> bnd (release FtableLock s) (\<lambda>_ s. Ok None s))"

definition filedup :: "nat \<Rightarrow> 'a file_st_scheme \<Rightarrow> (nat, 'a file_st_scheme) outcome" where
  "filedup f s =
     bnd (acquire FtableLock s) (\<lambda>_ s.
     if f_ref (files s f) < 1 then Panic ''filedup''
     else bnd (release FtableLock (set_file f (\<lambda>x. x\<lparr>f_ref := f_ref x + 1\<rparr>) s)) (\<lambda>_ s. Ok f s))"

definition fileclose :: "nat \<Rightarrow> 'a file_st_scheme \<Rightarrow> (unit, 'a file_st_scheme) outcome" where
  "fileclose f s =
     bnd (acquire FtableLock s) (\<lambda>_ s.
     if f_ref (files s f) < 1 then Panic ''fileclose''
     else let s = set_file f (\<lambda>x. x\<lparr>f_ref := f_ref x - 1\<rparr>) s
     in if f_ref (files s f) > 0 then release FtableLock s
        else let ff = files s f;
                 s = set_file f (\<lambda>x. x\<lparr>f_ref := 0, f_type := FD_NONE\<rparr>) s
        in bnd (release FtableLock s) (\<lambda>_ s.
           case f_type ff of
             FD_PIPE \<Rightarrow> pipeclose (f_pipe ff) (f_writable ff) s
           | FD_INODE \<Rightarrow> bnd (begin_op s) (\<lambda>_ s. bnd (deref (f_ip ff) (\<lambda>ip. iput ip s)) (\<lambda>_ s. end_op s))
           | FD_DEVICE \<Rightarrow> bnd (begin_op s) (\<lambda>_ s. bnd (deref (f_ip ff) (\<lambda>ip. iput ip s)) (\<lambda>_ s. end_op s))
           | FD_NONE \<Rightarrow> Ok () s))"

text \<open>
  \<open>struct stat\<close> in memory: 24 bytes, the size at offset 16 after four bytes of padding. The padding of
  the local variable is indeterminate in C, and 0 here.
\<close>

definition stat_bytes :: "stat \<Rightarrow> u8 list" where
  "stat_bytes st = bytes_of_word 4 (st_dev st) @ bytes_of_word 4 (st_ino st) @ bytes_of_word 2 (st_type st) @
     bytes_of_word 2 (st_nlink st) @ replicate 4 0 @ bytes_of_word 8 (st_size st)"

definition filestat :: "('a file_st_scheme) page_source \<Rightarrow> nat \<Rightarrow> u64 \<Rightarrow> 'a file_st_scheme \<Rightarrow> (int, 'a file_st_scheme) outcome" where
  "filestat ap f addr s =
     bnd (this_proc_deref s) (\<lambda>p s.
     if f_type (files s f) = FD_INODE \<or> f_type (files s f) = FD_DEVICE then
       bnd (ilock (f_ip (files s f)) s) (\<lambda>_ s.
       deref (f_ip (files s f)) (\<lambda>ip.
       let st = stati ip s
       in bnd (iunlock (f_ip (files s f)) s) (\<lambda>_ s.
          bnd (copyout ap (p_pagetable (procs s p)) addr (stat_bytes st) s) (\<lambda>r s.
          Ok (if r < 0 then - 1 else 0) s))))
     else Ok (- 1) s)"

text \<open>The device number \<open>major\<close> is signed.\<close>

definition dev_entry :: "u16 \<Rightarrow> (nat \<Rightarrow> dev_routine option) \<Rightarrow> dev_routine option" where
  "dev_entry major table = (if sint major < 0 \<or> int NDEV \<le> sint major then None else table (nat (sint major)))"

definition call_dev :: "('a file_st_scheme) page_source \<Rightarrow> dev_routine \<Rightarrow> u64 \<Rightarrow> int \<Rightarrow> 'a file_st_scheme \<Rightarrow>
    (int, 'a file_st_scheme) outcome" where
  "call_dev ap d addr n s =
     (case d of
        Console_read \<Rightarrow> bnd (console_read ap True addr n s) (\<lambda>(r, _) s. Ok r s)
      | Console_write \<Rightarrow> console_write ap True addr [] n s)"

definition fileread :: "('a file_st_scheme) page_source \<Rightarrow> nat \<Rightarrow> u64 \<Rightarrow> int \<Rightarrow> 'a file_st_scheme \<Rightarrow>
    (int, 'a file_st_scheme) outcome" where
  "fileread ap f addr n s =
     (if \<not> f_readable (files s f) then Ok (- 1) s
      else case f_type (files s f) of
        FD_PIPE \<Rightarrow> piperead ap (f_pipe (files s f)) addr n s
      | FD_DEVICE \<Rightarrow>
          (case dev_entry (f_major (files s f)) (devsw_read s) of
             None \<Rightarrow> Ok (- 1) s | Some d \<Rightarrow> call_dev ap d addr n s)
      | FD_INODE \<Rightarrow>
          bnd (ilock (f_ip (files s f)) s) (\<lambda>_ s.
          deref (f_ip (files s f)) (\<lambda>ip.
          bnd (readi ap ip True addr auto_object (f_off (files s f)) (word_of_int n) s) (\<lambda>(r, _) s.
          let s = (if r > 0 then set_file f (\<lambda>x. x\<lparr>f_off := f_off x + word_of_int r\<rparr>) s else s)
          in bnd (iunlock (f_ip (files s f)) s) (\<lambda>_ s. Ok r s))))
      | FD_NONE \<Rightarrow> Panic ''fileread'')"

definition max_write :: int where "max_write = ((int MAXOPBLOCKS - 1 - 1 - 2) div 2) * int BSIZE"

text \<open>
  The loop of \<open>filewrite\<close> over transactions; it writes at least one byte in each turn or stops,
  so \<open>n\<close> turns are enough. The result is \<open>i\<close>.
\<close>

fun filewrite_loop :: "nat \<Rightarrow> ('a file_st_scheme) page_source \<Rightarrow> nat \<Rightarrow> u64 \<Rightarrow> int \<Rightarrow> int \<Rightarrow> 'a file_st_scheme \<Rightarrow>
    (int, 'a file_st_scheme) outcome" where
  "filewrite_loop 0 ap f addr n i s = Block"
| "filewrite_loop (Suc k) ap f addr n i s =
     (if i < n then
        let n1 = min (n - i) max_write
        in bnd (begin_op s) (\<lambda>_ s.
           bnd (ilock (f_ip (files s f)) s) (\<lambda>_ s.
           deref (f_ip (files s f)) (\<lambda>ip.
           bnd (writei ap ip True (addr + word_of_int i) [] (f_off (files s f)) (word_of_int n1) s) (\<lambda>r s.
           let s = (if r > 0 then set_file f (\<lambda>x. x\<lparr>f_off := f_off x + word_of_int r\<rparr>) s else s)
           in bnd (iunlock (f_ip (files s f)) s) (\<lambda>_ s.
              bnd (end_op s) (\<lambda>_ s.
              if r \<noteq> n1 then Ok i s else filewrite_loop k ap f addr n (i + r) s))))))
      else Ok i s)"

definition filewrite :: "('a file_st_scheme) page_source \<Rightarrow> nat \<Rightarrow> u64 \<Rightarrow> int \<Rightarrow> 'a file_st_scheme \<Rightarrow>
    (int, 'a file_st_scheme) outcome" where
  "filewrite ap f addr n s =
     (if \<not> f_writable (files s f) then Ok (- 1) s
      else case f_type (files s f) of
        FD_PIPE \<Rightarrow> pipewrite ap (f_pipe (files s f)) addr n s
      | FD_DEVICE \<Rightarrow>
          (case dev_entry (f_major (files s f)) (devsw_write s) of
             None \<Rightarrow> Ok (- 1) s | Some d \<Rightarrow> call_dev ap d addr n s)
      | FD_INODE \<Rightarrow>
          bnd (filewrite_loop (Suc (nat n)) ap f addr n 0 s) (\<lambda>i s. Ok (if i = n then n else - 1) s)
      | FD_NONE \<Rightarrow> Panic ''filewrite'')"

text \<open>
  \<open>pipealloc\<close>, with the branch \<open>bad\<close> as it finds the two files. The data of the new pipe is what
  \<open>kalloc\<close> has filled the page with.
\<close>

definition close_opt :: "nat option \<Rightarrow> 'a file_st_scheme \<Rightarrow> (unit, 'a file_st_scheme) outcome" where
  "close_opt f s = (case f of None \<Rightarrow> Ok () s | Some f \<Rightarrow> fileclose f s)"

definition pipealloc_bad :: "nat option \<Rightarrow> nat option \<Rightarrow> 'a file_st_scheme \<Rightarrow> ((nat \<times> nat) option, 'a file_st_scheme) outcome" where
  "pipealloc_bad f0 f1 s = bnd (close_opt f0 s) (\<lambda>_ s. bnd (close_opt f1 s) (\<lambda>_ s. Ok None s))"

definition pipealloc :: "'a file_st_scheme \<Rightarrow> ((nat \<times> nat) option, 'a file_st_scheme) outcome" where
  "pipealloc s =
     bnd (filealloc s) (\<lambda>r0 s.
     case r0 of None \<Rightarrow> pipealloc_bad None None s
     | Some f0 \<Rightarrow>
       bnd (filealloc s) (\<lambda>r1 s.
       case r1 of None \<Rightarrow> pipealloc_bad (Some f0) None s
       | Some f1 \<Rightarrow>
         bnd (kalloc s) (\<lambda>pi s.
         if pi = 0 then pipealloc_bad (Some f0) (Some f1) s
         else let s = set_pipe pi (\<lambda>x. x\<lparr>pi_readopen := True, pi_writeopen := True, pi_nwrite := 0, pi_nread := 0,
                    pi_data := replicate PIPESIZE 5\<rparr>) s;
                  s = initlock (PipeLock pi) ''pipe'' s;
                  s = set_file f0 (\<lambda>x. x\<lparr>f_type := FD_PIPE, f_readable := True, f_writable := False, f_pipe := pi\<rparr>) s;
                  s = set_file f1 (\<lambda>x. x\<lparr>f_type := FD_PIPE, f_readable := False, f_writable := True, f_pipe := pi\<rparr>) s
              in Ok (Some (f0, f1)) s)))"

end
