(* ===== verification/Proc.thy ===== *)
theory Proc
  imports File
begin

text \<open>
  The life of processes, \<open>kernel/proc.c\<close>: creation, memory, fork, exit and wait. The part of that
  file about scheduling is in the theory \<open>Proc_Table\<close>. The addresses that the linker gives to
  symbols are the record \<open>image\<close>. \<open>exit\<close> ends with the switch to the scheduler, from which it does
  not come back; \<open>wait\<close> that has to wait has the outcome \<open>Block\<close>.
\<close>

section \<open>Symbols and trap frames\<close>

record image =
  im_trampoline :: u64
  im_uservec :: u64
  im_userret :: u64
  im_forkret :: u64
  im_usertrap :: u64
  im_kernelvec :: u64

text \<open>The fields of \<open>struct trapframe\<close>, by their offsets in the page.\<close>

definition TF_kernel_satp :: u64 where "TF_kernel_satp = 0"
definition TF_kernel_sp :: u64 where "TF_kernel_sp = 8"
definition TF_kernel_trap :: u64 where "TF_kernel_trap = 16"
definition TF_epc :: u64 where "TF_epc = 24"
definition TF_kernel_hartid :: u64 where "TF_kernel_hartid = 32"
definition TF_sp :: u64 where "TF_sp = 48"
definition TF_a0 :: u64 where "TF_a0 = 112"
definition TF_a1 :: u64 where "TF_a1 = 120"
definition TF_a7 :: u64 where "TF_a7 = 168"
definition sizeof_trapframe :: nat where "sizeof_trapframe = 288"

definition tf_get :: "u64 \<Rightarrow> nat \<Rightarrow> 'a mem_st_scheme \<Rightarrow> u64" where
  "tf_get fld p s = load64 (mem s) (p_trapframe (procs s p) + fld)"

definition tf_set :: "u64 \<Rightarrow> nat \<Rightarrow> u64 \<Rightarrow> 'a mem_st_scheme \<Rightarrow> 'a mem_st_scheme" where
  "tf_set fld p v s = s\<lparr>mem := store64 (p_trapframe (procs s p) + fld) v (mem s)\<rparr>"

section \<open>Page tables of processes\<close>

fun proc_mapstacks_loop :: "('a mem_st_scheme) page_source \<Rightarrow> u64 \<Rightarrow> nat list \<Rightarrow> 'a mem_st_scheme \<Rightarrow>
    (unit, 'a mem_st_scheme) outcome" where
  "proc_mapstacks_loop ap kpgtbl [] s = Ok () s"
| "proc_mapstacks_loop ap kpgtbl (i # is) s =
     bnd (kalloc s) (\<lambda>pa s.
     if pa = 0 then Panic ''kalloc''
     else bnd (kvmmap ap kpgtbl (KSTACK i) pa PGSIZE (PTE_R OR PTE_W) s) (\<lambda>_ s. proc_mapstacks_loop ap kpgtbl is s))"

definition proc_mapstacks :: "('a mem_st_scheme) page_source \<Rightarrow> u64 \<Rightarrow> 'a mem_st_scheme \<Rightarrow> (unit, 'a mem_st_scheme) outcome" where
  "proc_mapstacks ap kpgtbl s = proc_mapstacks_loop ap kpgtbl [0..<NPROC] s"

definition proc_pagetable :: "('a mem_st_scheme) page_source \<Rightarrow> image \<Rightarrow> nat \<Rightarrow> 'a mem_st_scheme \<Rightarrow>
    (u64, 'a mem_st_scheme) outcome" where
  "proc_pagetable ap im p s =
     bnd (uvmcreate s) (\<lambda>pagetable s.
     if pagetable = 0 then Ok 0 s
     else bnd (mappages ap pagetable TRAMPOLINE PGSIZE (im_trampoline im) (PTE_R OR PTE_X) s) (\<lambda>r s.
       if r < 0 then bnd (uvmfree ap pagetable 0 s) (\<lambda>_ s. Ok 0 s)
       else bnd (mappages ap pagetable TRAPFRAME PGSIZE (p_trapframe (procs s p)) (PTE_R OR PTE_W) s) (\<lambda>r s.
         if r < 0 then bnd (uvmunmap ap pagetable TRAMPOLINE 1 False s) (\<lambda>_ s.
           bnd (uvmfree ap pagetable 0 s) (\<lambda>_ s. Ok 0 s))
         else Ok pagetable s)))"

definition proc_freepagetable :: "('a mem_st_scheme) page_source \<Rightarrow> u64 \<Rightarrow> u64 \<Rightarrow> 'a mem_st_scheme \<Rightarrow>
    (unit, 'a mem_st_scheme) outcome" where
  "proc_freepagetable ap pagetable sz s =
     bnd (uvmunmap ap pagetable TRAMPOLINE 1 False s) (\<lambda>_ s.
     bnd (uvmunmap ap pagetable TRAPFRAME 1 False s) (\<lambda>_ s.
     uvmfree ap pagetable sz s))"

section \<open>Creating and freeing\<close>

definition name0 :: "u8 list \<Rightarrow> u8 list" where
  "name0 xs = xs[0 := 0]"

definition freeproc :: "('a mem_st_scheme) page_source \<Rightarrow> nat \<Rightarrow> 'a mem_st_scheme \<Rightarrow> (unit, 'a mem_st_scheme) outcome" where
  "freeproc ap p s =
     bnd (if p_trapframe (procs s p) \<noteq> 0 then kfree (p_trapframe (procs s p)) s else Ok () s) (\<lambda>_ s.
     let s = set_proc p (\<lambda>x. x\<lparr>p_trapframe := 0\<rparr>) s
     in bnd (if p_pagetable (procs s p) \<noteq> 0 then proc_freepagetable ap (p_pagetable (procs s p)) (p_sz (procs s p)) s
             else Ok () s) (\<lambda>_ s.
        Ok () (set_proc p (\<lambda>x. x\<lparr>p_pagetable := 0, p_sz := 0, p_pid := 0, p_parent := None, p_name := name0 (p_name x),
          p_chan := None, p_killed := False, p_xstate := 0, p_state := UNUSED\<rparr>) s)))"

text \<open>The search of \<open>allocproc\<close> returns with the lock of the free entry held.\<close>

fun allocproc_find :: "nat list \<Rightarrow> 'a proc_st_scheme \<Rightarrow> (nat option, 'a proc_st_scheme) outcome" where
  "allocproc_find [] s = Ok None s"
| "allocproc_find (i # is) s =
     bnd (acquire (ProcLock i) s) (\<lambda>_ s.
     if p_state (procs s i) = UNUSED then Ok (Some i) s
     else bnd (release (ProcLock i) s) (\<lambda>_ s. allocproc_find is s))"

definition allocproc_fail :: "('a mem_st_scheme) page_source \<Rightarrow> nat \<Rightarrow> 'a mem_st_scheme \<Rightarrow> (nat option, 'a mem_st_scheme) outcome" where
  "allocproc_fail ap p s = bnd (freeproc ap p s) (\<lambda>_ s. bnd (release (ProcLock p) s) (\<lambda>_ s. Ok None s))"

definition allocproc :: "('a mem_st_scheme) page_source \<Rightarrow> image \<Rightarrow> 'a mem_st_scheme \<Rightarrow> (nat option, 'a mem_st_scheme) outcome" where
  "allocproc ap im s =
     bnd (allocproc_find [0..<NPROC] s) (\<lambda>r s.
     case r of None \<Rightarrow> Ok None s
     | Some p \<Rightarrow>
       bnd (allocpid s) (\<lambda>pid s.
       bnd (kalloc (set_proc p (\<lambda>x. x\<lparr>p_pid := pid, p_state := USED\<rparr>) s)) (\<lambda>tf s.
       let s = set_proc p (\<lambda>x. x\<lparr>p_trapframe := tf\<rparr>) s
       in if tf = 0 then allocproc_fail ap p s
          else bnd (proc_pagetable ap im p s) (\<lambda>pt s.
            let s = set_proc p (\<lambda>x. x\<lparr>p_pagetable := pt\<rparr>) s
            in if pt = 0 then allocproc_fail ap p s
               else Ok (Some p) (set_proc p (\<lambda>x. x\<lparr>p_ra := im_forkret im, p_sp := p_kstack x + PGSIZE\<rparr>) s)))))"

definition initcode :: "u8 list" where
  "initcode = [0x17, 0x05, 0x00, 0x00, 0x13, 0x05, 0x45, 0x02, 0x97, 0x05, 0x00, 0x00, 0x93, 0x85, 0x35, 0x02, 0x93, 0x08,
     0x70, 0x00, 0x73, 0x00, 0x00, 0x00, 0x93, 0x08, 0x20, 0x00, 0x73, 0x00, 0x00, 0x00, 0xef, 0xf0, 0x9f, 0xff,
     0x2f, 0x69, 0x6e, 0x69, 0x74, 0x00, 0x00, 0x24, 0x00, 0x00, 0x00, 0x00, 0x00, 0x00, 0x00, 0x00]"

text \<open>\<open>safestrcpy\<close> into the 16 bytes of \<open>p->name\<close>.\<close>

definition set_name :: "u8 list \<Rightarrow> u8 list \<Rightarrow> u8 list" where
  "set_name src name = put_bytes 0 (take 15 (takeWhile (\<lambda>x. x \<noteq> 0) src) @ [0]) name"

definition cstr :: "string \<Rightarrow> u8 list" where
  "cstr xs = map (\<lambda>c. of_nat (of_char c)) xs"

definition userinit :: "('a fs_st_scheme) page_source \<Rightarrow> image \<Rightarrow> 'a fs_st_scheme \<Rightarrow> (unit, 'a fs_st_scheme) outcome" where
  "userinit ap im s =
     bnd (allocproc ap im s) (\<lambda>r s.
     let s = s\<lparr>initproc := r\<rparr>
     in deref r (\<lambda>p.
        bnd (uvmfirst ap (p_pagetable (procs s p)) initcode s) (\<lambda>_ s.
        let s = set_proc p (\<lambda>x. x\<lparr>p_sz := PGSIZE\<rparr>) s;
            s = tf_set TF_epc p 0 s;
            s = tf_set TF_sp p PGSIZE s;
            s = set_proc p (\<lambda>x. x\<lparr>p_name := set_name (cstr ''initcode'') (p_name x)\<rparr>) s
        in bnd (namei ap (cstr ''/'') s) (\<lambda>cwd s.
           release (ProcLock p) (set_proc p (\<lambda>x. x\<lparr>p_cwd := cwd, p_state := RUNNABLE\<rparr>) s)))))"

definition growproc :: "('a mem_st_scheme) page_source \<Rightarrow> int \<Rightarrow> 'a mem_st_scheme \<Rightarrow> (int, 'a mem_st_scheme) outcome" where
  "growproc ap n s =
     bnd (this_proc_deref s) (\<lambda>p s.
     let sz = p_sz (procs s p)
     in if n > 0 then
          bnd (uvmalloc ap (p_pagetable (procs s p)) sz (sz + word_of_int n) PTE_W s) (\<lambda>sz s.
          if sz = 0 then Ok (- 1) s else Ok 0 (set_proc p (\<lambda>x. x\<lparr>p_sz := sz\<rparr>) s))
        else if n < 0 then
          bnd (uvmdealloc ap (p_pagetable (procs s p)) sz (sz + word_of_int n) s) (\<lambda>sz s.
          Ok 0 (set_proc p (\<lambda>x. x\<lparr>p_sz := sz\<rparr>) s))
        else Ok 0 (set_proc p (\<lambda>x. x\<lparr>p_sz := sz\<rparr>) s))"

section \<open>Fork, exit and wait\<close>

fun fork_files :: "nat \<Rightarrow> nat \<Rightarrow> nat list \<Rightarrow> 'a file_st_scheme \<Rightarrow> (unit, 'a file_st_scheme) outcome" where
  "fork_files p np [] s = Ok () s"
| "fork_files p np (fd # fds) s =
     (case p_ofile (procs s p) fd of
        None \<Rightarrow> fork_files p np fds s
      | Some f \<Rightarrow> bnd (filedup f s) (\<lambda>f s.
          fork_files p np fds (set_proc np (\<lambda>x. x\<lparr>p_ofile := (p_ofile x)(fd := Some f)\<rparr>) s)))"

definition fork :: "('a file_st_scheme) page_source \<Rightarrow> image \<Rightarrow> 'a file_st_scheme \<Rightarrow> (int, 'a file_st_scheme) outcome" where
  "fork ap im s =
     bnd (this_proc_deref s) (\<lambda>p s.
     bnd (allocproc ap im s) (\<lambda>r s.
     case r of None \<Rightarrow> Ok (- 1) s
     | Some np \<Rightarrow>
       bnd (uvmcopy ap (p_pagetable (procs s p)) (p_pagetable (procs s np)) (p_sz (procs s p)) s) (\<lambda>r s.
       if r < 0 then bnd (freeproc ap np s) (\<lambda>_ s. bnd (release (ProcLock np) s) (\<lambda>_ s. Ok (- 1) s))
       else let s = set_proc np (\<lambda>x. x\<lparr>p_sz := p_sz (procs s p)\<rparr>) s;
                s = s\<lparr>mem := store_bytes (p_trapframe (procs s np))
                      (load_bytes (mem s) (p_trapframe (procs s p)) sizeof_trapframe) (mem s)\<rparr>;
                s = tf_set TF_a0 np 0 s
            in bnd (fork_files p np [0..<NOFILE] s) (\<lambda>_ s.
               bnd (deref (p_cwd (procs s p)) (\<lambda>cwd. idup cwd s)) (\<lambda>cwd s.
               let s = set_proc np (\<lambda>x. x\<lparr>p_cwd := Some cwd, p_name := set_name (p_name (procs s p)) (p_name x)\<rparr>) s;
                   pid = p_pid (procs s np)
               in bnd (release (ProcLock np) s) (\<lambda>_ s.
                  bnd (acquire WaitLock s) (\<lambda>_ s.
                  bnd (release WaitLock (set_proc np (\<lambda>x. x\<lparr>p_parent := Some p\<rparr>) s)) (\<lambda>_ s.
                  bnd (acquire (ProcLock np) s) (\<lambda>_ s.
                  bnd (release (ProcLock np) (set_proc np (\<lambda>x. x\<lparr>p_state := RUNNABLE\<rparr>) s)) (\<lambda>_ s.
                  Ok pid s))))))))))"

fun exit_files :: "nat \<Rightarrow> nat list \<Rightarrow> 'a file_st_scheme \<Rightarrow> (unit, 'a file_st_scheme) outcome" where
  "exit_files p [] s = Ok () s"
| "exit_files p (fd # fds) s =
     (case p_ofile (procs s p) fd of
        None \<Rightarrow> exit_files p fds s
      | Some f \<Rightarrow> bnd (fileclose f s) (\<lambda>_ s.
          exit_files p fds (set_proc p (\<lambda>x. x\<lparr>p_ofile := (p_ofile x)(fd := None)\<rparr>) s)))"

definition exit :: "u32 \<Rightarrow> 'a file_st_scheme \<Rightarrow> (bool, 'a file_st_scheme) outcome" where
  "exit status s =
     bnd (this_proc_deref s) (\<lambda>p s.
     if initproc s = Some p then Panic ''init exiting''
     else bnd (exit_files p [0..<NOFILE] s) (\<lambda>_ s.
       bnd (begin_op s) (\<lambda>_ s.
       bnd (deref (p_cwd (procs s p)) (\<lambda>cwd. iput cwd s)) (\<lambda>_ s.
       bnd (end_op s) (\<lambda>_ s.
       bnd (acquire WaitLock (set_proc p (\<lambda>x. x\<lparr>p_cwd := None\<rparr>) s)) (\<lambda>_ s.
       bnd (reparent p s) (\<lambda>_ s.
       bnd (wakeup (map_option ChanProc (p_parent (procs s p))) s) (\<lambda>_ s.
       exit_leave p status s))))))))"

text \<open>
  The scan of \<open>wait\<close>: \<open>Inl r\<close> when it returns \<open>r\<close>, with the locks released, and otherwise
  \<open>Inr havekids\<close>.
\<close>

fun wait_scan :: "('a mem_st_scheme) page_source \<Rightarrow> nat \<Rightarrow> u64 \<Rightarrow> nat list \<Rightarrow> bool \<Rightarrow> 'a mem_st_scheme \<Rightarrow>
    (int + bool, 'a mem_st_scheme) outcome" where
  "wait_scan ap p addr [] havekids s = Ok (Inr havekids) s"
| "wait_scan ap p addr (i # is) havekids s =
     (if p_parent (procs s i) = Some p then
        bnd (acquire (ProcLock i) s) (\<lambda>_ s.
        if p_state (procs s i) = ZOMBIE then
          let pid = p_pid (procs s i)
          in bnd (if addr \<noteq> 0 then copyout ap (p_pagetable (procs s p)) addr (bytes_of_word 4 (p_xstate (procs s i))) s
                  else Ok 0 s) (\<lambda>r s.
             if r < 0 then bnd (release (ProcLock i) s) (\<lambda>_ s. bnd (release WaitLock s) (\<lambda>_ s. Ok (Inl (- 1)) s))
             else bnd (freeproc ap i s) (\<lambda>_ s.
               bnd (release (ProcLock i) s) (\<lambda>_ s.
               bnd (release WaitLock s) (\<lambda>_ s. Ok (Inl pid) s))))
        else bnd (release (ProcLock i) s) (\<lambda>_ s. wait_scan ap p addr is True s))
      else wait_scan ap p addr is havekids s)"

definition wait :: "('a mem_st_scheme) page_source \<Rightarrow> u64 \<Rightarrow> 'a mem_st_scheme \<Rightarrow> (int, 'a mem_st_scheme) outcome" where
  "wait ap addr s =
     bnd (this_proc_deref s) (\<lambda>p s.
     bnd (acquire WaitLock s) (\<lambda>_ s.
     bnd (wait_scan ap p addr [0..<NPROC] False s) (\<lambda>r s.
     case r of
       Inl r \<Rightarrow> Ok r s
     | Inr havekids \<Rightarrow>
         bnd (if \<not> havekids then Ok True s else killed p s) (\<lambda>stop s.
         if stop then bnd (release WaitLock s) (\<lambda>_ s. Ok (- 1) s) else Block))))"

end
