(* ===== verification/Exec.thy ===== *)
theory Exec
  imports Proc
begin

text \<open>
  Program loading, \<open>kernel/exec.c\<close>. The header structures of \<open>include/elf.h\<close> are read from the
  bytes of the file. Arguments are byte lists without their final zero. The label \<open>bad\<close> is
  \<open>exec_bad\<close>, with the page table, its size and the inode as they are at the jump.
\<close>

section \<open>The file format\<close>

definition ELF_MAGIC :: u32 where "ELF_MAGIC = 0x464C457F"
definition ELF_PROG_LOAD :: u32 where "ELF_PROG_LOAD = 1"

definition get64 :: "nat \<Rightarrow> u8 list \<Rightarrow> u64" where
  "get64 i xs = word_of_bytes (take 8 (drop i xs))"

record elfhdr =
  elf_magic :: u32
  elf_entry :: u64
  elf_phoff :: u64
  elf_phnum :: u16

definition sizeof_elfhdr :: u32 where "sizeof_elfhdr = 64"

definition read_elfhdr :: "u8 list \<Rightarrow> elfhdr" where
  "read_elfhdr d = \<lparr>elf_magic = get32 0 d, elf_entry = get64 24 d, elf_phoff = get64 32 d, elf_phnum = get16 56 d\<rparr>"

record proghdr =
  ph_type :: u32
  ph_flags :: u32
  ph_off :: u64
  ph_vaddr :: u64
  ph_filesz :: u64
  ph_memsz :: u64

definition sizeof_proghdr :: u32 where "sizeof_proghdr = 56"

definition read_proghdr :: "u8 list \<Rightarrow> proghdr" where
  "read_proghdr d = \<lparr>ph_type = get32 0 d, ph_flags = get32 4 d, ph_off = get64 8 d, ph_vaddr = get64 16 d,
     ph_filesz = get64 32 d, ph_memsz = get64 40 d\<rparr>"

definition flags2perm :: "u32 \<Rightarrow> u64" where
  "flags2perm flags =
     (let perm = (if flags AND 1 \<noteq> 0 then PTE_X else 0)
      in if flags AND 2 \<noteq> 0 then perm OR PTE_W else perm)"

section \<open>Loading\<close>

fun loadseg_loop :: "('a fs_st_scheme) page_source \<Rightarrow> u64 \<Rightarrow> u64 \<Rightarrow> nat \<Rightarrow> u32 \<Rightarrow> u32 \<Rightarrow> nat list \<Rightarrow> 'a fs_st_scheme \<Rightarrow>
    (int, 'a fs_st_scheme) outcome" where
  "loadseg_loop ap pagetable va ip offset sz [] s = Ok 0 s"
| "loadseg_loop ap pagetable va ip offset sz (k # ks) s =
     (let i = of_nat (4096 * k) :: u32
      in bnd (walkaddr ap pagetable (va + ucast i) s) (\<lambda>pa s.
         if pa = 0 then Panic ''loadseg: address should exist''
         else let n = (if sz - i < 4096 then sz - i else 4096)
         in bnd (readi ap ip False pa (mem s) (offset + i) n s) (\<lambda>(r, km) s.
            let s = s\<lparr>mem := km\<rparr>
            in if r \<noteq> sint n then Ok (- 1) s
               else loadseg_loop ap pagetable va ip offset sz ks s)))"

definition loadseg :: "('a fs_st_scheme) page_source \<Rightarrow> u64 \<Rightarrow> u64 \<Rightarrow> nat \<Rightarrow> u32 \<Rightarrow> u32 \<Rightarrow> 'a fs_st_scheme \<Rightarrow>
    (int, 'a fs_st_scheme) outcome" where
  "loadseg ap pagetable va ip offset sz s =
     loadseg_loop ap pagetable va ip offset sz [0..<(unat sz + 4095) div 4096] s"

text \<open>
  The loop over the program headers. The result is the size of the image so far, and whether the
  loop came to its end.
\<close>

fun load_segments :: "('a fs_st_scheme) page_source \<Rightarrow> u64 \<Rightarrow> nat \<Rightarrow> u32 \<Rightarrow> nat \<Rightarrow> u64 \<Rightarrow> 'a fs_st_scheme \<Rightarrow>
    (u64 \<times> bool, 'a fs_st_scheme) outcome" where
  "load_segments ap pagetable ip off 0 sz s = Ok (sz, True) s"
| "load_segments ap pagetable ip off (Suc n) sz s =
     bnd (readi ap ip False 0 auto_object off sizeof_proghdr s) (\<lambda>(r, km) s.
     let ph = read_proghdr (load_bytes km 0 56)
     in if r \<noteq> 56 then Ok (sz, False) s
        else if ph_type ph \<noteq> ELF_PROG_LOAD then load_segments ap pagetable ip (off + sizeof_proghdr) n sz s
        else if ph_memsz ph < ph_filesz ph then Ok (sz, False) s
        else if ph_vaddr ph + ph_memsz ph < ph_vaddr ph then Ok (sz, False) s
        else if ph_vaddr ph mod PGSIZE \<noteq> 0 then Ok (sz, False) s
        else bnd (uvmalloc ap pagetable sz (ph_vaddr ph + ph_memsz ph) (flags2perm (ph_flags ph)) s) (\<lambda>sz1 s.
          if sz1 = 0 then Ok (sz, False) s
          else bnd (loadseg ap pagetable (ph_vaddr ph) ip (ucast (ph_off ph)) (ucast (ph_filesz ph)) s) (\<lambda>r s.
            if r < 0 then Ok (sz1, False) s
            else load_segments ap pagetable ip (off + sizeof_proghdr) n sz1 s)))"

text \<open>Pushing the argument strings; \<open>None\<close> is a jump to \<open>bad\<close>. \<open>ustack\<close> collects their addresses.\<close>

fun push_args :: "('a fs_st_scheme) page_source \<Rightarrow> u64 \<Rightarrow> u64 \<Rightarrow> u8 list list \<Rightarrow> u64 list \<Rightarrow> u64 \<Rightarrow> 'a fs_st_scheme \<Rightarrow>
    ((u64 \<times> u64 list) option, 'a fs_st_scheme) outcome" where
  "push_args ap pagetable stackbase [] ustack sp s = Ok (Some (sp, ustack)) s"
| "push_args ap pagetable stackbase (arg # args) ustack sp s =
     (if length ustack \<ge> MAXARG then Ok None s
      else let sp = sp - of_nat (length arg + 1); sp = sp - sp mod 16
      in if sp < stackbase then Ok None s
         else bnd (copyout ap pagetable sp (arg @ [0]) s) (\<lambda>r s.
           if r < 0 then Ok None s
           else push_args ap pagetable stackbase args (ustack @ [sp]) sp s))"

definition exec_bad :: "('a log_st_scheme \<Rightarrow> (unit, 'a log_st_scheme) outcome) \<Rightarrow> ('a log_st_scheme) page_source \<Rightarrow> u64 \<Rightarrow> u64 \<Rightarrow>
    'a log_st_scheme \<Rightarrow> (int, 'a log_st_scheme) outcome" where
  "exec_bad put ap pagetable sz s =
     bnd (if pagetable \<noteq> 0 then proc_freepagetable ap pagetable sz s else Ok () s) (\<lambda>_ s.
     bnd (put s) (\<lambda>_ s. Ok (- 1) s))"

text \<open>The part of \<open>bad\<close> for an inode that is still locked.\<close>

definition exec_put :: "nat \<Rightarrow> 'a fs_st_scheme \<Rightarrow> (unit, 'a fs_st_scheme) outcome" where
  "exec_put ip s = bnd (iunlockput ip s) (\<lambda>_ s. end_op s)"

text \<open>The last path element, after the last slash.\<close>

definition path_last :: "u8 list \<Rightarrow> u8 list" where
  "path_last path = rev (takeWhile (\<lambda>x. x \<noteq> slash) (rev path))"

text \<open>From the end of loading on: the stack, its contents, and the switch to the new image.\<close>

definition exec_commit :: "('a fs_st_scheme) page_source \<Rightarrow> u8 list \<Rightarrow> u8 list list \<Rightarrow> u64 \<Rightarrow> u64 \<Rightarrow> u64 \<Rightarrow> 'a fs_st_scheme \<Rightarrow>
    (int, 'a fs_st_scheme) outcome" where
  "exec_commit ap path argv entry pagetable sz s =
     bnd (this_proc_deref s) (\<lambda>p s.
     let oldsz = p_sz (procs s p); sz = PGROUNDUP sz
     in bnd (uvmalloc ap pagetable sz (sz + 2 * PGSIZE) PTE_W s) (\<lambda>sz1 s.
        if sz1 = 0 then exec_bad (Ok ()) ap pagetable sz s
        else let sz = sz1
        in bnd (uvmclear ap pagetable (sz - 2 * PGSIZE) s) (\<lambda>_ s.
           let sp = sz; stackbase = sp - PGSIZE
           in bnd (push_args ap pagetable stackbase argv [] sp s) (\<lambda>r s.
              case r of None \<Rightarrow> exec_bad (Ok ()) ap pagetable sz s
              | Some (sp, ustack) \<Rightarrow>
                if length ustack \<ge> MAXARG then Undef ''ustack''
                else let argc = length ustack;
                         sp = sp - of_nat ((argc + 1) * 8);
                         sp = sp - sp mod 16
                in if sp < stackbase then exec_bad (Ok ()) ap pagetable sz s
                   else bnd (copyout ap pagetable sp (concat (map (bytes_of_word 8) (ustack @ [0]))) s) (\<lambda>r s.
                     if r < 0 then exec_bad (Ok ()) ap pagetable sz s
                     else let s = tf_set TF_a1 p sp s;
                              s = set_proc p (\<lambda>x. x\<lparr>p_name := set_name (path_last path) (p_name x)\<rparr>) s;
                              oldpagetable = p_pagetable (procs s p);
                              s = set_proc p (\<lambda>x. x\<lparr>p_pagetable := pagetable, p_sz := sz\<rparr>) s;
                              s = tf_set TF_epc p entry s;
                              s = tf_set TF_sp p sp s
                          in bnd (proc_freepagetable ap oldpagetable oldsz s) (\<lambda>_ s. Ok (int argc) s))))))"

definition exec :: "('a fs_st_scheme) page_source \<Rightarrow> image \<Rightarrow> u8 list \<Rightarrow> u8 list list \<Rightarrow> 'a fs_st_scheme \<Rightarrow>
    (int, 'a fs_st_scheme) outcome" where
  "exec ap im path argv s =
     bnd (this_proc_deref s) (\<lambda>p s.
     bnd (begin_op s) (\<lambda>_ s.
     bnd (namei ap path s) (\<lambda>r s.
     case r of None \<Rightarrow> bnd (end_op s) (\<lambda>_ s. Ok (- 1) s)
     | Some ip \<Rightarrow>
       bnd (ilock (Some ip) s) (\<lambda>_ s.
       bnd (readi ap ip False 0 auto_object 0 sizeof_elfhdr s) (\<lambda>(r, km) s.
       let elf = read_elfhdr (load_bytes km 0 64)
       in if r \<noteq> 64 then exec_bad (exec_put ip) ap 0 0 s
          else if elf_magic elf \<noteq> ELF_MAGIC then exec_bad (exec_put ip) ap 0 0 s
          else bnd (proc_pagetable ap im p s) (\<lambda>pagetable s.
            if pagetable = 0 then exec_bad (exec_put ip) ap 0 0 s
            else bnd (load_segments ap pagetable ip (ucast (elf_phoff elf)) (unat (elf_phnum elf)) 0 s) (\<lambda>(sz, ok) s.
              if \<not> ok then exec_bad (exec_put ip) ap pagetable sz s
              else bnd (iunlockput ip s) (\<lambda>_ s.
                bnd (end_op s) (\<lambda>_ s.
                exec_commit ap path argv (elf_entry elf) pagetable sz s))))))))) "

end
