(* ===== verification/Virtio.thy ===== *)
theory Virtio
  imports Exec
begin

text \<open>
  The disk driver \<open>kernel/virtio_disk.c\<close>. The descriptors, the two rings and the driver's own
  tables are typed maps; a descriptor address says which object it points to. The device is outside
  the program: the values its registers return are part of the state, what is written to them is
  listed in \<open>vd_out\<close>. \<open>virtio_disk_rw\<close> is \<open>disk_request\<close>: the part up to the wait, \<open>virtio_disk_submit\<close>, the
  wait, \<open>virtio_disk_wait\<close>, and the part after it, \<open>virtio_disk_finish\<close>.
\<close>

section \<open>State\<close>

abbreviation (input) NUM :: nat where "NUM \<equiv> 8"

datatype daddr = NoAddr | ReqAt nat | DataOf nat | StatusAt nat

record virtq_desc =
  vq_addr :: daddr
  vq_len :: u32
  vq_flags :: u16
  vq_next :: u16

record virtio_blk_req =
  rq_type :: u32
  rq_reserved :: u32
  rq_sector :: u64

record vio_st = file_st +
  vd_pages :: "u64 \<times> u64 \<times> u64"
  vd_desc :: "nat \<Rightarrow> virtq_desc"
  vd_avail_idx :: u16
  vd_avail_ring :: "nat \<Rightarrow> u16"
  vd_used_ring_idx :: u16
  vd_used_ring :: "nat \<Rightarrow> u32"
  vd_free :: "nat \<Rightarrow> bool"
  vd_used_idx :: u16
  vd_info_b :: "nat \<Rightarrow> nat option"
  vd_info_status :: "nat \<Rightarrow> u8"
  vd_ops :: "nat \<Rightarrow> virtio_blk_req"
  vd_regs :: "nat \<Rightarrow> u32"
  vd_status_reads :: u32
  vd_out :: "(nat \<times> u32) list"

definition VRING_DESC_F_NEXT :: u16 where "VRING_DESC_F_NEXT = 1"
definition VRING_DESC_F_WRITE :: u16 where "VRING_DESC_F_WRITE = 2"
definition VIRTIO_BLK_T_IN :: u32 where "VIRTIO_BLK_T_IN = 0"
definition VIRTIO_BLK_T_OUT :: u32 where "VIRTIO_BLK_T_OUT = 1"

definition mmio_write :: "nat \<Rightarrow> u32 \<Rightarrow> 'a vio_st_scheme \<Rightarrow> 'a vio_st_scheme" where
  "mmio_write r v s = s\<lparr>vd_out := vd_out s @ [(r, v)]\<rparr>"

section \<open>Initialisation\<close>

text \<open>
  \<open>vd_regs\<close> are the read-only registers; \<open>vd_status_reads\<close> is what the status register returns
  when it is read back. The feature bits are masked one after the other.
\<close>

definition feature_mask :: "u64 \<Rightarrow> u64" where
  "feature_mask f = fold (\<lambda>k f. f AND NOT (push_bit k 1)) [5, 7, 11, 12, 27, 29, 28] f"

definition virtio_disk_queue :: "u32 \<Rightarrow> 'a vio_st_scheme \<Rightarrow> (unit, 'a vio_st_scheme) outcome" where
  "virtio_disk_queue status s =
     bnd (kalloc s) (\<lambda>d s.
     bnd (kalloc s) (\<lambda>a s.
     bnd (kalloc s) (\<lambda>u s.
     if d = 0 \<or> a = 0 \<or> u = 0 then Panic ''virtio disk kalloc''
     else let s = s\<lparr>mem := memset u 0 (ucast PGSIZE) (memset a 0 (ucast PGSIZE) (memset d 0 (ucast PGSIZE) (mem s))),
                vd_pages := (d, a, u), vd_desc := (\<lambda>_. \<lparr>vq_addr = NoAddr, vq_len = 0, vq_flags = 0, vq_next = 0\<rparr>),
                vd_avail_idx := 0, vd_avail_ring := (\<lambda>_. 0), vd_used_ring_idx := 0, vd_used_ring := (\<lambda>_. 0)\<rparr>;
              s = mmio_write 0x038 (of_nat NUM) s;
              s = mmio_write 0x080 (ucast d) s;
              s = mmio_write 0x084 (ucast (drop_bit 32 d)) s;
              s = mmio_write 0x090 (ucast a) s;
              s = mmio_write 0x094 (ucast (drop_bit 32 a)) s;
              s = mmio_write 0x0a0 (ucast u) s;
              s = mmio_write 0x0a4 (ucast (drop_bit 32 u)) s;
              s = mmio_write 0x044 1 s;
              s = s\<lparr>vd_free := (\<lambda>i. i < NUM \<or> vd_free s i)\<rparr>
          in Ok () (mmio_write 0x070 (status OR 4) s))))"

definition virtio_disk_init :: "'a vio_st_scheme \<Rightarrow> (unit, 'a vio_st_scheme) outcome" where
  "virtio_disk_init s =
     (let s = initlock VdiskLock ''virtio_disk'' s
      in if vd_regs s 0x000 \<noteq> 0x74726976 \<or> vd_regs s 0x004 \<noteq> 2 \<or> vd_regs s 0x008 \<noteq> 2 \<or> vd_regs s 0x00c \<noteq> 0x554d4551
         then Panic ''could not find virtio disk''
         else let s = mmio_write 0x070 0 s;
                  s = mmio_write 0x070 1 s;
                  s = mmio_write 0x070 (1 OR 2) s;
                  s = mmio_write 0x020 (ucast (feature_mask (ucast (vd_regs s 0x010)))) s;
                  s = mmio_write 0x070 (1 OR 2 OR 8) s;
                  status = vd_status_reads s
              in if status AND 8 = 0 then Panic ''virtio disk FEATURES_OK unset''
                 else let s = mmio_write 0x030 0 s
                 in if vd_regs s 0x044 \<noteq> 0 then Panic ''virtio disk should not be ready''
                    else if vd_regs s 0x034 = 0 then Panic ''virtio disk has no queue 0''
                    else if vd_regs s 0x034 < of_nat NUM then Panic ''virtio disk max queue too short''
                    else virtio_disk_queue status s)"

section \<open>Descriptors\<close>

definition alloc_desc :: "'a vio_st_scheme \<Rightarrow> nat option \<times> 'a vio_st_scheme" where
  "alloc_desc s =
     (case find (vd_free s) [0..<NUM] of
        Some i \<Rightarrow> (Some i, s\<lparr>vd_free := (vd_free s)(i := False)\<rparr>)
      | None \<Rightarrow> (None, s))"

definition free_desc :: "nat \<Rightarrow> 'a vio_st_scheme \<Rightarrow> (unit, 'a vio_st_scheme) outcome" where
  "free_desc i s =
     (if i \<ge> NUM then Panic ''free_desc 1''
      else if vd_free s i then Panic ''free_desc 2''
      else wakeup (Some ChanDiskFree)
        (s\<lparr>vd_desc := (vd_desc s)(i := \<lparr>vq_addr = NoAddr, vq_len = 0, vq_flags = 0, vq_next = 0\<rparr>),
           vd_free := (vd_free s)(i := True)\<rparr>))"

text \<open>A chain has at most \<open>NUM\<close> descriptors: freeing one twice is a panic.\<close>

fun free_chain_loop :: "nat \<Rightarrow> nat \<Rightarrow> 'a vio_st_scheme \<Rightarrow> (unit, 'a vio_st_scheme) outcome" where
  "free_chain_loop 0 i s = Block"
| "free_chain_loop (Suc n) i s =
     (let flag = vq_flags (vd_desc s i); nxt = vq_next (vd_desc s i)
      in bnd (free_desc i s) (\<lambda>_ s.
         if flag AND VRING_DESC_F_NEXT \<noteq> 0 then free_chain_loop n (unat nxt) s else Ok () s))"

definition free_chain :: "nat \<Rightarrow> 'a vio_st_scheme \<Rightarrow> (unit, 'a vio_st_scheme) outcome" where
  "free_chain i s = free_chain_loop (NUM + 1) i s"

fun free_descs :: "nat list \<Rightarrow> 'a vio_st_scheme \<Rightarrow> (unit, 'a vio_st_scheme) outcome" where
  "free_descs [] s = Ok () s"
| "free_descs (i # is) s = bnd (free_desc i s) (\<lambda>_ s. free_descs is s)"

fun alloc3_desc_loop :: "nat \<Rightarrow> nat list \<Rightarrow> 'a vio_st_scheme \<Rightarrow> (nat list option, 'a vio_st_scheme) outcome" where
  "alloc3_desc_loop 0 idx s = Ok (Some idx) s"
| "alloc3_desc_loop (Suc n) idx s =
     (case alloc_desc s of
        (Some i, s) \<Rightarrow> alloc3_desc_loop n (idx @ [i]) s
      | (None, s) \<Rightarrow> bnd (free_descs idx s) (\<lambda>_ s. Ok None s))"

definition alloc3_desc :: "'a vio_st_scheme \<Rightarrow> (nat list option, 'a vio_st_scheme) outcome" where
  "alloc3_desc s = alloc3_desc_loop 3 [] s"

section \<open>Requests\<close>

definition set_desc :: "nat \<Rightarrow> virtq_desc \<Rightarrow> 'a vio_st_scheme \<Rightarrow> 'a vio_st_scheme" where
  "set_desc i d s = s\<lparr>vd_desc := (vd_desc s)(i := d)\<rparr>"

text \<open>The chain of descriptors for buffer \<open>b\<close>.\<close>

definition format_chain :: "nat \<Rightarrow> nat \<Rightarrow> nat \<Rightarrow> nat \<Rightarrow> bool \<Rightarrow> 'a vio_st_scheme \<Rightarrow> 'a vio_st_scheme" where
  "format_chain i0 i1 i2 b write s =
     (let sector = ucast (b_blockno (bufs s b) * 2) :: u64;
          s = s\<lparr>vd_ops := (vd_ops s)(i0 := \<lparr>rq_type = (if write then VIRTIO_BLK_T_OUT else VIRTIO_BLK_T_IN),
                rq_reserved = 0, rq_sector = sector\<rparr>)\<rparr>;
          s = set_desc i0 \<lparr>vq_addr = ReqAt i0, vq_len = 16, vq_flags = VRING_DESC_F_NEXT, vq_next = of_nat i1\<rparr> s;
          s = set_desc i1 \<lparr>vq_addr = DataOf b, vq_len = of_nat BSIZE,
                vq_flags = (if write then 0 else VRING_DESC_F_WRITE) OR VRING_DESC_F_NEXT, vq_next = of_nat i2\<rparr> s;
          s = s\<lparr>vd_info_status := (vd_info_status s)(i0 := 0xff)\<rparr>
      in set_desc i2 \<lparr>vq_addr = StatusAt i0, vq_len = 1, vq_flags = VRING_DESC_F_WRITE, vq_next = 0\<rparr> s)"

definition virtio_disk_submit :: "nat \<Rightarrow> bool \<Rightarrow> 'a vio_st_scheme \<Rightarrow> (nat, 'a vio_st_scheme) outcome" where
  "virtio_disk_submit b write s =
     bnd (acquire VdiskLock s) (\<lambda>_ s.
     bnd (alloc3_desc s) (\<lambda>r s.
     case r of
       Some [i0, i1, i2] \<Rightarrow>
         let s = format_chain i0 i1 i2 b write s;
             s = set_buf b (\<lambda>x. x\<lparr>b_disk := True\<rparr>) s;
             s = s\<lparr>vd_info_b := (vd_info_b s)(i0 := Some b)\<rparr>;
             s = s\<lparr>vd_avail_ring := (vd_avail_ring s)(unat (vd_avail_idx s) mod NUM := of_nat i0)\<rparr>;
             s = s\<lparr>vd_avail_idx := vd_avail_idx s + 1\<rparr>
         in Ok i0 (mmio_write 0x050 0 s)
     | _ \<Rightarrow> Block))"

text \<open>
  The wait \<open>while (b->disk == 1)\<close> of process \<open>p\<close>. In a turn \<open>p\<close> goes to sleep and its hart to the
  scheduler; when a wakeup has made \<open>p\<close> runnable, the scheduler dispatches it, \<open>sleep\<close> returns and the
  flag is tested again. What the device, the interrupt handler and the other processes do while \<open>p\<close>
  sleeps is given by \<open>meanwhile\<close>, with one entry for each sleep. A process that nobody wakes is asleep
  for good, the outcome \<open>Block\<close>.
\<close>

fun virtio_disk_wait :: "('a vio_st_scheme \<Rightarrow> (unit, 'a vio_st_scheme) outcome) list \<Rightarrow> nat \<Rightarrow> nat \<Rightarrow>
    'a vio_st_scheme \<Rightarrow> (unit, 'a vio_st_scheme) outcome" where
  "virtio_disk_wait meanwhile p b s =
     (if \<not> b_disk (bufs s b) then Ok () s
      else case meanwhile of
        [] \<Rightarrow> Block
      | e # es \<Rightarrow>
          bnd (sleep_leave (ChanDiskBuf b) VdiskLock s) (\<lambda>ie s.
          bnd (scheduler_resume p s) (\<lambda>_ s.
          bnd (e s) (\<lambda>_ s.
          bnd (scheduler_dispatch p s) (\<lambda>ran s.
          if \<not> ran then Block
          else bnd (sleep_return p VdiskLock ie s) (\<lambda>_ s.
            virtio_disk_wait es p b s))))))"

declare virtio_disk_wait.simps [simp del]

definition virtio_disk_finish :: "nat \<Rightarrow> 'a vio_st_scheme \<Rightarrow> (unit, 'a vio_st_scheme) outcome" where
  "virtio_disk_finish i0 s =
     bnd (free_chain i0 (s\<lparr>vd_info_b := (vd_info_b s)(i0 := None)\<rparr>)) (\<lambda>_ s. release VdiskLock s)"

text \<open>The whole of \<open>virtio_disk_rw\<close>, called by process \<open>p\<close>.\<close>

definition disk_request :: "('a vio_st_scheme \<Rightarrow> (unit, 'a vio_st_scheme) outcome) list \<Rightarrow> nat \<Rightarrow> nat \<Rightarrow> bool \<Rightarrow>
    'a vio_st_scheme \<Rightarrow> (unit, 'a vio_st_scheme) outcome" where
  "disk_request meanwhile p b write s =
     bnd (virtio_disk_submit b write s) (\<lambda>i0 s.
     bnd (virtio_disk_wait meanwhile p b s) (\<lambda>_ s.
     virtio_disk_finish i0 s))"

text \<open>
  The loop over the used ring. The index of the device stays the same meanwhile, so that at most
  \<open>used->idx - used_idx\<close> turns are made.
\<close>

fun virtio_disk_intr_loop :: "nat \<Rightarrow> 'a vio_st_scheme \<Rightarrow> (unit, 'a vio_st_scheme) outcome" where
  "virtio_disk_intr_loop 0 s = Block"
| "virtio_disk_intr_loop (Suc n) s =
     (if vd_used_idx s \<noteq> vd_used_ring_idx s then
        let id = unat (vd_used_ring s (unat (vd_used_idx s) mod NUM))
        in if id \<ge> NUM then Undef ''disk.info''
           else if vd_info_status s id \<noteq> 0 then Panic ''virtio_disk_intr status''
           else deref (vd_info_b s id) (\<lambda>b.
             bnd (wakeup (Some (ChanDiskBuf b)) (set_buf b (\<lambda>x. x\<lparr>b_disk := False\<rparr>) s)) (\<lambda>_ s.
             virtio_disk_intr_loop n (s\<lparr>vd_used_idx := vd_used_idx s + 1\<rparr>)))
      else Ok () s)"

definition virtio_disk_intr :: "'a vio_st_scheme \<Rightarrow> (unit, 'a vio_st_scheme) outcome" where
  "virtio_disk_intr s =
     bnd (acquire VdiskLock s) (\<lambda>_ s.
     let s = mmio_write 0x064 (vd_regs s 0x060 AND 3) s
     in bnd (virtio_disk_intr_loop (Suc (unat (vd_used_ring_idx s - vd_used_idx s))) s) (\<lambda>_ s.
        release VdiskLock s))"

end
