(* ===== verification/Sched.thy ===== *)
theory Sched
  imports Proc_Table
begin

text \<open>
  Harts and processes: the scheduler of \<open>kernel/proc.c\<close> running on every hart. A hart is in its
  scheduler loop, or a process has just been switched to and still holds the lock its scheduler
  took, or the process runs, or it has given up the hart and holds its lock until the scheduler
  releases it. A step is one critical section of one hart, so that harts interleave between
  critical sections.
\<close>

section \<open>The effect of lock operations\<close>

definition on_hart :: "nat \<Rightarrow> 'a machine_scheme \<Rightarrow> 'a machine_scheme" where
  "on_hart h s = s\<lparr>tp := h\<rparr>"

text \<open>What a hart has in \<open>c->proc\<close>, and who holds the lock of a process.\<close>

definition running_on :: "nat \<Rightarrow> 'a machine_scheme \<Rightarrow> nat option" where
  "running_on h s = c_proc (cpus s h)"

definition owner :: "lockid \<Rightarrow> 'a machine_scheme \<Rightarrow> nat option" where
  "owner L s = (if lk_locked (locks s L) then lk_cpu (locks s L) else None)"

lemma acquire_Ok:
  assumes "acquire L s = Ok x t"
  shows "\<not> lk_locked (locks s L)" "locks t = (locks s)(L := (locks s L)\<lparr>lk_locked := True, lk_cpu := Some (tp s)\<rparr>)"
    "tp t = tp s" "running_on h t = running_on h s"
  using assms
  by (auto simp: acquire_def push_off_eq machine_defs running_on_def holding_def Let_def split: if_splits)

lemma pop_off_Ok:
  assumes "pop_off s = Ok x t"
  shows "locks t = locks s" "tp t = tp s" "running_on h t = running_on h s"
  using assms by (auto simp: pop_off_def machine_defs running_on_def Let_def split: if_splits)

lemma release_Ok:
  assumes "release L s = Ok x t"
  shows "owner L s = Some (tp s)" "locks t = (locks s)(L := (locks s L)\<lparr>lk_cpu := None, lk_locked := False\<rparr>)"
    "tp t = tp s" "running_on h t = running_on h s"
proof -
  have h: "holding L s" and p: "pop_off (set_lock L ((locks s L)\<lparr>lk_cpu := None, lk_locked := False\<rparr>) s) = Ok x t"
    using assms by (auto simp: release_def split: if_splits)
  show "owner L s = Some (tp s)" using h by (simp add: holding_def owner_def machine_defs)
  show "locks t = (locks s)(L := (locks s L)\<lparr>lk_cpu := None, lk_locked := False\<rparr>)" "tp t = tp s"
    "running_on h t = running_on h s"
    using pop_off_Ok [OF p] by (simp_all add: set_lock_def running_on_def)
qed

lemma procs_acquire: "acquire L s = Ok x t \<Longrightarrow> procs t = procs s"
  by (auto simp: acquire_def push_off_eq machine_defs holding_def Let_def split: if_splits)

lemma procs_pop: "pop_off s = Ok x t \<Longrightarrow> procs t = procs s"
  by (auto simp: pop_off_def machine_defs Let_def split: if_splits)

lemma procs_release: "release L s = Ok x t \<Longrightarrow> procs t = procs s"
  by (auto simp: release_def set_lock_def dest!: procs_pop split: if_splits)

lemma this_proc_Ok:
  assumes "this_proc s = Ok q t"
  shows "q = running_on (tp s) s" "locks t = locks s" "tp t = tp s" "running_on h t = running_on h s" "procs t = procs s"
proof -
  let ?s = "push_off s"
  obtain u where p: "pop_off ?s = Ok () u" "t = u" "q = c_proc (this_cpu ?s)"
    using assms by (auto simp: this_proc_def Let_def bnd_eq_Ok)
  have s: "locks ?s = locks s" "tp ?s = tp s" "running_on h ?s = running_on h s" "procs ?s = procs s" for h
    by (simp_all add: push_off_eq running_on_def)
  show "q = running_on (tp s) s" using p(3) s(2,3) by (simp add: this_cpu_def cpu_id_def running_on_def)
  show "locks t = locks s" "tp t = tp s" "running_on h t = running_on h s" "procs t = procs s"
    using pop_off_Ok [OF p(1)] procs_pop [OF p(1)] s p(2) by simp_all
qed

lemma this_proc_deref_Ok:
  assumes "this_proc_deref s = Ok p t"
  shows "running_on (tp s) s = Some p" "locks t = locks s" "tp t = tp s" "running_on h t = running_on h s" "procs t = procs s"
  using assms this_proc_Ok [of s _ t]
  by (auto simp: this_proc_deref_def bnd_eq_Ok split: option.splits)

section \<open>Steps\<close>

datatype phase = Scheduling | Starting nat | Running nat | Leaving nat

fun phase_proc :: "phase \<Rightarrow> nat option" where
  "phase_proc Scheduling = None"
| "phase_proc (Starting p) = Some p"
| "phase_proc (Running p) = Some p"
| "phase_proc (Leaving p) = Some p"

definition table_lock :: "lockid \<Rightarrow> bool" where
  "table_lock L \<longleftrightarrow> (\<exists>i. L = ProcLock i)"

inductive sched_step :: "(nat \<Rightarrow> phase) \<times> 'a proc_st_scheme \<Rightarrow> (nat \<Rightarrow> phase) \<times> 'a proc_st_scheme \<Rightarrow> bool" where
  dispatch: "ph h = Scheduling \<Longrightarrow> scheduler_dispatch i (on_hart h s) = Ok b t \<Longrightarrow>
    sched_step (ph, s) (if b then ph(h := Starting i) else ph, t)"
| start_new: "ph h = Starting p \<Longrightarrow> release (ProcLock p) (on_hart h s) = Ok () t \<Longrightarrow> sched_step (ph, s) (ph(h := Running p), t)"
| start_yielded: "ph h = Starting p \<Longrightarrow> yield_return p ie (on_hart h s) = Ok () t \<Longrightarrow> sched_step (ph, s) (ph(h := Running p), t)"
| start_slept: "ph h = Starting p \<Longrightarrow> \<not> table_lock lk \<Longrightarrow> sleep_return p lk ie (on_hart h s) = Ok () t \<Longrightarrow>
    sched_step (ph, s) (ph(h := Running p), t)"
| do_yield: "ph h = Running p \<Longrightarrow> yield_leave (on_hart h s) = Ok ie t \<Longrightarrow> sched_step (ph, s) (ph(h := Leaving p), t)"
| do_sleep: "ph h = Running p \<Longrightarrow> \<not> table_lock lk \<Longrightarrow> sleep_leave ch lk (on_hart h s) = Ok ie t \<Longrightarrow>
    sched_step (ph, s) (ph(h := Leaving p), t)"
| do_exit: "ph h = Running p \<Longrightarrow> exit_leave p status (on_hart h s) = Ok ie t \<Longrightarrow> sched_step (ph, s) (ph(h := Leaving p), t)"
| resume: "ph h = Leaving p \<Longrightarrow> scheduler_resume p (on_hart h s) = Ok () t \<Longrightarrow> sched_step (ph, s) (ph(h := Scheduling), t)"
| wake_one: "wakeup_loop [i] ch (on_hart h s) = Ok () t \<Longrightarrow> sched_step (ph, s) (ph, t)"
| kill_one: "kill_loop [i] pid (on_hart h s) = Ok r t \<Longrightarrow> sched_step (ph, s) (ph, t)"
| take_lock: "\<not> table_lock L \<Longrightarrow> acquire L (on_hart h s) = Ok () t \<Longrightarrow> sched_step (ph, s) (ph, t)"
| give_lock: "\<not> table_lock L \<Longrightarrow> release L (on_hart h s) = Ok () t \<Longrightarrow> sched_step (ph, s) (ph, t)"

definition sched_init :: "(nat \<Rightarrow> phase) \<times> 'a proc_st_scheme \<Rightarrow> bool" where
  "sched_init x \<longleftrightarrow> (\<forall>h. fst x h = Scheduling \<and> running_on h (snd x) = None) \<and> (\<forall>p. p_state (procs (snd x) p) \<noteq> RUNNING)"

text \<open>
  The invariant. A hart in its scheduler has no process. A process that starts or runs is in the
  state \<open>RUNNING\<close>, and nothing else is. A process that starts or leaves is locked by its hart.
\<close>

definition sched_inv :: "(nat \<Rightarrow> phase) \<times> 'a proc_st_scheme \<Rightarrow> bool" where
  "sched_inv x \<longleftrightarrow> (case x of (ph, s) \<Rightarrow>
     (\<forall>h. running_on h s = phase_proc (ph h)) \<and>
     (\<forall>h p. ph h = Starting p \<or> ph h = Leaving p \<longrightarrow> owner (ProcLock p) s = Some h) \<and>
     (\<forall>h p. ph h = Leaving p \<longrightarrow> p_state (procs s p) \<noteq> RUNNING) \<and>
     (\<forall>p. p_state (procs s p) = RUNNING \<longleftrightarrow> (\<exists>h. ph h = Starting p \<or> ph h = Running p)) \<and>
     (\<forall>h k p. phase_proc (ph h) = Some p \<and> phase_proc (ph k) = Some p \<longrightarrow> h = k))"

lemma on_hart_simps [simp]:
  "tp (on_hart h s) = h" "locks (on_hart h s) = locks s" "procs (on_hart h s) = procs s" "running_on k (on_hart h s) = running_on k s"
  "owner L (on_hart h s) = owner L s"
  by (simp_all add: on_hart_def running_on_def owner_def)

text \<open>What each critical section does to the view that the invariant has.\<close>

lemma set_proc_view [simp]: "running_on k (set_proc i f s) = running_on k s" "owner L (set_proc i f s) = owner L s"
  by (simp_all add: running_on_def owner_def)

lemma dispatch_True:
  assumes "scheduler_dispatch i s = Ok True t"
  shows "owner (ProcLock i) s = None" "p_state (procs s i) = RUNNABLE"
    "running_on k t = (if k = tp s then Some i else running_on k s)"
    "owner (ProcLock j) t = (if j = i then Some (tp s) else owner (ProcLock j) s)"
    "p_state (procs t j) = (if j = i then RUNNING else p_state (procs s j))"
proof -
  obtain u where u: "acquire (ProcLock i) s = Ok () u" "p_state (procs u i) = RUNNABLE"
    "t = set_this_cpu ((this_cpu u)\<lparr>c_proc := Some i\<rparr>) (set_proc i (\<lambda>p. p\<lparr>p_state := RUNNING\<rparr>) u)"
    using assms by (auto simp: scheduler_dispatch_def bnd_eq_Ok split: if_splits)
  note a = acquire_Ok [OF u(1)] procs_acquire [OF u(1)]
  show "owner (ProcLock i) s = None" "p_state (procs s i) = RUNNABLE" using a u(2) by (simp_all add: owner_def)
  show "running_on k t = (if k = tp s then Some i else running_on k s)"
    using a(3) acquire_Ok(4) [OF u(1), of k] by (auto simp: u(3) running_on_def machine_defs)
  show "owner (ProcLock j) t = (if j = i then Some (tp s) else owner (ProcLock j) s)"
    using a(2) by (simp add: u(3) owner_def set_this_cpu_def)
  show "p_state (procs t j) = (if j = i then RUNNING else p_state (procs s j))"
    using a(5) by (simp add: u(3) set_this_cpu_def)
qed

text \<open>
  \<open>seen s t\<close>: the step from \<open>s\<close> to \<open>t\<close> keeps what harts have in \<open>c->proc\<close>. The other lemmas say
  what happens to the lock and to the state of the process concerned.
\<close>

definition seen :: "'a proc_st_scheme \<Rightarrow> 'a proc_st_scheme \<Rightarrow> (nat \<Rightarrow> nat option) \<Rightarrow> (nat \<Rightarrow> procstate) \<Rightarrow> bool" where
  "seen s t ow st \<longleftrightarrow> (\<forall>k. running_on k t = running_on k s) \<and> (\<forall>j. owner (ProcLock j) t = ow j) \<and> (\<forall>j. p_state (procs t j) = st j)"

abbreviation (input) owners :: "'a proc_st_scheme \<Rightarrow> nat \<Rightarrow> nat option" where "owners s \<equiv> \<lambda>j. owner (ProcLock j) s"
abbreviation (input) states :: "'a proc_st_scheme \<Rightarrow> nat \<Rightarrow> procstate" where "states s \<equiv> \<lambda>j. p_state (procs s j)"

lemma seen_acquire: "acquire (ProcLock i) s = Ok x t \<Longrightarrow> owner (ProcLock i) s = None \<and> tp t = tp s \<and> seen s t ((owners s)(i := Some (tp s))) (states s)"
  using acquire_Ok [of "ProcLock i" s x t] procs_acquire [of "ProcLock i" s x t] by (auto simp: seen_def owner_def)

lemma seen_release: "release (ProcLock i) s = Ok x t \<Longrightarrow> owner (ProcLock i) s = Some (tp s) \<and> tp t = tp s \<and> seen s t ((owners s)(i := None)) (states s)"
  using release_Ok [of "ProcLock i" s x t] procs_release [of "ProcLock i" s x t] by (auto simp: seen_def owner_def)

lemma seen_other_lock:
  assumes "\<not> table_lock L"
  shows "acquire L s = Ok x t \<Longrightarrow> tp t = tp s \<and> seen s t (owners s) (states s)"
    and "release L s = Ok x t \<Longrightarrow> tp t = tp s \<and> seen s t (owners s) (states s)"
proof -
  have L: "ProcLock j \<noteq> L" for j using assms by (auto simp: table_lock_def)
  show "acquire L s = Ok x t \<Longrightarrow> tp t = tp s \<and> seen s t (owners s) (states s)"
    using acquire_Ok [of L s x t] procs_acquire [of L s x t] L by (auto simp: seen_def owner_def)
  show "release L s = Ok x t \<Longrightarrow> tp t = tp s \<and> seen s t (owners s) (states s)"
    using release_Ok [of L s x t] procs_release [of L s x t] L by (auto simp: seen_def owner_def)
qed

lemma seen_trans: "seen s t ow st \<Longrightarrow> seen t u (f (owners t)) (g (states t)) \<Longrightarrow> seen s u (f ow) (g st)"
  by (simp add: seen_def)

lemma seen_this_proc: "this_proc_deref s = Ok p t \<Longrightarrow> running_on (tp s) s = Some p \<and> tp t = tp s \<and> seen s t (owners s) (states s)"
  using this_proc_deref_Ok [of s p t] by (auto simp: seen_def owner_def)

lemma seen_sched:
  assumes "sched_leave s = Ok ie t"
  shows "tp t = tp s \<and> seen s t (owners s) (states s) \<and> (\<forall>p. running_on (tp s) s = Some p \<longrightarrow> states s p \<noteq> RUNNING)"
proof -
  obtain p u where u: "this_proc_deref s = Ok p u" "p_state (procs u p) \<noteq> RUNNING" "t = u"
    using assms by (auto simp: sched_leave_def bnd_eq_Ok split: if_splits)
  then show ?thesis using seen_this_proc [OF u(1)] by (auto simp: seen_def)
qed

lemma seen_yield:
  assumes "yield_leave s = Ok ie t" "running_on (tp s) s = Some p"
  shows "owner (ProcLock p) s = None \<and> seen s t ((owners s)(p := Some (tp s))) ((states s)(p := RUNNABLE))"
proof -
  obtain q u v where u: "this_proc_deref s = Ok q u" "acquire (ProcLock q) u = Ok () v"
    "sched_leave (set_proc q (\<lambda>q. q\<lparr>p_state := RUNNABLE\<rparr>) v) = Ok ie t"
    using assms(1) by (auto simp: yield_leave_def bnd_eq_Ok)
  note a = seen_this_proc [OF u(1)] seen_acquire [OF u(2)] seen_sched [OF u(3)]
  have "q = p" using a(1) assms(2) by simp
  then show ?thesis using a by (auto simp: seen_def)
qed

lemma seen_sleep:
  assumes "sleep_leave ch lk s = Ok ie t" "\<not> table_lock lk" "running_on (tp s) s = Some p"
  shows "owner (ProcLock p) s = None \<and> seen s t ((owners s)(p := Some (tp s))) ((states s)(p := SLEEPING))"
proof -
  obtain q u v w where u: "this_proc_deref s = Ok q u" "acquire (ProcLock q) u = Ok () v" "release lk v = Ok () w"
    "sched_leave (set_proc q (\<lambda>q. q\<lparr>p_chan := Some ch, p_state := SLEEPING\<rparr>) w) = Ok ie t"
    using assms(1) by (auto simp: sleep_leave_def bnd_eq_Ok)
  note a = seen_this_proc [OF u(1)] seen_acquire [OF u(2)] seen_other_lock(2) [OF assms(2) u(3)] seen_sched [OF u(4)]
  have "q = p" using a(1) assms(3) by simp
  then show ?thesis using a by (auto simp: seen_def)
qed

lemma seen_exit:
  assumes "exit_leave p status s = Ok ie t"
  shows "owner (ProcLock p) s = None \<and> seen s t ((owners s)(p := Some (tp s))) ((states s)(p := ZOMBIE))"
proof -
  let ?f = "\<lambda>x. x\<lparr>p_xstate := status, p_state := ZOMBIE\<rparr>"
  obtain u v where u: "acquire (ProcLock p) s = Ok () u" "release WaitLock (set_proc p ?f u) = Ok () v" "sched_leave v = Ok ie t"
    using assms by (auto simp: exit_leave_def bnd_eq_Ok)
  have "\<not> table_lock WaitLock" by (simp add: table_lock_def)
  note a = seen_acquire [OF u(1)] seen_other_lock(2) [OF this u(2)] seen_sched [OF u(3)]
  then show ?thesis by (auto simp: seen_def)
qed

lemma seen_sched_return: "tp (sched_return ie s) = tp s" "seen s (sched_return ie s) (owners s) (states s)"
  by (auto simp: seen_def sched_return_def running_on_def owner_def machine_defs)

lemma seen_start:
  assumes "yield_return p ie s = Ok () t \<or> (\<not> table_lock lk \<and> sleep_return p lk ie s = Ok () t)"
  shows "owner (ProcLock p) s = Some (tp s) \<and> seen s t ((owners s)(p := None)) (states s)"
proof (cases "yield_return p ie s = Ok () t")
  case True
  then have "release (ProcLock p) (sched_return ie s) = Ok () t" by (simp add: yield_return_def)
  from seen_release [OF this] show ?thesis using seen_sched_return [where ie = ie and s = s] by (auto simp: seen_def)
next
  case False
  then obtain u where u: "\<not> table_lock lk" "release (ProcLock p) (set_proc p (\<lambda>q. q\<lparr>p_chan := None\<rparr>) (sched_return ie s)) = Ok () u"
    "acquire lk u = Ok () t"
    using assms by (auto simp: sleep_return_def Let_def bnd_eq_Ok)
  note a = seen_release [OF u(2)] seen_other_lock(1) [OF u(1,3)] seen_sched_return [where ie = ie and s = s]
  then show ?thesis by (auto simp: seen_def)
qed

lemma seen_resume:
  assumes "scheduler_resume p s = Ok () t"
  shows "running_on k t = (if k = tp s then None else running_on k s)"
    "owner (ProcLock j) t = (if j = p then None else owner (ProcLock j) s)" "p_state (procs t j) = p_state (procs s j)"
proof -
  let ?u = "set_this_cpu ((this_cpu s)\<lparr>c_proc := None\<rparr>) s"
  have r: "release (ProcLock p) ?u = Ok () t" using assms by (simp add: scheduler_resume_def)
  have u: "running_on k ?u = (if k = tp s then None else running_on k s)" "owner L ?u = owner L s" "procs ?u = procs s" for L
    by (auto simp: machine_defs running_on_def owner_def)
  show "running_on k t = (if k = tp s then None else running_on k s)"
    "owner (ProcLock j) t = (if j = p then None else owner (ProcLock j) s)" "p_state (procs t j) = p_state (procs s j)"
    using seen_release [OF r] u by (simp_all add: seen_def)
qed

lemma seen_wake:
  assumes "wakeup_loop [i] ch s = Ok () t"
  shows "seen s t (owners s) (states s) \<or> (states s i = SLEEPING \<and> seen s t (owners s) ((states s)(i := RUNNABLE)))"
proof -
  obtain q u where u: "this_proc s = Ok q u" using assms by (auto simp: bnd_eq_Ok)
  have s: "tp u = tp s" "seen s u (owners s) (states s)" using this_proc_Ok [OF u] by (auto simp: seen_def owner_def)
  show ?thesis
  proof (cases "q = Some i")
    case True
    then show ?thesis using assms u s by simp
  next
    case False
    then obtain v where v: "acquire (ProcLock i) u = Ok () v"
      "release (ProcLock i) (if p_state (procs v i) = SLEEPING \<and> p_chan (procs v i) = ch
         then set_proc i (\<lambda>p. p\<lparr>p_state := RUNNABLE\<rparr>) v else v) = Ok () t"
      using assms u by (auto simp: bnd_eq_Ok Let_def)
    show ?thesis
      using seen_acquire [OF v(1)] seen_release [OF v(2)] s by (auto simp: seen_def fun_eq_iff split: if_splits)
  qed
qed

lemma seen_kill:
  assumes "kill_loop [i] pid s = Ok r t"
  shows "seen s t (owners s) (states s) \<or> (states s i = SLEEPING \<and> seen s t (owners s) ((states s)(i := RUNNABLE)))"
proof -
  obtain u v where u: "acquire (ProcLock i) s = Ok () u" "release (ProcLock i) v = Ok () t"
    "v = u \<or> v = set_proc i (\<lambda>p. p\<lparr>p_killed := True\<rparr>) u \<or>
     (p_state (procs u i) = SLEEPING \<and> v = set_proc i (\<lambda>p. p\<lparr>p_state := RUNNABLE\<rparr>) (set_proc i (\<lambda>p. p\<lparr>p_killed := True\<rparr>) u))"
    using assms by (auto simp: bnd_eq_Ok Let_def split: if_splits)
  show ?thesis
    using seen_acquire [OF u(1)] seen_release [OF u(2)] u(3) by (auto simp: seen_def fun_eq_iff split: if_splits)
qed

section \<open>The invariant\<close>

lemma sched_invD:
  assumes "sched_inv (ph, s)"
  shows "running_on h s = phase_proc (ph h)" "ph h = Starting p \<Longrightarrow> owner (ProcLock p) s = Some h"
    "ph h = Leaving p \<Longrightarrow> owner (ProcLock p) s = Some h" "ph h = Leaving p \<Longrightarrow> p_state (procs s p) \<noteq> RUNNING"
    "p_state (procs s p) = RUNNING \<longleftrightarrow> (\<exists>h. ph h = Starting p \<or> ph h = Running p)"
    "phase_proc (ph h) = Some p \<Longrightarrow> phase_proc (ph k) = Some p \<Longrightarrow> h = k"
  using assms unfolding sched_inv_def by (auto split: prod.splits)

text \<open>A lock that is free belongs to no process that starts or leaves.\<close>

lemma idle_process:
  assumes "sched_inv (ph, s)" "owner (ProcLock p) s = None" "p_state (procs s p) \<noteq> RUNNING"
  shows "phase_proc (ph h) \<noteq> Some p"
  using sched_invD(2,3) [OF assms(1), of h p] sched_invD(5) [OF assms(1), of p] assms(2,3) by (cases "ph h") auto

lemma inv_same:
  assumes "sched_inv (ph, s)" "seen s t (owners s) st" "st = states s \<or> (states s i = SLEEPING \<and> st = (states s)(i := RUNNABLE))"
  shows "sched_inv (ph, t)"
proof -
  have "st p = RUNNING \<longleftrightarrow> states s p = RUNNING" for p using assms(3) by (auto split: if_splits)
  then have e: "running_on k t = running_on k s" "owner (ProcLock j) t = owner (ProcLock j) s"
    "p_state (procs t j) = RUNNING \<longleftrightarrow> p_state (procs s j) = RUNNING" for k j using assms(2) by (simp_all add: seen_def)
  show ?thesis using assms(1) unfolding sched_inv_def prod.case e .
qed

text \<open>A hart \<open>h\<close> changes its phase, with process \<open>p\<close>, at which no other hart is.\<close>

lemma inv_phase:
  assumes inv: "sched_inv (ph, s)" and run: "\<And>k. running_on k t = (if k = h then phase_proc x else running_on k s)"
    and own: "\<And>q. q \<noteq> p \<Longrightarrow> owner (ProcLock q) t = owner (ProcLock q) s"
    and st: "\<And>q. q \<noteq> p \<Longrightarrow> p_state (procs t q) = p_state (procs s q)"
    and uniq: "\<And>k. k \<noteq> h \<Longrightarrow> phase_proc (ph k) \<noteq> Some p"
    and h: "phase_proc (ph h) \<in> {None, Some p}" "phase_proc x \<in> {None, Some p}"
    and ownx: "x = Starting p \<or> x = Leaving p \<Longrightarrow> owner (ProcLock p) t = Some h"
    and stx: "p_state (procs t p) = RUNNING \<longleftrightarrow> x = Starting p \<or> x = Running p"
  shows "sched_inv (ph(h := x), t)"
proof -
  let ?ph = "ph(h := x)"
  have other: "q \<noteq> p" if "k \<noteq> h" "phase_proc (ph k) = Some q" for k q using uniq that by auto
  have x: "q = p" if "phase_proc x = Some q" for q using h(2) that by auto
  have a: "running_on k t = phase_proc (?ph k)" for k using run sched_invD(1) [OF inv] by simp
  have b: "owner (ProcLock q) t = Some k" if "?ph k = Starting q \<or> ?ph k = Leaving q" for k q
  proof (cases "k = h")
    case True
    then show ?thesis using that x [of q] ownx by auto
  next
    case False
    then show ?thesis using that other [of k q] own sched_invD(2,3) [OF inv, of k q] by auto
  qed
  have c: "p_state (procs t q) \<noteq> RUNNING" if "?ph k = Leaving q" for k q
    using that other [of k q] x [of q] st [of q] stx sched_invD(4) [OF inv, of k q] by (auto split: if_splits)
  have d: "p_state (procs t q) = RUNNING \<longleftrightarrow> (\<exists>k. ?ph k = Starting q \<or> ?ph k = Running q)" for q
  proof (cases "q = p")
    case True
    have "\<not> (ph k = Starting p \<or> ph k = Running p)" if "k \<noteq> h" for k using uniq [OF that] by auto
    then show ?thesis using True stx by auto
  next
    case False
    have "ph h \<noteq> Starting q" "ph h \<noteq> Running q" using h(1) False by auto
    moreover have "x \<noteq> Starting q" "x \<noteq> Running q" using h(2) False by auto
    ultimately have "(\<exists>k. ?ph k = Starting q \<or> ?ph k = Running q) \<longleftrightarrow> (\<exists>k. ph k = Starting q \<or> ph k = Running q)"
      by (metis fun_upd_apply)
    then show ?thesis using sched_invD(5) [OF inv, of q] st [OF False] by simp
  qed
  have e: "j = k" if "phase_proc (?ph j) = Some q" "phase_proc (?ph k) = Some q" for j k q
    using that other x sched_invD(6) [OF inv, of j q k] by (auto split: if_splits)
  show ?thesis using a b c d e unfolding sched_inv_def by blast
qed

lemma inv_uniq: "sched_inv (ph, s) \<Longrightarrow> phase_proc (ph h) = Some p \<Longrightarrow> k \<noteq> h \<Longrightarrow> phase_proc (ph k) \<noteq> Some p"
  using sched_invD(6) by blast

lemma inv_start:
  assumes "sched_inv (ph, s)" "ph h = Starting p" "seen s t ((owners s)(p := None)) (states s)"
  shows "sched_inv (ph(h := Running p), t)"
proof (rule inv_phase [OF assms(1), where p = p])
  show "p_state (procs t p) = RUNNING \<longleftrightarrow> Running p = Starting p \<or> Running p = Running p"
    using sched_invD(5) [OF assms(1), of p] assms(2,3) by (auto simp: seen_def)
  show "running_on k t = (if k = h then phase_proc (Running p) else running_on k s)" for k
    using sched_invD(1) [OF assms(1)] assms(2,3) by (simp add: seen_def)
qed (use assms inv_uniq [OF assms(1), of h p] in \<open>auto simp: seen_def\<close>)

lemma inv_leave:
  assumes "sched_inv (ph, s)" "ph h = Running p" "seen s t ((owners s)(p := Some h)) ((states s)(p := x))" "x \<noteq> RUNNING"
  shows "sched_inv (ph(h := Leaving p), t)"
proof (rule inv_phase [OF assms(1), where p = p])
  show "running_on k t = (if k = h then phase_proc (Leaving p) else running_on k s)" for k
    using sched_invD(1) [OF assms(1)] assms(2,3) by (simp add: seen_def)
qed (use assms inv_uniq [OF assms(1), of h p] in \<open>auto simp: seen_def\<close>)

lemma inv_dispatch:
  assumes "sched_inv (ph, s)" "ph h = Scheduling" "scheduler_dispatch i (on_hart h s) = Ok True t"
  shows "sched_inv (ph(h := Starting i), t)"
proof (rule inv_phase [OF assms(1), where p = i])
  note d = dispatch_True [OF assms(3)]
  show "phase_proc (ph k) \<noteq> Some i" for k using idle_process [OF assms(1), of i k] d(1,2) by simp
qed (use assms(2) dispatch_True [OF assms(3)] in auto)

lemma inv_resume:
  assumes "sched_inv (ph, s)" "ph h = Leaving p" "scheduler_resume p (on_hart h s) = Ok () t"
  shows "sched_inv (ph(h := Scheduling), t)"
proof (rule inv_phase [OF assms(1), where p = p])
  show "p_state (procs t p) = RUNNING \<longleftrightarrow> Scheduling = Starting p \<or> Scheduling = Running p"
    using sched_invD(4) [OF assms(1,2)] seen_resume(3) [OF assms(3)] by simp
qed (use assms inv_uniq [OF assms(1), of h p] seen_resume [OF assms(3)] in auto)

lemma seen_on_hart: "seen (on_hart h s) t ow st = seen s t ow st"
  by (simp add: seen_def)

lemma inv_running: "sched_inv (ph, s) \<Longrightarrow> ph h = Running p \<Longrightarrow> running_on (tp (on_hart h s)) (on_hart h s) = Some p"
  using sched_invD(1) [of ph s h] by simp

lemma dispatch_False:
  assumes "scheduler_dispatch i s = Ok False t"
  shows "seen s t (owners s) (states s)"
proof -
  obtain u where u: "acquire (ProcLock i) s = Ok () u" "release (ProcLock i) u = Ok () t"
    using assms by (auto simp: scheduler_dispatch_def bnd_eq_Ok split: if_splits)
  show ?thesis using seen_acquire [OF u(1)] seen_release [OF u(2)] by (auto simp: seen_def fun_eq_iff split: if_splits)
qed

lemma sched_inv_step:
  assumes "sched_inv x" "sched_step x y"
  shows "sched_inv y"
  using assms(2)
proof cases
  case (dispatch ph h i s b t)
  then show ?thesis
    using assms(1) inv_dispatch [of ph s h i t] dispatch_False [of i "on_hart h s" t] inv_same [of ph s t "states s"]
    by (cases b) (simp_all add: seen_on_hart)
next
  case (start_new ph h p s t)
  then show ?thesis using assms(1) seen_release [of p "on_hart h s" _ t] inv_start [of ph s h p t] by (simp add: seen_on_hart)
next
  case (start_yielded ph h p ie s t)
  then show ?thesis using assms(1) seen_start [of p ie "on_hart h s" t] inv_start [of ph s h p t] by (simp add: seen_on_hart)
next
  case (start_slept ph h p lk ie s t)
  then show ?thesis using assms(1) seen_start [of p ie "on_hart h s" t lk] inv_start [of ph s h p t] by (simp add: seen_on_hart)
next
  case (do_yield ph h p s ie t)
  then show ?thesis
    using assms(1) seen_yield [of "on_hart h s" ie t p] inv_running [of ph s h p] inv_leave [of ph s h p t RUNNABLE] by (simp add: seen_on_hart)
next
  case (do_sleep ph h p lk ch s ie t)
  then show ?thesis
    using assms(1) seen_sleep [of ch lk "on_hart h s" ie t p] inv_running [of ph s h p] inv_leave [of ph s h p t SLEEPING] by (simp add: seen_on_hart)
next
  case (do_exit ph h p status s ie t)
  then show ?thesis
    using assms(1) seen_exit [of p status "on_hart h s" ie t] inv_leave [of ph s h p t ZOMBIE] by (simp add: seen_on_hart)
next
  case (resume ph h p s t)
  then show ?thesis using assms(1) inv_resume by simp
next
  case (wake_one i ch h s t ph)
  then show ?thesis using assms(1) seen_wake [of i ch "on_hart h s" t] inv_same [of ph s t _ i] by (auto simp: seen_on_hart)
next
  case (kill_one i pid h s r t ph)
  then show ?thesis using assms(1) seen_kill [of i pid "on_hart h s" r t] inv_same [of ph s t _ i] by (auto simp: seen_on_hart)
next
  case (take_lock L h s t ph)
  then show ?thesis using assms(1) seen_other_lock(1) [of L "on_hart h s" _ t] inv_same [of ph s t "states s"] by (simp add: seen_on_hart)
next
  case (give_lock L h s t ph)
  then show ?thesis using assms(1) seen_other_lock(2) [of L "on_hart h s" _ t] inv_same [of ph s t "states s"] by (simp add: seen_on_hart)
qed

interpretation sched: safety sched_init sched_step sched_inv
proof
  show "sched_inv x" if "sched_init x" for x :: "(nat \<Rightarrow> phase) \<times> 'a proc_st_scheme"
    using that by (auto simp: sched_init_def sched_inv_def split: prod.splits)
qed (rule sched_inv_step)

text \<open>
  C2. No process runs on two harts. In every state that harts reach by scheduling, whatever the
  interleaving of their critical sections: no two harts have the same process in \<open>c->proc\<close>; a
  process is in the state \<open>RUNNING\<close> exactly if one hart starts or runs it; and a process that is
  being switched to, or has given up its hart, is locked by this hart, so that no other scheduler
  can take it before the switch is over.
\<close>

theorem process_on_one_hart:
  assumes "reach sched_init sched_step (ph, s)"
  shows "(\<forall>h k p. running_on h s = Some p \<and> running_on k s = Some p \<longrightarrow> h = k) \<and>
    (\<forall>p. p_state (procs s p) = RUNNING \<longleftrightarrow> (\<exists>!h. ph h = Starting p \<or> ph h = Running p)) \<and>
    (\<forall>h p k. (ph h = Starting p \<or> ph h = Leaving p) \<and> k \<noteq> h \<longrightarrow> scheduler_dispatch p (on_hart k s) = Block)"
proof -
  have inv: "sched_inv (ph, s)" using assms by (rule sched.inv_reach)
  note d = sched_invD [OF inv]
  have u: "h = k" if "ph h = Starting p \<or> ph h = Running p" "ph k = Starting p \<or> ph k = Running p" for h k p
    using that d(6) [of h p k] by auto
  have "scheduler_dispatch p (on_hart k s) = Block" if "ph h = Starting p \<or> ph h = Leaving p" "k \<noteq> h" for h p k
  proof -
    have "owner (ProcLock p) s = Some h" using d(2,3) that by blast
    then show ?thesis using that(2)
      by (auto simp: scheduler_dispatch_def acquire_def holding_def push_off_eq machine_defs owner_def on_hart_def Let_def split: if_splits)
  qed
  moreover have "p_state (procs s p) = RUNNING \<longleftrightarrow> (\<exists>!h. ph h = Starting p \<or> ph h = Running p)" for p
    using d(5) [of p] u by blast
  moreover have "h = k" if "running_on h s = Some p \<and> running_on k s = Some p" for h k p using d(1,6) that by simp
  ultimately show ?thesis by blast
qed

section \<open>Sleep and wake-up\<close>

text \<open>A hart outside critical sections.\<close>

definition idle_hart :: "nat \<Rightarrow> nat option \<Rightarrow> 'a machine_scheme \<Rightarrow> bool" where
  "idle_hart h r s \<longleftrightarrow> c_proc (cpus s h) = r \<and> c_noff (cpus s h) = 0 \<and> c_intena (cpus s h) = c_sie (cpus s h)"

lemma idle_settled: "idle_hart h r s \<Longrightarrow> settled (on_hart h s)"
  by (simp add: idle_hart_def settled_def cpu_ok_def machine_defs on_hart_def)

lemma cpu_eq: "c_proc c = a \<Longrightarrow> c_noff c = b \<Longrightarrow> c_intena c = d \<Longrightarrow> c_sie c = e \<Longrightarrow> c = \<lparr>c_proc = a, c_noff = b, c_intena = d, c_sie = e\<rparr>"
  by (cases c) simp

text \<open>
  From \<open>sleep\<close>, called with the lock \<open>lk\<close> held, to the scheduler: the process sleeps on the channel,
  and the locks are free again.
\<close>

lemma sleep_park:
  assumes i: "idle_hart h (Some p) s" and f: "\<And>L. lock_free L s" and lk: "\<not> table_lock lk"
  shows "bnd (acquire lk (on_hart h s)) (\<lambda>_ s. bnd (sleep_leave ch lk s) (\<lambda>ie t. bnd (scheduler_resume p t) (\<lambda>_ t. Ok ie t))) =
    Ok (c_sie (cpus s h)) (s\<lparr>tp := h, cpus := (cpus s)(h := (cpus s h)\<lparr>c_proc := None\<rparr>),
      procs := (procs s)(p := (procs s p)\<lparr>p_chan := Some ch, p_state := SLEEPING\<rparr>)\<rparr>)"
proof -
  obtain e where c: "cpus s h = \<lparr>c_proc = Some p, c_noff = 0, c_intena = e, c_sie = e\<rparr>"
    using i by (cases "cpus s h") (simp add: idle_hart_def)
  have l: "lk \<noteq> ProcLock p" "ProcLock p \<noteq> lk" using lk by (auto simp: table_lock_def)
  have n: "\<not> lk_locked (locks s L)" "lk_cpu (locks s L) = None" for L using f [of L] by (simp_all add: lock_free_def)
  have d: "(locks s)(lk := (locks s lk)\<lparr>lk_cpu := None, lk_locked := False\<rparr>,
      ProcLock p := (locks s (ProcLock p))\<lparr>lk_cpu := None, lk_locked := False\<rparr>) = locks s"
    using n by (simp add: spinlock_free_idem fun_upd_idem)
  show ?thesis
    by (simp add: acquire_def sleep_leave_def scheduler_resume_def release_def pop_off_def sched_leave_def this_proc_deref_def
        this_proc_def push_off_eq machine_defs on_hart_def holding_def Let_def set_proc_def c l n)
      (intro conjI impI; rule proc_st.equality; simp add: d)
qed

text \<open>From the scheduler back into \<open>sleep\<close>, which takes \<open>lk\<close> again.\<close>

lemma dispatch_back:
  assumes i: "idle_hart m None s" and f: "\<And>L. lock_free L s" and lk: "\<not> table_lock lk" and p: "p_state (procs s p) = RUNNABLE"
  shows "runs (scheduler_dispatch p (on_hart m s)) (\<lambda>b t. b \<and> runs (sleep_return p lk ie t) (\<lambda>_ u.
    running_on m u = Some p \<and> owner lk u = Some m \<and> owner (ProcLock p) u = None \<and> p_state (procs u p) = RUNNING \<and> p_chan (procs u p) = None))"
proof -
  obtain e where c: "cpus s m = \<lparr>c_proc = None, c_noff = 0, c_intena = e, c_sie = e\<rparr>"
    using i by (cases "cpus s m") (simp add: idle_hart_def)
  have l: "lk \<noteq> ProcLock p" "ProcLock p \<noteq> lk" using lk by (auto simp: table_lock_def)
  have n: "\<not> lk_locked (locks s L)" "lk_cpu (locks s L) = None" for L using f [of L] by (simp_all add: lock_free_def)
  show ?thesis
    by (simp add: acquire_def scheduler_dispatch_def sleep_return_def sched_return_def release_def pop_off_def
        push_off_eq machine_defs on_hart_def holding_def Let_def set_proc_def running_on_def owner_def c l n p)
qed

lemma dispatch_sleeping:
  assumes i: "idle_hart m None s" and f: "\<And>L. lock_free L s" and p: "p_state (procs s p) = SLEEPING"
  shows "scheduler_dispatch p (on_hart m s) = Ok False (on_hart m s)"
proof -
  have l: "lock_free (ProcLock p) (on_hart m s)" using f [of "ProcLock p"] by (simp add: lock_free_def)
  have "p_state (procs (enter (ProcLock p) (on_hart m s)) p) = SLEEPING" using p by simp
  then show ?thesis
    by (simp add: scheduler_dispatch_def acquire_free [OF l] bracket_same [OF idle_settled [OF i] l])
qed

text \<open>
  C3. A sleeper is woken and comes back. Process \<open>p\<close> on hart \<open>h\<close> takes a lock \<open>lk\<close> and calls
  \<open>sleep(chan, lk)\<close>: it gets to the scheduler of its hart with all locks free, and no scheduler
  dispatches it. When another hart calls \<open>wakeup(chan)\<close>, the next scheduler that looks at the process
  dispatches it, \<open>sleep\<close> returns, and the process runs on that hart with \<open>lk\<close> held again.
\<close>

theorem sleep_wakeup_returns:
  assumes "idle_hart h (Some p) s" "idle_hart k r s" "k \<noteq> h" "r \<noteq> Some p" "m = h \<or> idle_hart m None s"
    and "\<And>L. lock_free L s" "\<not> table_lock lk" "p < NPROC"
  shows "runs (bnd (acquire lk (on_hart h s)) (\<lambda>_ s. bnd (sleep_leave ch lk s) (\<lambda>ie t. bnd (scheduler_resume p t) (\<lambda>_ t. Ok ie t))))
    (\<lambda>ie t. scheduler_dispatch p (on_hart m t) = Ok False (on_hart m t) \<and>
      runs (wakeup (Some ch) (on_hart k t)) (\<lambda>_ u. runs (scheduler_dispatch p (on_hart m u)) (\<lambda>b v. b \<and>
        runs (sleep_return p lk ie v) (\<lambda>_ w. running_on m w = Some p \<and> owner lk w = Some m \<and> owner (ProcLock p) w = None \<and>
          p_state (procs w p) = RUNNING \<and> p_chan (procs w p) = None))))"
proof -
  let ?t = "s\<lparr>tp := h, cpus := (cpus s)(h := (cpus s h)\<lparr>c_proc := None\<rparr>),
      procs := (procs s)(p := (procs s p)\<lparr>p_chan := Some ch, p_state := SLEEPING\<rparr>)\<rparr>"
  let ?u = "(on_hart k ?t)\<lparr>procs := woken {..<NPROC} (Some ch) r (procs ?t)\<rparr>"
  have f: "lock_free L ?t" "lock_free L (on_hart k ?t)" "lock_free L ?u" for L
    using assms(6) [of L] by (simp_all add: lock_free_def)
  have m: "idle_hart m None ?t" "idle_hart m None ?u" using assms(1,5) by (auto simp: idle_hart_def on_hart_def)
  have "settled (on_hart k ?t)" by (rule idle_settled [of k r]) (use assms(2,3) in \<open>simp add: idle_hart_def\<close>)
  moreover have "c_proc (cpus (on_hart k ?t) (tp (on_hart k ?t))) = r" using assms(2,3) by (simp add: idle_hart_def on_hart_def)
  ultimately have w: "wakeup (Some ch) (on_hart k ?t) = Ok () ?u"
    using wakeup_woken [of "on_hart k ?t" "Some ch"] f(2) by (simp add: table_free_def)
  have p: "p_state (procs ?u p) = RUNNABLE" using assms(4,8) by (simp add: woken_def wakes_def)
  have d: "scheduler_dispatch p (on_hart m ?t) = Ok False (on_hart m ?t)" by (rule dispatch_sleeping [OF m(1) f(1)]) simp
  show ?thesis
    unfolding sleep_park [OF assms(1,6,7)] runs_simps w using d dispatch_back [OF m(2) f(3) assms(7) p] by blast
qed

section \<open>Witnesses\<close>

text \<open>Two harts, and process 0 that can run.\<close>

definition two_harts :: proc_st where
  "two_harts = \<lparr>tp = 0, cpus = \<lambda>_. \<lparr>c_proc = None, c_noff = 0, c_intena = False, c_sie = False\<rparr>,
     locks = \<lambda>_. \<lparr>lk_locked = False, lk_name = [], lk_cpu = None\<rparr>, klog = [],
     procs = (\<lambda>i. \<lparr>p_state = (if i = 0 then RUNNABLE else UNUSED), p_chan = None, p_killed = False, p_xstate = 0, p_pid = 1,
       p_parent = None, p_kstack = 0, p_sz = 0, p_pagetable = 0, p_trapframe = 0, p_ra = 0, p_sp = 0, p_ofile = \<lambda>_. None,
       p_cwd = None, p_name = []\<rparr>), nextpid = 2, initproc = None\<rparr>"

theorem process_on_one_hart_witness:
  "\<exists>(ph :: nat \<Rightarrow> phase) (s :: proc_st). reach sched_init sched_step (ph, s) \<and> running_on 0 s = Some 0 \<and> p_state (procs s 0) = RUNNING \<and>
    running_on 1 s \<noteq> Some 0 \<and> scheduler_dispatch 0 (on_hart 1 s) = Block"
proof -
  let ?ph = "\<lambda>_ :: nat. Scheduling"
  obtain t where t: "scheduler_dispatch 0 (on_hart 0 two_harts) = Ok True t"
    by (simp add: scheduler_dispatch_def acquire_def holding_def push_off_eq machine_defs on_hart_def two_harts_def Let_def)
  have "sched_init (?ph, two_harts)" by (simp add: sched_init_def running_on_def two_harts_def)
  then have "reach sched_init sched_step (?ph, two_harts)" by (rule reach_init)
  then have "reach sched_init sched_step (if True then ?ph(0 := Starting 0) else ?ph, t)"
    by (rule reach_step) (rule dispatch [OF _ t], simp)
  then have r: "reach sched_init sched_step (?ph(0 := Starting 0), t)" by simp
  note p = process_on_one_hart [OF r]
  have d: "running_on 0 t = Some 0" "p_state (procs t 0) = RUNNING" using dispatch_True [OF t] by simp_all
  have "scheduler_dispatch 0 (on_hart 1 t) = Block" "running_on 1 t \<noteq> Some 0"
    using conjunct2 [OF conjunct2 [OF p], rule_format, of 0 0 1] conjunct1 [OF p, rule_format, of 0 0 1] d(1) by auto
  then show ?thesis using r d by (intro exI [of _ "?ph(0 := Starting 0)"] exI [of _ t]) simp
qed

theorem sleep_wakeup_returns_witness:
  "runs (bnd (acquire TicksLock (on_hart 0 (two_harts\<lparr>cpus := (cpus two_harts)(0 := (cpus two_harts 0)\<lparr>c_proc := Some 0\<rparr>)\<rparr>)))
      (\<lambda>_ s. bnd (sleep_leave ChanTicks TicksLock s) (\<lambda>ie t. bnd (scheduler_resume 0 t) (\<lambda>_ t. Ok ie t))))
    (\<lambda>ie t. runs (wakeup (Some ChanTicks) (on_hart 1 t)) (\<lambda>_ u. runs (scheduler_dispatch 0 (on_hart 1 u)) (\<lambda>b v. b \<and>
      runs (sleep_return 0 TicksLock ie v) (\<lambda>_ w. running_on 1 w = Some 0 \<and> p_state (procs w 0) = RUNNING))))"
proof -
  let ?s = "two_harts\<lparr>cpus := (cpus two_harts)(0 := (cpus two_harts 0)\<lparr>c_proc := Some 0\<rparr>)\<rparr>"
  have "idle_hart 0 (Some 0) ?s" "idle_hart 1 None ?s" "lock_free L ?s" "\<not> table_lock TicksLock" for L
    by (simp_all add: idle_hart_def two_harts_def lock_free_def table_lock_def)
  from sleep_wakeup_returns [OF this(1,2) _ _ _ this(3,4), of 1 ChanTicks] show ?thesis
    by (rule runs_mono) (use \<open>idle_hart 1 None ?s\<close> in \<open>auto elim!: runs_mono\<close>)
qed

end
