(* ===== verification/Disk.thy ===== *)
theory Disk
  imports Virtio Sched
begin

text \<open>
  The disk driver against what the buffer cache relies on. The device is a function on the states of
  the machine, about which only the virtio block protocol is assumed (\<open>serves\<close>); with it, the parts of
  \<open>virtio_disk_rw\<close> of \<open>kernel/virtio_disk.c\<close>, the sleep of the caller and the interrupt handler
  together move one block between a buffer and the disk, as \<open>virtio_disk_rw\<close> of the theory \<open>Bio\<close> says.
\<close>

section \<open>Descriptors\<close>

lemma find_free:
  "find (vd_free s) [0..<NUM] = Some i \<Longrightarrow> i < NUM \<and> vd_free s i"
  "find (vd_free s) [0..<NUM] = None \<longleftrightarrow> (\<forall>i<NUM. \<not> vd_free s i)"
  by (auto simp: find_Some_iff find_None_iff)

definition free_count :: "'a vio_st_scheme \<Rightarrow> nat" where
  "free_count s = card {i. i < NUM \<and> vd_free s i}"

lemma alloc_desc_some:
  assumes "0 < free_count s"
  obtains i where "i < NUM" "vd_free s i" "alloc_desc s = (Some i, s\<lparr>vd_free := (vd_free s)(i := False)\<rparr>)"
    "Suc (free_count (s\<lparr>vd_free := (vd_free s)(i := False)\<rparr>)) = free_count s"
proof -
  have "{i. i < NUM \<and> vd_free s i} \<noteq> {}" using assms by (auto simp: free_count_def card_gt_0_iff)
  then obtain i where f: "find (vd_free s) [0..<NUM] = Some i" using find_free(2) [of s] by fastforce
  note i = find_free(1) [OF f]
  have "{j. j < NUM \<and> vd_free s j} = insert i {j. j < NUM \<and> ((vd_free s)(i := False)) j}" using i by auto
  then have "Suc (free_count (s\<lparr>vd_free := (vd_free s)(i := False)\<rparr>)) = free_count s" by (simp add: free_count_def)
  moreover have "alloc_desc s = (Some i, s\<lparr>vd_free := (vd_free s)(i := False)\<rparr>)" using f by (simp only: alloc_desc_def option.case)
  ultimately show ?thesis using i by (intro that [of i]) simp_all
qed

lemma alloc_desc_none: "free_count s = 0 \<Longrightarrow> alloc_desc s = (None, s)"
  using find_free(2) [of s] by (auto simp: free_count_def alloc_desc_def)

lemma vd_free_upd: "(s\<lparr>vd_free := f, vd_free := g\<rparr> :: 'a vio_st_scheme) = s\<lparr>vd_free := g\<rparr>"
  by simp

lemma alloc3_desc_some:
  assumes "3 \<le> free_count s"
  obtains i0 i1 i2 where "alloc3_desc s = Ok (Some [i0, i1, i2]) (s\<lparr>vd_free := (vd_free s)(i0 := False, i1 := False, i2 := False)\<rparr>)"
    "distinct [i0, i1, i2]" "{i0, i1, i2} \<subseteq> {i. i < NUM \<and> vd_free s i}"
proof -
  obtain i0 where i0: "i0 < NUM" "vd_free s i0" "alloc_desc s = (Some i0, s\<lparr>vd_free := (vd_free s)(i0 := False)\<rparr>)"
    "Suc (free_count (s\<lparr>vd_free := (vd_free s)(i0 := False)\<rparr>)) = free_count s" by (rule alloc_desc_some [of s]) (use assms in simp)
  let ?s = "s\<lparr>vd_free := (vd_free s)(i0 := False)\<rparr>"
  obtain i1 where i1: "i1 < NUM" "vd_free ?s i1" "alloc_desc ?s = (Some i1, ?s\<lparr>vd_free := (vd_free ?s)(i1 := False)\<rparr>)"
    "Suc (free_count (?s\<lparr>vd_free := (vd_free ?s)(i1 := False)\<rparr>)) = free_count ?s"
    by (rule alloc_desc_some [of ?s]) (use assms i0(4) in simp)
  let ?t = "?s\<lparr>vd_free := (vd_free ?s)(i1 := False)\<rparr>"
  obtain i2 where i2: "i2 < NUM" "vd_free ?t i2" "alloc_desc ?t = (Some i2, ?t\<lparr>vd_free := (vd_free ?t)(i2 := False)\<rparr>)"
    by (rule alloc_desc_some [of ?t]) (use assms i0(4) i1(4) in simp)
  have "alloc3_desc s = Ok (Some [i0, i1, i2]) (?t\<lparr>vd_free := (vd_free ?t)(i2 := False)\<rparr>)"
    by (simp only: alloc3_desc_def numeral_3_eq_3 alloc3_desc_loop.simps i0(3) i1(3) i2(3) prod.case option.case append.simps)
  moreover have "i1 \<noteq> i0" "vd_free s i1" "i2 \<noteq> i1" "i2 \<noteq> i0" "vd_free s i2" using i1(2) i2(2) by (auto split: if_splits)
  ultimately show ?thesis using i0(1,2) i1(1) i2(1) by (intro that [of i0 i1 i2]) simp_all
qed

lemma free_desc_woken:
  assumes "settled s" "table_free s" "i < NUM" "\<not> vd_free s i"
  shows "free_desc i s = Ok () (s\<lparr>procs := woken {..<NPROC} (Some ChanDiskFree) (c_proc (cpus s (tp s))) (procs s),
    vd_desc := (vd_desc s)(i := \<lparr>vq_addr = NoAddr, vq_len = 0, vq_flags = 0, vq_next = 0\<rparr>), vd_free := (vd_free s)(i := True)\<rparr>)"
proof -
  let ?t = "s\<lparr>vd_desc := (vd_desc s)(i := \<lparr>vq_addr = NoAddr, vq_len = 0, vq_flags = 0, vq_next = 0\<rparr>), vd_free := (vd_free s)(i := True)\<rparr>"
  have "same_harts s ?t" by (simp add: same_harts_def)
  then have "wakeup (Some ChanDiskFree) ?t = Ok () (?t\<lparr>procs := woken {..<NPROC} (Some ChanDiskFree) (c_proc (cpus s (tp s))) (procs s)\<rparr>)"
    using wakeup_woken [of ?t] same_harts_cong [of s ?t] assms(1,2) by simp
  then show ?thesis using assms(3,4) by (simp add: free_desc_def)
qed


section \<open>The device\<close>




section \<open>The three parts of a request\<close>














section \<open>A whole request\<close>

text \<open>The driver between requests.\<close>

definition driver_ready :: "'a vio_st_scheme \<Rightarrow> bool" where
  "driver_ready s \<longleftrightarrow> 3 \<le> free_count s \<and> vd_used_ring_idx s = vd_used_idx s"






lemma free_descs_free:
  assumes "settled s" "table_free s" "distinct is" "set is \<subseteq> {i. i < NUM \<and> \<not> vd_free s i}"
  shows "runs (free_descs is s) (\<lambda>_ t. same_harts s t \<and> vd_free t = (\<lambda>i. i \<in> set is \<or> vd_free s i))"
  using assms
proof (induction "is" arbitrary: s)
  case (Cons i "is")
  let ?t = "s\<lparr>procs := woken {..<NPROC} (Some ChanDiskFree) (c_proc (cpus s (tp s))) (procs s),
    vd_desc := (vd_desc s)(i := \<lparr>vq_addr = NoAddr, vq_len = 0, vq_flags = 0, vq_next = 0\<rparr>), vd_free := (vd_free s)(i := True)\<rparr>"
  have h: "same_harts s ?t" by (simp add: same_harts_def)
  have "free_desc i s = Ok () ?t" using Cons.prems by (intro free_desc_woken) simp_all
  moreover have "runs (free_descs is ?t) (\<lambda>_ u. same_harts ?t u \<and> vd_free u = (\<lambda>j. j \<in> set is \<or> vd_free ?t j))"
    using Cons.prems same_harts_cong [OF h] by (intro Cons.IH) auto
  then have "runs (free_descs is ?t) (\<lambda>_ u. same_harts s u \<and> vd_free u = (\<lambda>j. j \<in> set (i # is) \<or> vd_free s j))"
    by (rule runs_mono) (use same_harts_trans [OF h] in \<open>auto simp: fun_eq_iff\<close>)
  ultimately show ?case by simp
qed simp

lemma alloc3_desc_loop_none:
  assumes "settled s" "table_free s" "distinct idx" "set idx \<subseteq> {i. i < NUM \<and> \<not> vd_free s i}" "free_count s < n"
  shows "runs (alloc3_desc_loop n idx s) (\<lambda>r t. r = None \<and> vd_free t = (\<lambda>i. i \<in> set idx \<or> vd_free s i))"
  using assms
proof (induction n arbitrary: idx s)
  case (Suc n)
  show ?case
  proof (cases "free_count s = 0")
    case True
    then show ?thesis using runs_mono [OF free_descs_free [OF Suc.prems(1-4)]] by (simp add: alloc_desc_none)
  next
    case False
    then obtain i where i: "i < NUM" "vd_free s i" "alloc_desc s = (Some i, s\<lparr>vd_free := (vd_free s)(i := False)\<rparr>)"
      "Suc (free_count (s\<lparr>vd_free := (vd_free s)(i := False)\<rparr>)) = free_count s" by (auto elim: alloc_desc_some)
    let ?t = "s\<lparr>vd_free := (vd_free s)(i := False)\<rparr>"
    have h: "same_harts s ?t" by (simp add: same_harts_def)
    have "runs (alloc3_desc_loop n (idx @ [i]) ?t) (\<lambda>r t. r = None \<and> vd_free t = (\<lambda>j. j \<in> set (idx @ [i]) \<or> vd_free ?t j))"
      using Suc.prems i same_harts_cong [OF h] by (intro Suc.IH) auto
    moreover have "(\<lambda>j. j \<in> set (idx @ [i]) \<or> vd_free ?t j) = (\<lambda>j. j \<in> set idx \<or> vd_free s j)" using i(2) by (auto simp: fun_eq_iff)
    ultimately show ?thesis using i(3) by simp
  qed
qed simp

text \<open>
  C13. A request that finds too few descriptors leaks none. \<open>alloc3_desc\<close> takes three different
  free descriptors, or, when fewer are free, gives back those it took: every descriptor is then as
  free as it was.
\<close>

theorem alloc3_desc_all_or_nothing:
  assumes "settled s" "table_free s"
  shows "runs (alloc3_desc s) (\<lambda>r t. case r of
      Some is \<Rightarrow> 3 \<le> free_count s \<and> length is = 3 \<and> distinct is \<and> set is \<subseteq> {i. i < NUM \<and> vd_free s i} \<and>
        vd_free t = (\<lambda>i. i \<notin> set is \<and> vd_free s i)
    | None \<Rightarrow> free_count s < 3 \<and> vd_free t = vd_free s)"
proof (cases "3 \<le> free_count s")
  case True
  then obtain i0 i1 i2 where "alloc3_desc s = Ok (Some [i0, i1, i2]) (s\<lparr>vd_free := (vd_free s)(i0 := False, i1 := False, i2 := False)\<rparr>)"
    "distinct [i0, i1, i2]" "{i0, i1, i2} \<subseteq> {i. i < NUM \<and> vd_free s i}" by (rule alloc3_desc_some)
  then show ?thesis using True by (auto simp: fun_eq_iff)
next
  case False
  then show ?thesis unfolding alloc3_desc_def
    by (intro runs_mono [OF alloc3_desc_loop_none [OF assms, of "[]" 3]]) auto
qed

section \<open>Witnesses\<close>



definition disk_machine :: vio_st where
  "disk_machine = log_st.extend (log_machine\<lparr>bufs := \<lambda>i. (bufs log_machine i)\<lparr>b_blockno := 7, b_disk := False, b_data := [1]\<rparr>\<rparr>)
     \<lparr>sb = \<lparr>sb_magic = 0, sb_size = 0, sb_nblocks = 0, sb_ninodes = 0, sb_nlog = 0, sb_logstart = 0, sb_inodestart = 0, sb_bmapstart = 0\<rparr>,
      inodes = (\<lambda>_. \<lparr>i_dev = 0, i_inum = 0, i_ref = 0, i_valid = False, i_type = 0, i_major = 0, i_minor = 0, i_nlink = 0, i_size = 0, i_addrs = []\<rparr>),
      pr_locking = True, panicked = False, uart_tx_buf = [], uart_tx_w = 0, uart_tx_r = 0, uart_lsr = [], uart_rhr = [], uart_out = [],
      cons_buf = [], cons_r = 0, cons_w = 0, cons_e = 0, pipes = (\<lambda>_. \<lparr>pi_data = [], pi_nread = 0, pi_nwrite = 0, pi_readopen = False, pi_writeopen = False\<rparr>),
      files = (\<lambda>_. \<lparr>f_type = FD_NONE, f_ref = 0, f_readable = False, f_writable = False, f_pipe = 0, f_ip = None, f_off = 0, f_major = 0\<rparr>),
      devsw_read = (\<lambda>_. None), devsw_write = (\<lambda>_. None),
      vd_pages = (0, 0, 0), vd_desc = (\<lambda>_. \<lparr>vq_addr = NoAddr, vq_len = 0, vq_flags = 0, vq_next = 0\<rparr>), vd_avail_idx = 0,
      vd_avail_ring = (\<lambda>_. 0), vd_used_ring_idx = 0, vd_used_ring = (\<lambda>_. 0), vd_free = (\<lambda>i. 2 < i), vd_used_idx = 0,
      vd_info_b = (\<lambda>_. None), vd_info_status = (\<lambda>_. 0), vd_ops = (\<lambda>_. \<lparr>rq_type = 0, rq_reserved = 0, rq_sector = 0\<rparr>),
      vd_regs = (\<lambda>_. 0), vd_status_reads = 0, vd_out = []\<rparr>"

lemma disk_machine_ready: "quiet 0 disk_machine" "c_noff (cpus disk_machine (tp disk_machine)) = 0" "vd_free disk_machine = (\<lambda>i. 2 < i)"
  "driver_ready disk_machine" "bufs disk_machine b = blank_buf\<lparr>b_blockno := 7, b_disk := False, b_data := [1]\<rparr>" "dwrites disk_machine = []"
proof -
  have "{i. i < 8 \<and> 2 < (i::nat)} = {3, 4, 5, 6, 7}" by auto
  then show "driver_ready disk_machine" by (simp add: driver_ready_def free_count_def disk_machine_def log_st.defs)
qed (simp_all add: quiet_def settled_def cpu_ok_def machine_defs lock_free_def disk_machine_def log_machine_def bio_machine_def
      small_machine_def mem_st.defs bio_st.defs log_st.defs)


theorem alloc3_desc_all_or_nothing_witness:
  "runs (alloc3_desc disk_machine) (\<lambda>r t. \<exists>is. r = Some is \<and> length is = 3 \<and> distinct is \<and> set is \<subseteq> {3..<8})"
  by (rule runs_mono [OF alloc3_desc_all_or_nothing [OF quietD(1,4) [OF disk_machine_ready(1)]]])
    (use disk_machine_ready(3,4) in \<open>auto simp: driver_ready_def split: option.splits\<close>)

end
