(* ===== verification/Transaction.thy ===== *)
theory Transaction
  imports Fs
begin

text \<open>
  Transactions of the file system: the calls \<open>begin_op\<close>, \<open>log_write\<close> and \<open>end_op\<close> of
  \<open>kernel/log.c\<close> as \<open>kernel/fs.c\<close> uses them. The file system changes a block by reading it,
  storing into the buffer, \<open>log_write\<close> and \<open>brelse\<close>, as in \<open>bzero\<close>, \<open>iupdate\<close> and \<open>balloc\<close>.
\<close>

section \<open>Critical sections over the log\<close>

lemma enter_log_simps [simp]:
  "lg_start (enter L s) = lg_start s" "lg_size (enter L s) = lg_size s" "lg_outstanding (enter L s) = lg_outstanding s"
  "lg_committing (enter L s) = lg_committing s" "lg_dev (enter L s) = lg_dev s" "lh_n (enter L s) = lh_n s"
  "lh_block (enter L s) = lh_block s"
  by (simp_all add: enter_def set_lock_def push_off_eq)

lemma set_buf_log_simps [simp]:
  "lg_start (set_buf i f s) = lg_start s" "lg_size (set_buf i f s) = lg_size s" "lg_outstanding (set_buf i f s) = lg_outstanding s"
  "lg_committing (set_buf i f s) = lg_committing s" "lg_dev (set_buf i f s) = lg_dev s" "lh_n (set_buf i f s) = lh_n s"
  "lh_block (set_buf i f s) = lh_block s"
  by (simp_all add: set_buf_def)

lemma quiet_log_upd [simp]:
  "quiet p (s\<lparr>lg_outstanding := a\<rparr>) = quiet p s" "quiet p (s\<lparr>lg_committing := c\<rparr>) = quiet p s"
  "quiet p (s\<lparr>lh_n := n\<rparr>) = quiet p s" "quiet p (s\<lparr>lh_block := bs\<rparr>) = quiet p s"
  by (intro quiet_cong; simp)+

lemma cache_log_upd [simp]:
  "cache p D H V P (s\<lparr>lg_outstanding := a\<rparr>) = cache p D H V P s" "cache p D H V P (s\<lparr>lg_committing := c\<rparr>) = cache p D H V P s"
  "cache p D H V P (s\<lparr>lh_n := n\<rparr>) = cache p D H V P s" "cache p D H V P (s\<lparr>lh_block := bs\<rparr>) = cache p D H V P s"
  by (simp_all add: cache_def is_at_def)

lemma begin_op_eq:
  assumes "quiet p s"
  shows "begin_op s = (if lg_committing s \<or> lh_n s + (lg_outstanding s + 1) * int MAXOPBLOCKS > int LOGSIZE then Block
    else Ok () (s\<lparr>lg_outstanding := lg_outstanding s + 1\<rparr>))"
proof -
  have q: "settled s" "lock_free LogLock s" using assms quietD by blast+
  let ?t = "(enter LogLock s)\<lparr>lg_outstanding := lg_outstanding s + 1\<rparr>"
  have "release LogLock ?t = Ok () (?t\<lparr>cpus := cpus s, locks := locks s\<rparr>)"
    using q by (intro release_settled) simp_all
  also have "?t\<lparr>cpus := cpus s, locks := locks s\<rparr> = s\<lparr>lg_outstanding := lg_outstanding s + 1\<rparr>"
    by (subst enter_eq) (simp add: locks_idem cpus_idem)
  finally show ?thesis using q by (simp add: begin_op_def acquire_free)
qed

text \<open>\<open>log_write\<close> records a new block at the end of the list and pins its buffer.\<close>

lemma log_slot_new: "lh_n s = int n \<Longrightarrow> b \<notin> lh_block s ` {..<n} \<Longrightarrow> log_slot b s = n"
  by (auto simp: log_slot_def find_None_iff split: option.split) (auto simp: find_Some_iff)

lemma log_slot_old:
  assumes "lh_n s = int n" "b \<in> lh_block s ` {..<n}"
  shows "log_slot b s < n" "lh_block s (log_slot b s) = b"
proof -
  obtain i where "find (\<lambda>i. lh_block s i = b) [0..<nat (lh_n s)] = Some i"
    using assms by (cases "find (\<lambda>i. lh_block s i = b) [0..<nat (lh_n s)]") (auto simp: find_None_iff)
  moreover from this have "i < n" "lh_block s i = b" using assms(1) by (auto simp: find_Some_iff)
  ultimately show "log_slot b s < n" "lh_block s (log_slot b s) = b" by (simp_all add: log_slot_def)
qed

lemma log_slot_enter [simp]: "log_slot b (enter L s) = log_slot b s"
  by (simp add: log_slot_def split: option.split)

lemma log_write_new:
  assumes "quiet p s" "lh_n s = int n" "b_blockno (bufs s i) \<notin> lh_block s ` {..<n}"
    and "n < LOGSIZE" "int n < lg_size s - 1" "1 \<le> lg_outstanding s"
  shows "log_write i s = Ok () ((set_buf i (\<lambda>x. x\<lparr>b_refcnt := b_refcnt x + 1\<rparr>) s)
    \<lparr>lh_block := (lh_block s)(n := b_blockno (bufs s i)), lh_n := int n + 1\<rparr>)"
proof -
  have q: "settled s" "lock_free L s" for L using assms(1) quietD by blast+
  let ?b = "b_blockno (bufs s i)"
  let ?u = "(enter LogLock s)\<lparr>lh_block := (lh_block s)(n := ?b)\<rparr>"
  have su: "settled ?u = settled (enter LogLock s)" by (rule settled_cong) simp_all
  have "bpin i ?u = Ok () (set_buf i (\<lambda>x. x\<lparr>b_refcnt := b_refcnt x + 1\<rparr>) ?u)"
    using q su by (simp add: bpin_def acquire_free bracket_bufs lock_free_cong [of ?u "enter LogLock s"])
  moreover let ?t = "(set_buf i (\<lambda>x. x\<lparr>b_refcnt := b_refcnt x + 1\<rparr>) ?u)\<lparr>lh_n := int n + 1\<rparr>"
  have "release LogLock ?t = Ok () (?t\<lparr>cpus := cpus s, locks := locks s\<rparr>)"
    using q by (intro release_settled) simp_all
  moreover have "?t\<lparr>cpus := cpus s, locks := locks s\<rparr> = (set_buf i (\<lambda>x. x\<lparr>b_refcnt := b_refcnt x + 1\<rparr>) s)
      \<lparr>lh_block := (lh_block s)(n := ?b), lh_n := int n + 1\<rparr>"
    unfolding set_buf_def by (subst enter_eq) (rule log_st.equality; simp)
  ultimately show ?thesis
    using assms q log_slot_new [OF assms(2,3)] by (simp add: log_write_def acquire_free Let_def)
qed

lemma log_write_absorb:
  assumes "quiet p s" "lh_n s = int n" "b_blockno (bufs s i) \<in> lh_block s ` {..<n}"
    and "n < LOGSIZE" "int n < lg_size s - 1" "1 \<le> lg_outstanding s"
  shows "log_write i s = Ok () s"
proof -
  have q: "settled s" "lock_free LogLock s" using assms(1) quietD by blast+
  have "(lh_block s)(log_slot (b_blockno (bufs s i)) s := b_blockno (bufs s i)) = lh_block s"
    using log_slot_old [OF assms(2,3)] by (simp add: fun_upd_idem)
  moreover have "(enter LogLock s)\<lparr>lh_block := lh_block s\<rparr> = enter LogLock s"
    by (rule log_st.equality) simp_all
  then have "release LogLock ((enter LogLock s)\<lparr>lh_block := lh_block s\<rparr>) = Ok () s"
    using q by (simp only: bracket_same)
  ultimately show ?thesis
    using assms q log_slot_old [OF assms(2,3)] by (simp add: log_write_def acquire_free Let_def bracket_same)
qed

section \<open>The state of a transaction\<close>

text \<open>
  Between two calls of the log: \<open>out\<close> operations are under way, \<open>n\<close> blocks are in the log, \<open>V\<close>
  gives the contents that readers see. The header on disk is empty.
\<close>

definition tx :: "nat \<Rightarrow> u32 \<Rightarrow> int \<Rightarrow> nat \<Rightarrow> (u32 \<Rightarrow> u8 list) \<Rightarrow> 'a log_st_scheme \<Rightarrow> bool" where
  "tx p D out n V s \<longleftrightarrow> cache p D Map.empty V (pinned n (lh_block s)) s \<and> lh_n s = int n \<and>
     log_layout (lg_start s) n (lh_block s) \<and> lg_outstanding s = out \<and> \<not> lg_committing s \<and> lg_dev s = D \<and>
     int LOGSIZE \<le> lg_size s \<and> length (V (word_of_int (lg_start s))) = BSIZE \<and> get32 0 (V (word_of_int (lg_start s))) = 0"

lemma txD:
  assumes "tx p D out n V s"
  shows "cache p D Map.empty V (pinned n (lh_block s)) s" "lh_n s = int n" "log_layout (lg_start s) n (lh_block s)"
    "lg_outstanding s = out" "\<not> lg_committing s" "lg_dev s = D" "int LOGSIZE \<le> lg_size s"
    "length (V (word_of_int (lg_start s))) = BSIZE" "get32 0 (V (word_of_int (lg_start s))) = 0"
    "quiet p s"
  using assms cacheD(1) by (auto simp: tx_def)

lemma tx_kept:
  assumes "tx p D out n V s" "crep p D s Map.empty V' (pinned n (lh_block s)) d w t"
    and "V' (word_of_int (lg_start s)) = V (word_of_int (lg_start s))"
  shows "tx p D out n V' t"
  using txD [OF assms(1)] crep_log [OF assms(2)] assms(2,3) by (simp add: tx_def crep_def)

text \<open>A change of one block in the way of the file system, of which \<open>bzero\<close> is the simplest.\<close>

definition log_update :: "u32 \<Rightarrow> u32 \<Rightarrow> (u8 list \<Rightarrow> u8 list) \<Rightarrow> 'a log_st_scheme \<Rightarrow> (unit, 'a log_st_scheme) outcome" where
  "log_update D b f s =
     bnd (bread D b s) (\<lambda>i s.
     bnd (log_write i (set_data i (f (buf_data i s)) s)) (\<lambda>_ s.
     brelse i s))"

lemma bzero_update: "bzero D b s = log_update D b (\<lambda>_. replicate BSIZE 0) s"
  by (simp add: bzero_def log_update_def)

lemma begin_op_tx:
  assumes "tx p D out n V s" "int n + (out + 1) * int MAXOPBLOCKS \<le> int LOGSIZE"
  shows "runs (begin_op s) (\<lambda>_ t. tx p D (out + 1) n V t \<and> disk t = disk s \<and> dwrites t = dwrites s \<and>
    lg_start t = lg_start s \<and> lh_block t = lh_block s)"
  using txD [OF assms(1)] assms(2) begin_op_eq [OF txD(10) [OF assms(1)]] by (simp add: tx_def)

text \<open>Reading the block and storing into the buffer, up to \<open>log_write\<close>.\<close>

lemma update_read:
  assumes "tx p D out n V s" "n < NBUF"
  shows "runs (bread D b s) (\<lambda>i t. let u = set_data i (f (buf_data i t)) t
    in crep p D s [i \<mapsto> b] (V(b := f (V b))) (pinned n (lh_block s)) (disk s) (dwrites s) u \<and> b_blockno (bufs u i) = b)"
proof -
  let ?P = "pinned n (lh_block s)"
  have "crep p D s Map.empty V ?P (disk s) (dwrites s) s" using txD(1) [OF assms(1)] by (simp add: crep_def)
  from bc.rd [OF this, of b] have "runs (bread D b s) (\<lambda>i t. crep p D s [i \<mapsto> b] V ?P (disk s) (dwrites s) t)"
    by (rule runs_mono) (use assms(2) room_pinned [of n 0] in \<open>simp_all add: pinned_def\<close>)
  then show ?thesis
  proof (rule runs_mono)
    fix i t assume t: "crep p D s [i \<mapsto> b] V ?P (disk s) (dwrites s) t"
    have "buf_data i t = V b" unfolding buf_data_def using t by (intro bc.get [where H = "[i \<mapsto> b]"]) auto
    moreover have "crep p D s [i \<mapsto> b] (V(b := f (V b))) ?P (disk s) (dwrites s) (set_data i (f (V b)) t)"
      unfolding set_data_def using t by (intro bc.put) auto
    ultimately show "let u = set_data i (f (buf_data i t)) t
        in crep p D s [i \<mapsto> b] (V(b := f (V b))) ?P (disk s) (dwrites s) u \<and> b_blockno (bufs u i) = b"
      by (auto simp: Let_def crep_def intro: cache_held(2) [where H = "[i \<mapsto> b]"])
  qed
qed

lemma pinned_new: "b \<notin> bs ` {..<n} \<Longrightarrow> pinned (Suc n) (bs(n := b)) = (pinned n bs)(b := 1)"
  by (auto simp: pinned_def fun_eq_iff less_Suc_eq)

lemma log_layout_new:
  assumes "log_layout start n bs" "b \<notin> bs ` {..<n}" "b \<notin> log_area start" "n < LOGSIZE"
  shows "log_layout start (Suc n) (bs(n := b))"
proof -
  have i: "(bs(n := b)) ` {..<Suc n} = insert b (bs ` {..<n})" by (auto simp: less_Suc_eq)
  have "inj_on (bs(n := b)) {..<Suc n}"
    using assms(1,2) by (auto simp: log_layout_def inj_on_def less_Suc_eq)
  then show ?thesis using assms unfolding log_layout_def i by auto
qed

lemma log_update_tx:
  assumes s: "tx p D out n V s" and out: "1 \<le> out" and n: "n < LOGSIZE - 1" and b: "b \<notin> log_area (lg_start s)"
  shows "runs (log_update D b f s) (\<lambda>_ t. \<exists>m. tx p D out m (V(b := f (V b))) t \<and> disk t = disk s \<and> dwrites t = dwrites s \<and>
    lg_start t = lg_start s \<and> lg_size t = lg_size s \<and> lh_block t ` {..<m} = insert b (lh_block s ` {..<n}) \<and>
    m = (if b \<in> lh_block s ` {..<n} then n else n + 1))"
proof -
  let ?P = "pinned n (lh_block s)" and ?V = "V(b := f (V b))" and ?h = "word_of_int (lg_start s) :: u32"
  have h: "?V ?h = V ?h" using b by (auto simp: log_area_def)
  have "runs (log_write i u) (\<lambda>_ u. runs (brelse i u) (\<lambda>_ t. \<exists>m. tx p D out m ?V t \<and> disk t = disk s \<and> dwrites t = dwrites s \<and>
      lg_start t = lg_start s \<and> lg_size t = lg_size s \<and> lh_block t ` {..<m} = insert b (lh_block s ` {..<n}) \<and>
      m = (if b \<in> lh_block s ` {..<n} then n else n + 1)))"
    if u: "crep p D s [i \<mapsto> b] ?V ?P (disk s) (dwrites s) u" "b_blockno (bufs u i) = b" for i u
  proof -
    have q: "quiet p u" "cache p D [i \<mapsto> b] ?V ?P u" using u(1) cacheD(1) by (auto simp: crep_def)
    note k = crep_log [OF u(1)]
    note w = txD [OF s]
    show ?thesis
    proof (cases "b \<in> lh_block s ` {..<n}")
      case True
      then have l: "log_write i u = Ok () u"
        using q(1) k w n u(2) out by (intro log_write_absorb [of p _ n]) simp_all
      have "runs (brelse i u) (\<lambda>_ t. crep p D s Map.empty ?V ?P (disk s) (dwrites s) t)"
        by (rule bc.rel_last [OF u(1)]) (use True in \<open>simp add: pinned_def\<close>)
      then show ?thesis unfolding l runs_simps
      proof (rule runs_mono, intro exI [of _ n] conjI)
        fix t assume t: "crep p D s Map.empty ?V ?P (disk s) (dwrites s) t"
        show "tx p D out n ?V t" by (rule tx_kept [where V = V and V' = ?V, OF s t h])
        show "disk t = disk s" "dwrites t = dwrites s" using t by (simp_all add: crep_def)
        show "lg_start t = lg_start s" "lg_size t = lg_size s" "lh_block t ` {..<n} = insert b (lh_block s ` {..<n})"
          "n = (if b \<in> lh_block s ` {..<n} then n else n + 1)"
          using crep_log [OF t] True by (simp_all add: insert_absorb)
      qed
    next
      case False
      let ?t = "(set_buf i (\<lambda>x. x\<lparr>b_refcnt := b_refcnt x + 1\<rparr>) u)\<lparr>lh_block := (lh_block s)(n := b), lh_n := int n + 1\<rparr>"
      have l: "log_write i u = Ok () ?t"
        using log_write_new [OF q(1), of n i] k w n u(2) out False by simp
      have "unat (b_refcnt (bufs u i) + 1) = 1 + 1"
        using cache_held(4) [OF q(2), of i b] False by (simp add: pinned_def unat_word_ariths)
      from cache_pins [OF q(2), of i b, OF _ this] have "cache p D [i \<mapsto> b] ?V (pinned (Suc n) (lh_block ?t)) ?t"
        using pinned_new [OF False] by (simp add: set_buf_def)
      then have "crep p D ?t [i \<mapsto> b] ?V (pinned (Suc n) (lh_block ?t)) (disk s) (dwrites s) ?t"
        using u(1) by (simp add: crep_def)
      then have r: "runs (brelse i ?t) (\<lambda>_ t. crep p D ?t Map.empty ?V (pinned (Suc n) (lh_block ?t)) (disk s) (dwrites s) t)"
        by (rule bc.rel_last) (simp add: pinned_def)
      have "log_layout (lg_start s) (Suc n) (lh_block ?t)" using log_layout_new [OF w(3) False b] n by simp
      note lay = this
      have i: "((lh_block s)(n := b)) ` {..<Suc n} = insert b (lh_block s ` {..<n})" by (auto simp: less_Suc_eq)
      show ?thesis unfolding l runs_simps
      proof (rule runs_mono [OF r], intro exI [of _ "Suc n"] conjI)
        fix x t assume t: "crep p D ?t Map.empty ?V (pinned (Suc n) (lh_block ?t)) (disk s) (dwrites s) t"
        note kt = crep_log [OF t]
        show "tx p D out (Suc n) ?V t"
          using t kt w k h lay by (simp add: tx_def crep_def)
        show "disk t = disk s" "dwrites t = dwrites s" using t by (simp_all add: crep_def)
        show "lg_start t = lg_start s" "lg_size t = lg_size s" "lh_block t ` {..<Suc n} = insert b (lh_block s ` {..<n})" using kt k i by simp_all
        show "Suc n = (if b \<in> lh_block s ` {..<n} then n else n + 1)" using False by simp
      qed
    qed
  qed
  then show ?thesis
    unfolding log_update_def runs_bnd
    by (intro runs_mono [OF update_read [OF s, of b f]]) (use n in \<open>auto simp: Let_def\<close>)
qed

section \<open>The end of an operation\<close>

lemma bnd_Ok [simp]: "bnd m Ok = m"
  by (cases m) simp_all

lemma cache_procs: "cache p D H V P s \<Longrightarrow> p_pid (X p) = p_pid (procs s p) \<Longrightarrow> cache p D H V P (s\<lparr>procs := X\<rparr>)"
  using quiet_cong [of "s\<lparr>procs := X\<rparr>" s p] by (simp add: cache_def is_at_def)

lemma cache_wake_log:
  "cache p D H V P s \<Longrightarrow> cache p D H V P (s\<lparr>lg_outstanding := a, lg_committing := c,
    procs := woken {..<NPROC} ch (Some p) (procs s)\<rparr>)"
proof -
  assume "cache p D H V P s"
  then have "cache p D H V P (s\<lparr>lg_outstanding := a, lg_committing := c\<rparr>)" by simp
  then show ?thesis by (rule cache_procs) (simp add: woken_def)
qed

lemma woken_pid [simp]: "p_pid (woken A ch me ps i) = p_pid (ps i)"
  by (simp add: woken_def)

lemma wake_log:
  assumes "quiet p s"
  shows "bnd (wakeup (Some ChanLog) ((enter LogLock s)\<lparr>lg_outstanding := a, lg_committing := c\<rparr>)) (\<lambda>_ s. release LogLock s) =
    Ok () (s\<lparr>lg_outstanding := a, lg_committing := c, procs := woken {..<NPROC} (Some ChanLog) (Some p) (procs s)\<rparr>)"
proof -
  let ?t = "(enter LogLock s)\<lparr>lg_outstanding := a, lg_committing := c\<rparr>"
  have q: "settled s" "lock_free L s" "c_proc (cpus s (tp s)) = Some p" for L using assms quietD by blast+
  have "settled ?t = settled (enter LogLock s)" by (rule settled_cong) simp_all
  then have "settled ?t" "table_free ?t" using q by (auto simp: table_free_def lock_free_cong [of ?t "enter LogLock s"])
  then have w: "wakeup (Some ChanLog) ?t = Ok () (?t\<lparr>procs := woken {..<NPROC} (Some ChanLog) (Some p) (procs s)\<rparr>)"
    using wakeup_woken [of ?t "Some ChanLog"] q(3) by simp
  let ?u = "?t\<lparr>procs := woken {..<NPROC} (Some ChanLog) (Some p) (procs s)\<rparr>"
  have "release LogLock ?u = Ok () (?u\<lparr>cpus := cpus s, locks := locks s\<rparr>)"
    using q by (intro release_settled) simp_all
  also have "?u\<lparr>cpus := cpus s, locks := locks s\<rparr> =
      s\<lparr>lg_outstanding := a, lg_committing := c, procs := woken {..<NPROC} (Some ChanLog) (Some p) (procs s)\<rparr>"
    by (subst enter_eq) (rule log_st.equality; simp)
  finally show ?thesis using w by simp
qed

text \<open>An operation that is not the last gives back its reservation and wakes those who wait.\<close>

lemma end_op_more:
  assumes "tx p D out n V s" "out \<noteq> 1"
  shows "runs (end_op s) (\<lambda>_ t. tx p D (out - 1) n V t \<and> disk t = disk s \<and> dwrites t = dwrites s \<and>
    lg_start t = lg_start s \<and> lh_block t = lh_block s)"
proof -
  note w = txD [OF assms(1)]
  have q: "settled s" "lock_free LogLock s" using w(10) quietD by blast+
  let ?t = "(enter LogLock s)\<lparr>lg_outstanding := out - 1\<rparr>"
  have t: "?t = (enter LogLock s)\<lparr>lg_outstanding := out - 1, lg_committing := False\<rparr>"
    using w(5) by (intro log_st.equality) simp_all
  have "end_op s = bnd (wakeup (Some ChanLog) ?t) (\<lambda>_ s. release LogLock s)"
    using assms(2) w(4,5) q by (simp add: end_op_def acquire_free Let_def)
  also have "\<dots> = Ok () (s\<lparr>lg_outstanding := out - 1, lg_committing := False,
      procs := woken {..<NPROC} (Some ChanLog) (Some p) (procs s)\<rparr>)"
    by (subst t) (rule wake_log [OF w(10)])
  finally have "end_op s = Ok () (s\<lparr>lg_outstanding := out - 1, lg_committing := False,
      procs := woken {..<NPROC} (Some ChanLog) (Some p) (procs s)\<rparr>)" .
  then show ?thesis using w cache_wake_log [OF w(1)] by (simp add: tx_def)
qed

text \<open>The last operation commits.\<close>

definition last_op :: "'a log_st_scheme \<Rightarrow> 'a log_st_scheme" where
  "last_op s = s\<lparr>lg_outstanding := 0, lg_committing := True\<rparr>"

lemma end_op_last:
  assumes "tx p D 1 n V s"
  shows "end_op s = bnd (commit (last_op s)) (\<lambda>_ s. bnd (acquire LogLock s) (\<lambda>_ s.
    bnd (wakeup (Some ChanLog) (s\<lparr>lg_committing := False\<rparr>)) (\<lambda>_ s. release LogLock s)))"
proof -
  note w = txD [OF assms]
  have q: "settled s" "lock_free LogLock s" using w(10) quietD by blast+
  let ?t = "(enter LogLock s)\<lparr>lg_outstanding := 0, lg_committing := True\<rparr>"
  have "release LogLock ?t = Ok () (?t\<lparr>cpus := cpus s, locks := locks s\<rparr>)"
    using q by (intro release_settled) simp_all
  also have "?t\<lparr>cpus := cpus s, locks := locks s\<rparr> = last_op s"
    unfolding last_op_def by (subst enter_eq) (rule log_st.equality; simp)
  finally show ?thesis using w(4,5) q by (simp add: end_op_def acquire_free Let_def)
qed

lemma finish_commit:
  assumes "quiet p s" "lg_outstanding s = 0"
  shows "bnd (acquire LogLock s) (\<lambda>_ s. bnd (wakeup (Some ChanLog) (s\<lparr>lg_committing := False\<rparr>)) (\<lambda>_ s. release LogLock s)) =
    Ok () (s\<lparr>lg_outstanding := 0, lg_committing := False, procs := woken {..<NPROC} (Some ChanLog) (Some p) (procs s)\<rparr>)"
proof -
  have l: "lock_free LogLock s" using assms quietD by blast
  have "(enter LogLock s)\<lparr>lg_committing := False\<rparr> = (enter LogLock s)\<lparr>lg_outstanding := 0, lg_committing := False\<rparr>"
    using assms(2) by (intro log_st.equality) simp_all
  then show ?thesis unfolding acquire_free [OF l] bnd_simps by (rule ssubst) (rule wake_log [OF assms(1)])
qed

lemma tx_woken:
  assumes "cache p D Map.empty V (\<lambda>_. 0) s" "lh_n s = 0" "lg_dev s = D" "int LOGSIZE \<le> lg_size s"
    "log_layout (lg_start s) 0 (lh_block s)"
    "length (V (word_of_int (lg_start s))) = BSIZE" "get32 0 (V (word_of_int (lg_start s))) = 0"
  shows "tx p D 0 0 V (s\<lparr>lg_outstanding := 0, lg_committing := False,
    procs := woken {..<NPROC} (Some ChanLog) (Some p) (procs s)\<rparr>)"
proof -
  have "pinned 0 bs = (\<lambda>_. 0)" for bs by (simp add: pinned_def fun_eq_iff)
  then show ?thesis using assms cache_wake_log [OF assms(1)] by (simp add: tx_def)
qed

section \<open>Crashes in the commit\<close>

text \<open>The writes of the commit that ends a transaction with \<open>n\<close> blocks in the log.\<close>

definition tx_writes :: "int \<Rightarrow> nat \<Rightarrow> (nat \<Rightarrow> u32) \<Rightarrow> (u32 \<Rightarrow> u8 list) \<Rightarrow> (u32 \<times> u8 list) list" where
  "tx_writes start n bs V = (if n = 0 then [] else commit_writes start n bs V)"

lemma tx_clean: "tx p D out n V s \<Longrightarrow> b \<notin> lh_block s ` {..<n} \<Longrightarrow> disk s b = V b"
  using cacheD(9) [OF txD(1), of p D out n V s b] by (simp add: pinned_def)

lemma tx_crash:
  assumes "tx p D out n V s"
  shows "valid_head (lg_start s) (upds (take k (tx_writes (lg_start s) n (lh_block s) V)) (disk s)) \<and>
    (\<forall>b. b \<notin> log_area (lg_start s) \<longrightarrow>
      recovered (lg_start s) (upds (take k (tx_writes (lg_start s) n (lh_block s) V)) (disk s)) b = (if n < k then V b else disk s b))"
proof (cases "n = 0")
  case True
  then have v: "disk s = V" using tx_clean [OF assms] by (simp add: fun_eq_iff)
  have z: "head_n (lg_start s) V = 0" using txD(9) [OF assms] by (simp add: head_n_def)
  then have "valid_head (lg_start s) V"
    using txD(3,8,9) [OF assms] True by (simp add: valid_head_def log_layout_def)
  then show ?thesis using True z by (simp add: tx_writes_def v recovered_def home_writes_def)
next
  case False
  then show ?thesis
    using crash_commit [where d = "disk s", OF txD(3) [OF assms] refl txD(8,9) [OF assms] tx_clean [OF assms]]
    by (simp add: tx_writes_def)
qed

lemma tx_home:
  assumes "tx p D out n V s" "b \<notin> log_area (lg_start s)"
  shows "upds (tx_writes (lg_start s) n (lh_block s) V) (disk s) b = V b"
proof (cases "n = 0")
  case True
  then show ?thesis using tx_clean [OF assms(1)] by (simp add: tx_writes_def)
next
  case False
  let ?W = "commit_writes (lg_start s) n (lh_block s) V" and ?h = "word_of_int (lg_start s) :: u32"
  have W: "length ?W = 2 * n + 2" by (simp add: commit_writes_def log_writes_def)
  have "n \<le> LOGSIZE" using txD(3) [OF assms(1)] by (simp add: log_layout_def)
  then have "head_n (lg_start s) (upds ?W (disk s)) = 0"
    using head_bytes_read(2) [OF head_bytes_read(1) [OF txD(8) [OF assms(1)]], of n 0] by (simp add: head_n_def commit_writes_def)
  then have "recovered (lg_start s) (upds ?W (disk s)) b = upds ?W (disk s) b" by (simp add: recovered_def home_writes_def)
  then show ?thesis using tx_crash [OF assms(1), of "2 * n + 2"] W assms(2) False by (auto simp: tx_writes_def)
qed

lemma end_op_commit:
  assumes "tx p D 1 n V s" "n < NBUF"
  shows "runs (end_op s) (\<lambda>_ t. tx p D 0 0 (disk t) t \<and> disk t = upds (tx_writes (lg_start s) n (lh_block s) V) (disk s) \<and>
    dwrites t = dwrites s @ tx_writes (lg_start s) n (lh_block s) V \<and> lg_start t = lg_start s)"
proof -
  note w = txD [OF assms(1)]
  let ?W = "tx_writes (lg_start s) n (lh_block s) V" and ?h = "word_of_int (lg_start s) :: u32"
  let ?V = "upds ?W V"
  have l0: "log_layout (lg_start s) 0 (lh_block s)" using w(3) by (simp add: log_layout_def)
  have h: "length (?V ?h) = BSIZE" "get32 0 (?V ?h) = 0"
  proof -
    have "n \<le> LOGSIZE" using w(3) by (simp add: log_layout_def)
    note hb = head_bytes_read(1) [OF w(8) this]
    have "get32 0 (head_bytes 0 bs (head_bytes n bs (V ?h))) = 0" for bs
      using hb [of bs] by (simp add: head_bytes_def)
    then show "length (?V ?h) = BSIZE" "get32 0 (?V ?h) = 0"
      using w(8,9) hb head_bytes_read(1) [OF hb, of 0] by (simp_all add: tx_writes_def commit_writes_def)
  qed
  have c: "runs (commit (last_op s)) (\<lambda>_ t. crep p D ((last_op s)\<lparr>lh_n := 0\<rparr>) Map.empty ?V (\<lambda>_. 0)
      (upds ?W (disk s)) (dwrites s @ ?W) t)"
  proof (cases "n = 0")
    case True
    have e: "(last_op s)\<lparr>lh_n := 0\<rparr> = last_op s" using True w(2) by (intro log_st.equality) (simp_all add: last_op_def)
    have "kept ((last_op s)\<lparr>lh_n := 0\<rparr>) (last_op s)" unfolding e by simp
    moreover have "pinned 0 bs = (\<lambda>_. 0)" for bs by (simp add: pinned_def fun_eq_iff)
    then have "cache p D Map.empty V (\<lambda>_. 0) (last_op s)" using w(1) True by (simp add: last_op_def)
    moreover have "lh_n (last_op s) = 0" "disk (last_op s) = disk s" "dwrites (last_op s) = dwrites s"
      using True w(2) by (simp_all add: last_op_def)
    ultimately show ?thesis using True by (simp add: commit_def tx_writes_def crep_def)
  next
    case False
    have l: "lg_dev (last_op s) = D" "lh_n (last_op s) = int n" "lg_start (last_op s) = lg_start s" "lh_block (last_op s) = lh_block s"
      "disk (last_op s) = disk s" "dwrites (last_op s) = dwrites s" "cache p D Map.empty V (pinned n (lh_block s)) (last_op s)"
      using w by (simp_all add: last_op_def)
    show ?thesis
      using commit_spec [OF l(7) l(1) [symmetric] l(2) _ assms(2) w(3) l(3) [symmetric] l(4) [symmetric]] False
      by (simp add: l tx_writes_def)
  qed
  show ?thesis unfolding end_op_last [OF assms(1)] runs_bnd
  proof (rule runs_mono [OF c])
    fix x t assume t: "crep p D ((last_op s)\<lparr>lh_n := 0\<rparr>) Map.empty ?V (\<lambda>_. 0) (upds ?W (disk s)) (dwrites s @ ?W) t"
    note k = crep_log [OF t]
    have ct: "cache p D Map.empty ?V (\<lambda>_. 0) t" "disk t = upds ?W (disk s)" "dwrites t = dwrites s @ ?W"
      using t by (simp_all add: crep_def)
    have V: "?V = disk t" using cacheD(9) [OF ct(1)] by (simp add: fun_eq_iff)
    have e: "lg_outstanding t = 0" using k(3) by (simp add: last_op_def)
    have "tx p D 0 0 ?V (t\<lparr>lg_outstanding := 0, lg_committing := False, procs := woken {..<NPROC} (Some ChanLog) (Some p) (procs t)\<rparr>)"
      by (rule tx_woken [OF ct(1)]) (use k w l0 h in \<open>simp_all add: last_op_def\<close>)
    then have "runs (bnd (acquire LogLock t) (\<lambda>_ s. bnd (wakeup (Some ChanLog) (s\<lparr>lg_committing := False\<rparr>)) (\<lambda>_ s. release LogLock s)))
        (\<lambda>_ t. tx p D 0 0 (disk t) t \<and> disk t = upds ?W (disk s) \<and> dwrites t = dwrites s @ ?W \<and> lg_start t = lg_start s)"
      unfolding finish_commit [OF cacheD(1) [OF ct(1)] e] using ct k V by (simp add: last_op_def)
    then show "runs (acquire LogLock t) (\<lambda>_ t. runs (wakeup (Some ChanLog) (t\<lparr>lg_committing := False\<rparr>)) (\<lambda>_ t. runs (release LogLock t)
        (\<lambda>_ t. tx p D 0 0 (disk t) t \<and> disk t = upds ?W (disk s) \<and> dwrites t = dwrites s @ ?W \<and> lg_start t = lg_start s)))"
      by simp
  qed
qed

section \<open>Several updates\<close>

fun log_updates :: "u32 \<Rightarrow> (u32 \<times> (u8 list \<Rightarrow> u8 list)) list \<Rightarrow> 'a log_st_scheme \<Rightarrow> (unit, 'a log_st_scheme) outcome" where
  "log_updates D [] s = Ok () s"
| "log_updates D ((b, f) # us) s = bnd (log_update D b f s) (\<lambda>_ s. log_updates D us s)"

definition updated :: "(u32 \<times> (u8 list \<Rightarrow> u8 list)) list \<Rightarrow> (u32 \<Rightarrow> u8 list) \<Rightarrow> u32 \<Rightarrow> u8 list" where
  "updated us V = fold (\<lambda>(b, f) V. V(b := f (V b))) us V"

lemma log_updates_tx:
  fixes s :: "'a log_st_scheme"
  assumes "tx p D out n V s" "1 \<le> out" "n + length us < LOGSIZE" "fst ` set us \<inter> log_area (lg_start s) = {}"
  shows "runs (log_updates D us s) (\<lambda>_ t. \<exists>m. tx p D out m (updated us V) t \<and> disk t = disk s \<and> dwrites t = dwrites s \<and>
    lg_start t = lg_start s \<and> lg_size t = lg_size s \<and> m \<le> n + length us \<and> lh_block t ` {..<m} = fst ` set us \<union> lh_block s ` {..<n})"
  using assms
proof (induction us arbitrary: n V s)
  case Nil
  then show ?case by (auto simp: updated_def)
next
  case (Cons u us)
  obtain b f where u: "u = (b, f)" by (cases u)
  have "runs (log_update D b f s) (\<lambda>_ t. \<exists>m. tx p D out m (V(b := f (V b))) t \<and> disk t = disk s \<and> dwrites t = dwrites s \<and>
      lg_start t = lg_start s \<and> lg_size t = lg_size s \<and> m \<le> n + 1 \<and> lh_block t ` {..<m} = insert b (lh_block s ` {..<n}))"
    by (rule runs_mono [OF log_update_tx [OF Cons.prems(1)]]) (use Cons.prems u in \<open>auto split: if_splits\<close>)
  then have "runs (log_update D b f s) (\<lambda>_ t. runs (log_updates D us t) (\<lambda>_ t. \<exists>m. tx p D out m (updated (u # us) V) t \<and> disk t = disk s \<and>
      dwrites t = dwrites s \<and> lg_start t = lg_start s \<and> lg_size t = lg_size s \<and> m \<le> n + length (u # us) \<and>
      lh_block t ` {..<m} = fst ` set (u # us) \<union> lh_block s ` {..<n}))"
  proof (rule runs_mono, elim exE conjE)
    fix t :: "'a log_st_scheme" and m
    assume t: "tx p D out m (V(b := f (V b))) t" "disk t = disk s" "dwrites t = dwrites s" "lg_start t = lg_start s" "lg_size t = lg_size s" "m \<le> n + 1"
      "lh_block t ` {..<m} = insert b (lh_block s ` {..<n})"
    have "runs (log_updates D us t) (\<lambda>_ t'. \<exists>m'. tx p D out m' (updated us (V(b := f (V b)))) t' \<and> disk t' = disk t \<and>
        dwrites t' = dwrites t \<and> lg_start t' = lg_start t \<and> lg_size t' = lg_size t \<and> m' \<le> m + length us \<and>
        lh_block t' ` {..<m'} = fst ` set us \<union> lh_block t ` {..<m})"
      by (rule Cons.IH [OF t(1)]) (use Cons.prems t u in auto)
    then show "runs (log_updates D us t) (\<lambda>_ t. \<exists>m. tx p D out m (updated (u # us) V) t \<and> disk t = disk s \<and>
        dwrites t = dwrites s \<and> lg_start t = lg_start s \<and> lg_size t = lg_size s \<and> m \<le> n + length (u # us) \<and>
        lh_block t ` {..<m} = fst ` set (u # us) \<union> lh_block s ` {..<n})"
    proof (rule runs_mono, elim exE conjE, intro exI conjI)
      fix t' :: "'a log_st_scheme" and m'
      assume t': "tx p D out m' (updated us (V(b := f (V b)))) t'" "disk t' = disk t" "dwrites t' = dwrites t" "lg_start t' = lg_start t"
        "lg_size t' = lg_size t" "m' \<le> m + length us" "lh_block t' ` {..<m'} = fst ` set us \<union> lh_block t ` {..<m}"
      show "tx p D out m' (updated (u # us) V) t'" using t'(1) u by (simp add: updated_def)
      show "disk t' = disk s" "dwrites t' = dwrites s" "lg_start t' = lg_start s" "lg_size t' = lg_size s" "m' \<le> n + length (u # us)"
        using t t' by simp_all
      show "lh_block t' ` {..<m'} = fst ` set (u # us) \<union> lh_block s ` {..<n}" using t t' u by simp
    qed
  qed
  then show ?case by (simp add: u)
qed

text \<open>
  C1. Transactions are atomic. From a state in which no operation is under way, a call of
  \<open>begin_op\<close>, then up to \<open>MAXOPBLOCKS\<close> changes of blocks outside the log in the way of the file
  system (\<open>bread\<close>, a store into the buffer, \<open>log_write\<close>, \<open>brelse\<close>), then \<open>end_op\<close>: all calls
  return, the disk then has the changed contents, and the state is again one without operations. If
  the machine stops after any number \<open>k\<close> of the block writes that this does, and boots on the disk
  it has left, \<open>initlog\<close> returns and the blocks outside the log have the contents from before, when
  at most \<open>c\<close> writes were done, and otherwise those with all changes: never a mixture.
\<close>

theorem transaction_atomic:
  fixes s :: "'a log_st_scheme"
  assumes "tx p D 0 0 V s" "length us \<le> MAXOPBLOCKS" "fst ` set us \<inter> log_area (lg_start s) = {}"
  shows "runs (bnd (begin_op s) (\<lambda>_ s. bnd (log_updates D us s) (\<lambda>_ s. end_op s)))
    (\<lambda>_ t. tx p D 0 0 (disk t) t \<and> (\<forall>b. b \<notin> log_area (lg_start s) \<longrightarrow> disk t b = updated us V b) \<and>
      (\<exists>ws c. dwrites t = dwrites s @ ws \<and>
        (\<forall>k q r sb. booted q D (upds (take k ws) (disk s)) (r :: log_st) \<and> sint (sb_logstart sb) = lg_start s \<longrightarrow>
          runs (initlog D sb r) (\<lambda>_ u. \<forall>b. b \<notin> log_area (lg_start s) \<longrightarrow> disk u b = (if k \<le> c then V b else updated us V b)))))"
proof -
  define Q where "Q = (\<lambda>t :: 'a log_st_scheme. tx p D 0 0 (disk t) t \<and> (\<forall>b. b \<notin> log_area (lg_start s) \<longrightarrow> disk t b = updated us V b) \<and>
      (\<exists>ws c. dwrites t = dwrites s @ ws \<and>
        (\<forall>k q r sb. booted q D (upds (take k ws) (disk s)) (r :: log_st) \<and> sint (sb_logstart sb) = lg_start s \<longrightarrow>
          runs (initlog D sb r) (\<lambda>_ u. \<forall>b. b \<notin> log_area (lg_start s) \<longrightarrow> disk u b = (if k \<le> c then V b else updated us V b)))))"
  have V: "disk s = V" using tx_clean [OF assms(1)] by (simp add: fun_eq_iff)
  have fin: "runs (end_op t) (\<lambda>_ t. Q t)" if t: "tx p D 1 m (updated us V) t" "disk t = disk s" "dwrites t = dwrites s"
      "lg_start t = lg_start s" "m \<le> length us" for t :: "'a log_st_scheme" and m
  proof (rule runs_mono [OF end_op_commit [OF t(1)]])
    let ?W = "tx_writes (lg_start t) m (lh_block t) (updated us V)"
    show "m < NBUF" using t(5) assms(2) by simp
    fix x and u :: "'a log_st_scheme"
    assume u: "tx p D 0 0 (disk u) u \<and> disk u = upds ?W (disk t) \<and> dwrites u = dwrites t @ ?W \<and> lg_start u = lg_start t"
    then have "tx p D 0 0 (disk u) u" "\<forall>b. b \<notin> log_area (lg_start s) \<longrightarrow> disk u b = updated us V b"
      using tx_home [OF t(1)] t(4) by auto
    moreover have "runs (initlog D sb r) (\<lambda>_ u. \<forall>b. b \<notin> log_area (lg_start s) \<longrightarrow> disk u b = (if k \<le> m then V b else updated us V b))"
      if "booted q D (upds (take k ?W) (disk s)) (r :: log_st)" "sint (sb_logstart sb) = lg_start s" for k q r sb
      by (rule runs_mono [OF initlog_recovers [OF that(1) _ that(2)]])
        (use tx_crash [OF t(1), of k] t(2,4) V in \<open>auto simp: log_area_def\<close>)
    then have "\<forall>k q r sb. booted q D (upds (take k ?W) (disk s)) (r :: log_st) \<and> sint (sb_logstart sb) = lg_start s \<longrightarrow>
        runs (initlog D sb r) (\<lambda>_ u. \<forall>b. b \<notin> log_area (lg_start s) \<longrightarrow> disk u b = (if k \<le> m then V b else updated us V b))"
      by blast
    moreover have "dwrites u = dwrites s @ ?W" using u t(3) by simp
    ultimately show "Q u" unfolding Q_def by blast
  qed
  have upd: "runs (log_updates D us t) (\<lambda>_ t. runs (end_op t) (\<lambda>_ t. Q t))"
    if t: "tx p D (0 + 1) 0 V t" "disk t = disk s" "dwrites t = dwrites s" "lg_start t = lg_start s"
    for t :: "'a log_st_scheme"
    by (rule runs_mono [OF log_updates_tx [OF t(1), of us]])
      (use assms(2,3) t(4) in simp, use assms(2) in simp, use assms(3) t(4) in simp, use t fin in auto)
  have "runs (begin_op s) (\<lambda>_ t. runs (log_updates D us t) (\<lambda>_ t. runs (end_op t) (\<lambda>_ t. Q t)))"
    by (rule runs_mono [OF begin_op_tx [OF assms(1)]]) (use upd in auto)
  then show ?thesis unfolding runs_bnd Q_def .
qed

section \<open>Concurrent operations\<close>

text \<open>
  Operations of several processes. A state has the number of updates that each open operation has
  made, and the machine; a step is one call of the log by the process that runs, or a switch to
  another process. An operation makes fewer than \<open>MAXOPBLOCKS\<close> updates.
\<close>

inductive log_step :: "u32 \<Rightarrow> (nat \<rightharpoonup> nat) \<times> 'a log_st_scheme \<Rightarrow> (nat \<rightharpoonup> nat) \<times> 'a log_st_scheme \<Rightarrow> bool" for D where
  op_begin: "u i = None \<Longrightarrow> begin_op s = Ok () t \<Longrightarrow> log_step D (u, s) (u(i \<mapsto> 0), t)"
| op_update: "u i = Some k \<Longrightarrow> Suc k < MAXOPBLOCKS \<Longrightarrow> b \<notin> log_area (lg_start s) \<Longrightarrow> log_update D b f s = Ok () t \<Longrightarrow>
    log_step D (u, s) (u(i \<mapsto> Suc k), t)"
| op_end: "u i = Some k \<Longrightarrow> end_op s = Ok () t \<Longrightarrow> log_step D (u, s) (u(i := None), t)"
| op_switch: "quiet q (s\<lparr>tp := h, cpus := c\<rparr>) \<Longrightarrow> log_step D (u, s) (u, s\<lparr>tp := h, cpus := c\<rparr>)"

definition log_ready :: "u32 \<Rightarrow> (nat \<rightharpoonup> nat) \<times> 'a log_st_scheme \<Rightarrow> bool" where
  "log_ready D us \<longleftrightarrow> fst us = Map.empty \<and> (\<exists>p V. tx p D 0 0 V (snd us))"

text \<open>The updates that the open operations may still make have room in the log.\<close>

definition rest :: "(nat \<rightharpoonup> nat) \<Rightarrow> nat" where
  "rest u = (\<Sum>i\<in>dom u. 9 - the (u i))"

definition log_inv :: "u32 \<Rightarrow> (nat \<rightharpoonup> nat) \<times> 'a log_st_scheme \<Rightarrow> bool" where
  "log_inv D us \<longleftrightarrow> finite (dom (fst us)) \<and> (\<forall>i k. fst us i = Some k \<longrightarrow> k \<le> 9) \<and>
     (\<exists>p V n. tx p D (int (card (dom (fst us)))) n V (snd us) \<and> n + rest (fst us) < LOGSIZE)"

lemma log_invI:
  "finite (dom u) \<Longrightarrow> (\<forall>i k. u i = Some k \<longrightarrow> k \<le> 9) \<Longrightarrow> tx p D out n V s \<Longrightarrow> out = int (card (dom u)) \<Longrightarrow>
    n + rest u < LOGSIZE \<Longrightarrow> log_inv D (u, s)"
  unfolding log_inv_def by auto

lemma log_invE:
  assumes "log_inv D (u, s)"
  obtains p V n where "finite (dom u)" "\<forall>i k. u i = Some k \<longrightarrow> k \<le> 9" "tx p D (int (card (dom u))) n V s" "n + rest u < LOGSIZE"
  using assms unfolding log_inv_def by auto

lemma rest_bound: "rest u \<le> card (dom u) * 9"
  unfolding rest_def using sum_bounded_above [of "dom u" "\<lambda>i. 9 - the (u i)" 9] by simp

lemma rest_begin: "finite (dom u) \<Longrightarrow> u i = None \<Longrightarrow> rest (u(i \<mapsto> 0)) = rest u + 9"
proof -
  assume f: "finite (dom u)" and i: "u i = None"
  then have "(\<Sum>j\<in>dom u. 9 - the ((u(i \<mapsto> 0)) j)) = (\<Sum>j\<in>dom u. 9 - the (u j))"
    by (intro sum.cong) auto
  then show ?thesis using f i by (simp add: rest_def domIff)
qed

lemma rest_update: "finite (dom u) \<Longrightarrow> u i = Some k \<Longrightarrow> k < 9 \<Longrightarrow> rest (u(i \<mapsto> Suc k)) + 1 = rest u"
proof -
  assume f: "finite (dom u)" and i: "u i = Some k" "k < 9"
  have r: "rest v = (9 - the (v i)) + (\<Sum>j\<in>dom u - {i}. 9 - the (v j))" if "dom v = dom u" for v
    unfolding rest_def that using f i by (intro sum.remove) auto
  have "(\<Sum>j\<in>dom u - {i}. 9 - the ((u(i \<mapsto> Suc k)) j)) = (\<Sum>j\<in>dom u - {i}. 9 - the (u j))"
    by (intro sum.cong) auto
  then show ?thesis using r [of u] r [of "u(i \<mapsto> Suc k)"] i by (auto simp: insert_absorb domIff)
qed

lemma rest_end: "finite (dom u) \<Longrightarrow> rest (u(i := None)) \<le> rest u"
proof -
  assume f: "finite (dom u)"
  have "rest (u(i := None)) = (\<Sum>j\<in>dom u - {i}. 9 - the (u j))"
    unfolding rest_def by (intro sum.cong) auto
  also have "\<dots> \<le> rest u" unfolding rest_def using f by (intro sum_mono2) auto
  finally show ?thesis .
qed

lemma tx_switch:
  assumes "tx p D out n V s" "quiet q (s\<lparr>tp := h, cpus := c\<rparr>)"
  shows "tx q D out n V (s\<lparr>tp := h, cpus := c\<rparr>)"
proof -
  have "cache q D Map.empty V P (s\<lparr>tp := h, cpus := c\<rparr>)" if "cache p D Map.empty V P s" for P
    using that assms(2) unfolding cache_def by (simp add: is_at_def)
  then show ?thesis using assms(1) by (simp add: tx_def)
qed

lemma log_inv_begin:
  assumes "log_inv D (u, s)" "u i = None" "begin_op s = Ok () t"
  shows "log_inv D (u(i \<mapsto> 0), t)"
proof -
  obtain p V n where f: "finite (dom u)" "\<forall>i k. u i = Some k \<longrightarrow> k \<le> 9" "tx p D (int (card (dom u))) n V s" "n + rest u < LOGSIZE"
    using assms(1) by (rule log_invE)
  have g: "int n + (int (card (dom u)) + 1) * int MAXOPBLOCKS \<le> int LOGSIZE"
    using assms(3) begin_op_eq [OF txD(10) [OF f(3)]] txD [OF f(3)] by (auto split: if_splits)
  have c: "card (dom (u(i \<mapsto> 0))) = card (dom u) + 1" using f(1) assms(2) by (simp add: domIff)
  have "runs (begin_op s) (\<lambda>_ t. tx p D (int (card (dom u)) + 1) n V t)"
    by (rule runs_mono [OF begin_op_tx [OF f(3) g]]) simp
  then have "tx p D (int (card (dom (u(i \<mapsto> 0))))) n V t" using assms(3) c by (simp add: add.commute)
  moreover have "n + rest (u(i \<mapsto> 0)) < LOGSIZE"
    using rest_begin [OF f(1) assms(2)] rest_bound [of u] g by simp
  ultimately show ?thesis using f by (intro log_invI [where n = n]) auto
qed

lemma log_inv_update:
  assumes "log_inv D (u, s)" "u i = Some k" "k < 9" "b \<notin> log_area (lg_start s)"
  shows "runs (log_update D b f s) (\<lambda>_ t. log_inv D (u(i \<mapsto> Suc k), t))"
proof -
  obtain p V n where h: "finite (dom u)" "\<forall>i k. u i = Some k \<longrightarrow> k \<le> 9" "tx p D (int (card (dom u))) n V s" "n + rest u < LOGSIZE"
    using assms(1) by (rule log_invE)
  have c: "1 \<le> int (card (dom u))" using h(1) assms(2) card_gt_0_iff [of "dom u"] by auto
  have d: "dom (u(i \<mapsto> Suc k)) = dom u" using assms(2) by auto
  note r = rest_update [OF h(1) assms(2,3)]
  have "n < LOGSIZE - 1" using h(4) r by linarith
  from log_update_tx [OF h(3) c this assms(4), of f] show ?thesis
  proof (rule runs_mono, elim exE conjE)
    fix t m
    assume t: "tx p D (int (card (dom u))) m (V(b := f (V b))) t" "m = (if b \<in> lh_block s ` {..<n} then n else n + 1)"
    then have "m + rest (u(i \<mapsto> Suc k)) < LOGSIZE" using h(4) r by (auto split: if_splits)
    then show "log_inv D (u(i \<mapsto> Suc k), t)"
      by (intro log_invI [OF _ _ t(1)]) (use h assms(3) d in auto)
  qed
qed

lemma log_inv_end:
  assumes "log_inv D (u, s)" "u i = Some k"
  shows "runs (end_op s) (\<lambda>_ t. log_inv D (u(i := None), t))"
proof -
  obtain p V n where h: "finite (dom u)" "\<forall>i k. u i = Some k \<longrightarrow> k \<le> 9" "tx p D (int (card (dom u))) n V s" "n + rest u < LOGSIZE"
    using assms(1) by (rule log_invE)
  have i: "i \<in> dom u" using assms(2) by auto
  have c: "card (dom (u(i := None))) = card (dom u) - 1" using h(1) i by (simp add: card_Diff_singleton)
  have r: "n + rest (u(i := None)) < LOGSIZE" using rest_end [OF h(1), of i] h(4) by linarith
  have g: "finite (dom (u(i := None)))" "\<forall>j k. (u(i := None)) j = Some k \<longrightarrow> k \<le> 9" using h by auto
  show ?thesis
  proof (cases "card (dom u) = 1")
    case True
    then have s: "tx p D 1 n V s" "n < NBUF" using h by simp_all
    show ?thesis
    proof (rule runs_mono [OF end_op_commit [OF s]], elim conjE)
      fix t assume "tx p D 0 0 (disk t) t"
      then show "log_inv D (u(i := None), t)" by (rule log_invI [where u = "u(i := None)", OF g]) (use r c True in simp_all)
    qed
  next
    case False
    then have "int (card (dom u)) \<noteq> 1" "int (card (dom (u(i := None)))) = int (card (dom u)) - 1"
      using c i h(1) card_gt_0_iff [of "dom u"] by (auto simp: of_nat_diff)
    then show ?thesis
      by (intro runs_mono [OF end_op_more [OF h(3)]]) (auto intro!: log_invI [where u = "u(i := None)", OF g _ _ r])
  qed
qed

lemma log_inv_step:
  assumes "log_inv D x" "log_step D x y"
  shows "log_inv D y"
  using assms(2)
proof cases
  case (op_begin u i s t)
  then show ?thesis using assms(1) log_inv_begin by simp
next
  case (op_update u i k b s f t)
  then show ?thesis using assms(1) log_inv_update [of D u s i k b f] by simp
next
  case (op_end u i k s t)
  then show ?thesis using assms(1) log_inv_end [of D u s i k] by simp
next
  case (op_switch q c h s u)
  from assms(1) obtain p V n where i: "finite (dom u)" "\<forall>i k. u i = Some k \<longrightarrow> k \<le> 9" "tx p D (int (card (dom u))) n V s"
    "n + rest u < LOGSIZE" unfolding op_switch(1) by (rule log_invE)
  show ?thesis unfolding op_switch(2) by (rule log_invI [OF i(1,2) tx_switch [OF i(3) op_switch(3)] refl i(4)])
qed

interpretation log_ops: safety "log_ready D" "log_step D" "log_inv D" for D
proof
  show "log_inv D x" if "log_ready D x" for x :: "(nat \<rightharpoonup> nat) \<times> 'a log_st_scheme"
    using that by (cases x) (auto simp: log_ready_def rest_def intro!: log_invI)
qed (rule log_inv_step)

text \<open>
  C5. The reservation of log space works as long as each operation updates fewer than
  \<open>MAXOPBLOCKS\<close> blocks. In every state that concurrent operations reach from an empty log, whatever
  the interleaving of their calls: an open operation that has made fewer than 9 updates can make
  another one, and any open operation can end; neither panics, in particular not with \<open>too big a
  transaction\<close> or for lack of buffers. A call of \<open>begin_op\<close> returns or waits.
\<close>

theorem log_space_reserved:
  assumes "reach (log_ready D) (log_step D) (u, s)"
  shows "(\<forall>i k b f. u i = Some k \<and> Suc k < MAXOPBLOCKS \<and> b \<notin> log_area (lg_start s) \<longrightarrow> runs (log_update D b f s) (\<lambda>_ _. True)) \<and>
    (\<forall>i k. u i = Some k \<longrightarrow> runs (end_op s) (\<lambda>_ _. True)) \<and> (begin_op s = Block \<or> runs (begin_op s) (\<lambda>_ _. True))"
proof (intro conjI allI impI)
  have inv: "log_inv D (u, s)" using assms by (rule log_ops.inv_reach)
  show "runs (log_update D b f s) (\<lambda>_ _. True)" if "u i = Some k \<and> Suc k < MAXOPBLOCKS \<and> b \<notin> log_area (lg_start s)" for i k b f
    using runs_mono [OF log_inv_update [OF inv, of i k b f]] that by auto
  show "runs (end_op s) (\<lambda>_ _. True)" if "u i = Some k" for i k using runs_mono [OF log_inv_end [OF inv that]] by auto
  obtain p where "quiet p s" using inv by (auto elim!: log_invE dest: txD(10))
  then show "begin_op s = Block \<or> runs (begin_op s) (\<lambda>_ _. True)" by (simp add: begin_op_eq)
qed

text \<open>Filling the log.\<close>

lemma tx_card: "tx p D out n V s \<Longrightarrow> card (lh_block s ` {..<n}) = n"
  using txD(3) [of p D out n V s] by (simp add: log_layout_def card_image)

lemma log_update_full:
  assumes "tx p D out n V s" "lg_size s = int LOGSIZE" "n = LOGSIZE - 1"
  shows "log_update D b f s = Panic ''too big a transaction''"
proof -
  have "n < NBUF" using assms(3) by simp
  from update_read [OF assms(1) this, of b f] obtain i t where t: "bread D b s = Ok i t"
    "crep p D s [i \<mapsto> b] (V(b := f (V b))) (pinned n (lh_block s)) (disk s) (dwrites s) (set_data i (f (buf_data i t)) t)"
    by (auto simp: runs_iff Let_def)
  let ?u = "set_data i (f (buf_data i t)) t"
  have "cache p D [i \<mapsto> b] (V(b := f (V b))) (pinned n (lh_block s)) ?u" using t(2) by (simp add: crep_def)
  then have "lock_free LogLock ?u" by (rule quietD(2) [OF cacheD(1)])
  moreover have "lh_n ?u = 29" "lg_size ?u = 30" using crep_log [OF t(2)] txD [OF assms(1)] assms(2,3) by simp_all
  ultimately show ?thesis by (simp add: log_update_def t(1) log_write_def acquire_free)
qed

text \<open>
  C6. The reservation is one block short for operations that use all their \<open>MAXOPBLOCKS\<close> blocks, on
  a file system whose log has \<open>LOGSIZE\<close> blocks. \<open>begin_op\<close> admits three operations to an empty log;
  when they have updated 29 different blocks between them, fewer than the 30 reserved for them, the
  next update panics.
\<close>

theorem log_reservation_short:
  fixes s :: "'a log_st_scheme"
  assumes "tx p D 0 0 V s" "lg_size s = int LOGSIZE" "length us = 29" "distinct (map fst us)"
    and "fst ` set us \<inter> log_area (lg_start s) = {}"
  shows "runs (bnd (begin_op s) (\<lambda>_ s. bnd (begin_op s) (\<lambda>_ s. bnd (begin_op s) (\<lambda>_ s. log_updates D us s))))
    (\<lambda>_ t. lg_outstanding t = 3 \<and> lh_n t = 29 \<and> log_update D b f t = Panic ''too big a transaction'')"
proof -
  have q: "quiet p s" using txD(10) [OF assms(1)] .
  let ?t = "s\<lparr>lg_outstanding := 3\<rparr>"
  have n: "lh_n s = 0" "lg_outstanding s = 0" "\<not> lg_committing s" using txD [OF assms(1)] by simp_all
  have b: "begin_op (s\<lparr>lg_outstanding := k\<rparr>) = Ok () (s\<lparr>lg_outstanding := k + 1\<rparr>)" if "0 \<le> k" "k \<le> 2" for k
    using begin_op_eq [of p "s\<lparr>lg_outstanding := k\<rparr>"] q n that by simp
  have s0: "s = s\<lparr>lg_outstanding := 0\<rparr>" using n by simp
  have "begin_op s = Ok () (s\<lparr>lg_outstanding := 1\<rparr>)" by (subst s0) (simp add: b)
  then have e: "bnd (begin_op s) (\<lambda>_ s. bnd (begin_op s) (\<lambda>_ s. bnd (begin_op s) (\<lambda>_ s. log_updates D us s))) = log_updates D us ?t"
    using b [of 1] b [of 2] by simp
  have t: "tx p D 3 0 V ?t" using assms(1) by (simp add: tx_def)
  show ?thesis unfolding e
  proof (rule runs_mono [OF log_updates_tx [OF t, of us]])
    fix x and t :: "'a log_st_scheme"
    assume "\<exists>m. tx p D 3 m (updated us V) t \<and> disk t = disk ?t \<and> dwrites t = dwrites ?t \<and> lg_start t = lg_start ?t \<and>
      lg_size t = lg_size ?t \<and> m \<le> 0 + length us \<and> lh_block t ` {..<m} = fst ` set us \<union> lh_block ?t ` {..<0}"
    then obtain m where u: "tx p D 3 m (updated us V) t" "lh_block t ` {..<m} = fst ` set us \<union> lh_block ?t ` {..<0}"
      "lg_size t = lg_size ?t" by blast
    have "card (fst ` set us) = 29" using distinct_card [OF assms(4)] assms(3) by simp
    then have m: "m = 29" using tx_card [OF u(1)] u(2) by simp
    show "lg_outstanding t = 3 \<and> lh_n t = 29 \<and> log_update D b f t = Panic ''too big a transaction''"
      using txD [OF u(1)] m log_update_full [OF u(1)] u(3) assms(2) by simp
  qed (use assms in simp_all)
qed

section \<open>Witnesses\<close>

lemma binit_log:
  fixes s :: "'a log_st_scheme"
  shows "lg_dev (binit s) = lg_dev s" "lg_start (binit s) = lg_start s" "lg_size (binit s) = lg_size s"
    "lg_outstanding (binit s) = lg_outstanding s" "lg_committing (binit s) = lg_committing s" "lh_n (binit s) = lh_n s"
proof -
  have "lg_dev (fold binit_push xs t) = lg_dev t" "lg_start (fold binit_push xs t) = lg_start t"
    "lg_size (fold binit_push xs t) = lg_size t" "lg_outstanding (fold binit_push xs t) = lg_outstanding t"
    "lg_committing (fold binit_push xs t) = lg_committing t" "lh_n (fold binit_push xs t) = lh_n t"
    for xs and t :: "'a log_st_scheme"
    by (induction xs arbitrary: t)
      (auto simp: binit_push_def init_sleeplock_def initlock_def set_lock_def Let_def set_sleeplock_def)
  then show "lg_dev (binit s) = lg_dev s" "lg_start (binit s) = lg_start s" "lg_size (binit s) = lg_size s"
    "lg_outstanding (binit s) = lg_outstanding s" "lg_committing (binit s) = lg_committing s" "lh_n (binit s) = lh_n s"
    by (simp_all add: binit_def Let_def initlock_def set_lock_def del: upt_rec_numeral)
qed

lemma log_machine_tx: "tx 0 1 0 0 (\<lambda>_. replicate BSIZE 0) (binit log_machine)"
proof -
  have "pinned 0 bs = (\<lambda>_. 0)" for bs by (simp add: pinned_def fun_eq_iff)
  moreover have "get32 0 (replicate BSIZE 0) = 0" by (simp add: get32_def word_of_bytes_def numeral_eq_Suc)
  ultimately show ?thesis
    using log_machine_booted by (simp add: tx_def booted_def binit_log log_layout_def) (simp add: log_machine_def bio_st.defs)
qed

lemma log_machine_start [simp]: "lg_start (binit log_machine) = 2" "lg_size (binit log_machine) = 30"
  by (simp_all add: binit_log) (simp_all add: log_machine_def bio_st.defs)

lemma outside_log:
  assumes "32 < uint b"
  shows "b \<notin> log_area 2"
proof
  assume "b \<in> log_area 2"
  then have "uint b = uint (word_of_int 2 :: u32) \<or> (\<exists>i<30. uint b = uint (log_block 2 i))" by (auto simp: log_area_def)
  moreover have "uint (log_block 2 i) = 3 + int i" if "i < 30" for i using that by (simp add: uint_log_block)
  ultimately show False using assms by auto
qed

theorem transaction_atomic_witness:
  "runs (bnd (begin_op (binit log_machine)) (\<lambda>_ s. bnd (log_updates 1 [(100, \<lambda>_. replicate BSIZE 1)] s) (\<lambda>_ s. end_op s)))
    (\<lambda>_ t. disk t 100 = replicate BSIZE 1)"
proof -
  have a: "(100 :: u32) \<notin> log_area 2" by (rule outside_log) simp
  show ?thesis
    by (rule runs_mono [OF transaction_atomic [OF log_machine_tx]]) (use a in \<open>auto simp: updated_def\<close>)
qed

theorem log_space_reserved_witness:
  "runs (begin_op (binit log_machine)) (\<lambda>_ s. runs (log_update 1 100 (\<lambda>_. replicate BSIZE 1) s) (\<lambda>_ _. True) \<and>
    runs (end_op s) (\<lambda>_ _. True))"
proof -
  let ?s = "binit log_machine"
  have a: "(100 :: u32) \<notin> log_area 2" by (rule outside_log) simp
  obtain t where t: "begin_op ?s = Ok () t" "lg_start t = lg_start ?s"
    using begin_op_tx [OF log_machine_tx] by (auto simp: runs_iff)
  have "log_ready 1 (Map.empty, ?s)" using log_machine_tx by (auto simp: log_ready_def)
  then have "reach (log_ready 1) (log_step 1) (Map.empty, ?s)" by (rule reach_init)
  then have "reach (log_ready 1) (log_step 1) ([0 \<mapsto> 0], t)"
    by (rule reach_step) (rule op_begin [OF _ t(1)], simp)
  note r = log_space_reserved [OF this]
  have "runs (log_update 1 100 (\<lambda>_. replicate BSIZE 1) t) (\<lambda>_ _. True)" "runs (end_op t) (\<lambda>_ _. True)"
    using conjunct1 [OF r, rule_format, of 0 0 100] conjunct1 [OF conjunct2 [OF r], rule_format, of 0 0] a t(2) by simp_all
  then show ?thesis using t(1) by simp
qed

theorem log_reservation_short_witness:
  "\<exists>t :: log_st. lg_outstanding t = 3 \<and> lh_n t = 29 \<and> log_update 1 1000 (\<lambda>x. x) t = Panic ''too big a transaction''"
proof -
  let ?us = "map (\<lambda>i. (of_nat (100 + i) :: u32, \<lambda>x :: u8 list. x)) [0..<29]"
  have v: "uint (of_nat m :: u32) = int m" if "m < 200" for m using that by (simp add: unsigned_of_nat take_bit_nat_eq_self)
  have u: "uint (of_nat (100 + i) :: u32) = int (100 + i)" if "i < 29" for i using that by (intro v) simp
  have "inj_on (\<lambda>i. of_nat (100 + i) :: u32) {0..<29}"
    by (intro inj_onI) (metis u add_left_cancel atLeastLessThan_iff of_nat_eq_iff)
  then have d: "distinct (map fst ?us)" by (simp add: comp_def distinct_map)
  have "(of_nat (100 + i) :: u32) \<notin> log_area 2" if "i < 29" for i using u [OF that] by (intro outside_log) simp
  then have a: "fst ` set ?us \<inter> log_area (lg_start (binit log_machine)) = {}" by auto
  show ?thesis
    using log_reservation_short [OF log_machine_tx _ _ d a, of 1000 "\<lambda>x. x"] by (auto simp: runs_iff)
qed

end
