(* ===== verification/Block_Tx.thy ===== *)
theory Block_Tx
  imports Transaction
begin

text \<open>
  Blocks inside a transaction: what \<open>kernel/fs.c\<close> relies on when it reads a block with \<open>bread\<close>,
  changes it, records the change with \<open>log_write\<close> and gives it back with \<open>brelse\<close>, possibly while
  it holds other blocks. The locale \<open>logged_blocks\<close> is that contract; the buffer cache and the log of
  the kernel provide it.
\<close>

section \<open>The interface\<close>

text \<open>
  \<open>R H B V s\<close> says that the caller holds the blocks \<open>H\<close>, that \<open>B\<close> are the blocks in the log, and that
  \<open>V\<close> gives the contents that readers see. \<open>F\<close> relates two states that agree on all that a caller
  may rely on, \<open>home\<close> is the disk and \<open>area\<close> the blocks of the log itself.
\<close>

locale logged_blocks =
  fixes R :: "(nat \<rightharpoonup> u32) \<Rightarrow> u32 set \<Rightarrow> (u32 \<Rightarrow> u8 list) \<Rightarrow> 's \<Rightarrow> bool"
    and F :: "'s \<Rightarrow> 's \<Rightarrow> bool" and home :: "'s \<Rightarrow> u32 \<Rightarrow> u8 list" and area :: "'s \<Rightarrow> u32 set"
    and rd :: "u32 \<Rightarrow> 's \<Rightarrow> (nat, 's) outcome"
    and lw rel :: "nat \<Rightarrow> 's \<Rightarrow> (unit, 's) outcome"
    and get :: "nat \<Rightarrow> 's \<Rightarrow> u8 list" and put :: "nat \<Rightarrow> u8 list \<Rightarrow> 's \<Rightarrow> 's"
  assumes F_refl: "F s s" and F_trans: "F s t \<Longrightarrow> F t u \<Longrightarrow> F s u"
    and frame: "F s t \<Longrightarrow> home t = home s \<and> area t = area s"
    and rd: "R H B V s \<Longrightarrow> b \<notin> ran H \<Longrightarrow> card B + card (dom H) < NBUF \<Longrightarrow>
      runs (rd b s) (\<lambda>i t. i \<notin> dom H \<and> R (H(i \<mapsto> b)) B V t \<and> F s t)"
    and lw: "R H B V s \<Longrightarrow> H i = Some b \<Longrightarrow> b \<notin> area s \<Longrightarrow> card B < LOGSIZE - 1 \<Longrightarrow>
      runs (lw i s) (\<lambda>_ t. R H (insert b B) V t \<and> F s t)"
    and rel: "R H B V s \<Longrightarrow> H i = Some b \<Longrightarrow> b \<in> B \<or> V b = home s b \<Longrightarrow>
      runs (rel i s) (\<lambda>_ t. R (H(i := None)) B V t \<and> F s t)"
    and get: "R H B V s \<Longrightarrow> H i = Some b \<Longrightarrow> get i s = V b"
    and put: "R H B V s \<Longrightarrow> H i = Some b \<Longrightarrow> R H B (V(b := x)) (put i x s) \<and> F s (put i x s)"
    and clean: "R H B V s \<Longrightarrow> b \<notin> B \<Longrightarrow> b \<notin> ran H \<Longrightarrow> V b = home s b"
begin

text \<open>Taking a block: its contents, and that it can be given back later, in any state of the same view.\<close>

lemma take:
  assumes "R H B V s" "b \<notin> ran H" "card B + card (dom H) < NBUF"
  shows "runs (rd b s) (\<lambda>i t. i \<notin> dom H \<and> get i t = V b \<and> R (H(i \<mapsto> b)) B V t \<and> F s t \<and> (b \<in> B \<or> V b = home t b))"
  using rd [OF assms]
proof (rule runs_mono, elim conjE)
  fix i t assume t: "i \<notin> dom H" "R (H(i \<mapsto> b)) B V t" "F s t"
  moreover have "get i t = V b" using t(2) by (rule get) simp
  moreover have "b \<in> B \<or> V b = home t b" using clean [OF assms(1) _ assms(2)] frame [OF t(3)] by auto
  ultimately show "i \<notin> dom H \<and> get i t = V b \<and> R (H(i \<mapsto> b)) B V t \<and> F s t \<and> (b \<in> B \<or> V b = home t b)" by blast
qed

lemma give:
  assumes "R (H(i \<mapsto> b)) B V s" "i \<notin> dom H" "b \<in> B \<or> V b = home s b"
  shows "runs (rel i s) (\<lambda>_ t. R H B V t \<and> F s t)"
proof -
  have "(H(i \<mapsto> b))(i := None) = H" using assms(2) by (auto simp: fun_eq_iff)
  then show ?thesis using rel [OF assms(1), of i b, OF _ assms(3)] by simp
qed

text \<open>Changing a block that is held: storing into it, recording it, and giving it back.\<close>

lemma store:
  assumes "R (H(i \<mapsto> b)) B V s" "i \<notin> dom H" "b \<notin> area s" "card B < LOGSIZE - 1"
  shows "runs (lw i (put i x s)) (\<lambda>_ t. R (H(i \<mapsto> b)) (insert b B) (V(b := x)) t \<and> F s t)"
    and "runs (bnd (lw i (put i x s)) (\<lambda>_ t. rel i t)) (\<lambda>_ t. R H (insert b B) (V(b := x)) t \<and> F s t)"
proof -
  have p: "R (H(i \<mapsto> b)) B (V(b := x)) (put i x s)" "F s (put i x s)" using put [OF assms(1), of i b x] by auto
  show l: "runs (lw i (put i x s)) (\<lambda>_ t. R (H(i \<mapsto> b)) (insert b B) (V(b := x)) t \<and> F s t)"
    using lw [OF p(1), of i b] frame [OF p(2)] assms(3,4) F_trans [OF p(2)] by (auto elim: runs_mono)
  show "runs (bnd (lw i (put i x s)) (\<lambda>_ t. rel i t)) (\<lambda>_ t. R H (insert b B) (V(b := x)) t \<and> F s t)"
  proof (rule runs_bndI [OF l], elim conjE)
    fix t assume t: "R (H(i \<mapsto> b)) (insert b B) (V(b := x)) t" "F s t"
    show "runs (rel i t) (\<lambda>_ t. R H (insert b B) (V(b := x)) t \<and> F s t)"
      by (rule runs_mono [OF give [OF t(1) assms(2)]]) (use F_trans [OF t(2)] in auto)
  qed
qed

text \<open>Looking at a block, and changing one.\<close>

lemma look:
  assumes "R H B V s" "b \<notin> ran H" "card B + card (dom H) < NBUF"
  shows "runs (rd b s) (\<lambda>i t. get i t = V b \<and> F s t \<and> runs (rel i t) (\<lambda>_ t. R H B V t \<and> F s t))"
proof (rule runs_mono [OF take [OF assms]], elim conjE)
  fix i t assume t: "i \<notin> dom H" "get i t = V b" "R (H(i \<mapsto> b)) B V t" "F s t" "b \<in> B \<or> V b = home t b"
  have "runs (rel i t) (\<lambda>_ u. R H B V u \<and> F s u)"
    by (rule runs_mono [OF give [OF t(3,1,5)]]) (use F_trans [OF t(4)] in auto)
  then show "get i t = V b \<and> F s t \<and> runs (rel i t) (\<lambda>_ t. R H B V t \<and> F s t)" using t by simp
qed

lemma change:
  assumes "R H B V s" "b \<notin> ran H" "card B + card (dom H) < NBUF" "b \<notin> area s" "card B < LOGSIZE - 1"
  shows "runs (bnd (rd b s) (\<lambda>i s. bnd (lw i (put i (f (get i s)) s)) (\<lambda>_ s. rel i s)))
    (\<lambda>_ t. R H (insert b B) (V(b := f (V b))) t \<and> F s t)"
proof (rule runs_bndI [OF take [OF assms(1-3)]], elim conjE)
  fix i t assume t: "i \<notin> dom H" "get i t = V b" "R (H(i \<mapsto> b)) B V t" "F s t"
  have "b \<notin> area t" using frame [OF t(4)] assms(4) by simp
  from store(2) [OF t(3,1) this assms(5), of "f (V b)"]
  show "runs (bnd (lw i (put i (f (get i t)) t)) (\<lambda>_ s. rel i s)) (\<lambda>_ t. R H (insert b B) (V(b := f (V b))) t \<and> F s t)"
    unfolding t(2) by (rule runs_mono) (use F_trans [OF t(4)] in auto)
qed

end

section \<open>The cache and the log of the kernel\<close>

text \<open>What the calls leave alone: all but the buffers, the list of blocks in the log and the messages.\<close>

definition fkept :: "'a log_st_scheme \<Rightarrow> 'a log_st_scheme \<Rightarrow> bool" where
  "fkept s t \<longleftrightarrow> kept (s\<lparr>klog := klog t, lh_n := lh_n t, lh_block := lh_block t\<rparr>) t \<and> disk t = disk s \<and> dwrites t = dwrites s"

lemma kept_set_log:
  assumes "kept s t"
  shows "kept (s\<lparr>klog := k, lh_n := n, lh_block := bs\<rparr>) (t\<lparr>klog := k, lh_n := n, lh_block := bs\<rparr>)"
proof -
  let ?u = "t\<lparr>procs := procs s, sleeplocks := sleeplocks s, bufs := bufs s, blinks := blinks s, disk := disk s, dwrites := dwrites s\<rparr>"
  have e: "?u = s" using assms by (simp add: kept_def)
  have "(t\<lparr>klog := k, lh_n := n, lh_block := bs\<rparr>)\<lparr>procs := procs s, sleeplocks := sleeplocks s, bufs := bufs s, blinks := blinks s,
      disk := disk s, dwrites := dwrites s\<rparr> = ?u\<lparr>klog := k, lh_n := n, lh_block := bs\<rparr>" by simp
  then show ?thesis using assms unfolding e by (simp add: kept_def)
qed

lemma kept_fkept: "kept s t \<Longrightarrow> disk t = disk s \<Longrightarrow> dwrites t = dwrites s \<Longrightarrow> fkept s t"
proof -
  assume k: "kept s t" and d: "disk t = disk s" "dwrites t = dwrites s"
  have e: "t\<lparr>procs := procs s, sleeplocks := sleeplocks s, bufs := bufs s, blinks := blinks s, disk := disk s, dwrites := dwrites s\<rparr> = s"
    using k by (simp add: kept_def)
  have "klog t = klog s" using arg_cong [OF e, of klog] by simp
  moreover have "s\<lparr>klog := klog s, lh_n := lh_n s, lh_block := lh_block s\<rparr> = s" by simp
  ultimately show "fkept s t" using k d kept_log [OF k] by (simp add: fkept_def)
qed

lemma fkept_refl [simp]: "fkept s s"
  by (simp add: kept_fkept)

lemma fkept_trans:
  assumes "fkept s t" "fkept t u"
  shows "fkept s u"
proof -
  have "kept (s\<lparr>klog := klog t, lh_n := lh_n t, lh_block := lh_block t\<rparr>\<lparr>klog := klog u, lh_n := lh_n u, lh_block := lh_block u\<rparr>)
      (t\<lparr>klog := klog u, lh_n := lh_n u, lh_block := lh_block u\<rparr>)"
    using assms(1) unfolding fkept_def by (intro kept_set_log) simp
  moreover have "kept (t\<lparr>klog := klog u, lh_n := lh_n u, lh_block := lh_block u\<rparr>) u" using assms(2) unfolding fkept_def by simp
  ultimately have "kept (s\<lparr>klog := klog u, lh_n := lh_n u, lh_block := lh_block u\<rparr>) u" using kept_trans by fastforce
  then show ?thesis using assms by (simp add: fkept_def)
qed

lemma fkeptD:
  assumes "fkept s t"
  shows "disk t = disk s" "dwrites t = dwrites s" "lg_start t = lg_start s" "lg_size t = lg_size s" "lg_outstanding t = lg_outstanding s"
    "log_st.more t = log_st.more s" "sleeplocks t (InodeSleep i) = sleeplocks s (InodeSleep i)" "mem t = mem s"
    "tp t = tp s" "cpus t = cpus s" "locks t = locks s" "\<exists>st. procs t q = (procs s q)\<lparr>p_state := st\<rparr>"
proof -
  let ?s = "s\<lparr>klog := klog t, lh_n := lh_n t, lh_block := lh_block t\<rparr>"
  have k: "kept ?s t" "disk t = disk s" "dwrites t = dwrites s" using assms by (simp_all add: fkept_def)
  then show "disk t = disk s" "dwrites t = dwrites s" "lg_start t = lg_start s" "lg_size t = lg_size s"
    "lg_outstanding t = lg_outstanding s" using kept_log [OF k(1)] by simp_all
  have e: "t\<lparr>procs := procs ?s, sleeplocks := sleeplocks ?s, bufs := bufs ?s, blinks := blinks ?s, disk := disk ?s,
       dwrites := dwrites ?s\<rparr> = ?s" using k(1) unfolding kept_def by blast
  show "log_st.more t = log_st.more s" using arg_cong [OF e, of log_st.more] by simp
  show "mem t = mem s" using arg_cong [OF e, of mem] by simp
  show "tp t = tp s" using arg_cong [OF e, of tp] by simp
  show "cpus t = cpus s" using arg_cong [OF e, of cpus] by simp
  show "locks t = locks s" using arg_cong [OF e, of locks] by simp
  show "sleeplocks t (InodeSleep i) = sleeplocks s (InodeSleep i)" "\<exists>st. procs t q = (procs s q)\<lparr>p_state := st\<rparr>"
    using k(1) unfolding kept_def by simp_all
qed

definition ftx :: "nat \<Rightarrow> u32 \<Rightarrow> (nat \<rightharpoonup> u32) \<Rightarrow> u32 set \<Rightarrow> (u32 \<Rightarrow> u8 list) \<Rightarrow> 'a log_st_scheme \<Rightarrow> bool" where
  "ftx p D H B V s \<longleftrightarrow> (\<exists>n. cache p D H V (pinned n (lh_block s)) s \<and> lh_n s = int n \<and> log_layout (lg_start s) n (lh_block s) \<and>
     lh_block s ` {..<n} = B \<and> 1 \<le> lg_outstanding s \<and> int LOGSIZE \<le> lg_size s)"

lemma ftxI:
  "cache p D H V (pinned n (lh_block s)) s \<Longrightarrow> lh_n s = int n \<Longrightarrow> log_layout (lg_start s) n (lh_block s) \<Longrightarrow>
    lh_block s ` {..<n} = B \<Longrightarrow> 1 \<le> lg_outstanding s \<Longrightarrow> int LOGSIZE \<le> lg_size s \<Longrightarrow> ftx p D H B V s"
  unfolding ftx_def by blast

lemma ftxE:
  assumes "ftx p D H B V s"
  obtains n where "cache p D H V (pinned n (lh_block s)) s" "lh_n s = int n" "log_layout (lg_start s) n (lh_block s)"
    "lh_block s ` {..<n} = B" "1 \<le> lg_outstanding s" "int LOGSIZE \<le> lg_size s" "card B = n" "quiet p s" "finite (dom H)"
proof -
  obtain n where n: "cache p D H V (pinned n (lh_block s)) s" "lh_n s = int n" "log_layout (lg_start s) n (lh_block s)"
    "lh_block s ` {..<n} = B" "1 \<le> lg_outstanding s" "int LOGSIZE \<le> lg_size s" using assms unfolding ftx_def by blast
  moreover have "card B = n" using n(3,4) by (auto simp: log_layout_def card_image)
  moreover have "dom H \<subseteq> {..<NBUF}" using n(1) by (simp add: cache_def)
  then have "finite (dom H)" by (rule finite_subset) simp
  ultimately show thesis using that cacheD(1) by blast
qed

lemma ftx_quiet: "ftx p D H B V s \<Longrightarrow> quiet p s"
  by (erule ftxE)

lemma tx_ftx: "tx p D out n V s \<Longrightarrow> 1 \<le> out \<Longrightarrow> ftx p D Map.empty (lh_block s ` {..<n}) V s"
  using txD [of p D out n V s] by (intro ftxI [of _ _ _ _ n]) simp_all

lemma ftx_kept:
  assumes "ftx p D H B V s" "kept s t" "disk t = disk s" "dwrites t = dwrites s"
    and "\<And>n. card B = n \<Longrightarrow> cache p D H V (pinned n (lh_block s)) s \<Longrightarrow> cache p D H' V' (pinned n (lh_block s)) t"
  shows "ftx p D H' B V' t \<and> fkept s t"
  using assms(1) kept_log [OF assms(2)] assms(5) kept_fkept [OF assms(2-4)] by (elim ftxE) (auto intro!: ftxI)

lemma bread_ftx:
  assumes "ftx p D H B V s" "b \<notin> ran H" "card B + card (dom H) < NBUF"
  shows "runs (bread D b s) (\<lambda>i t. i \<notin> dom H \<and> ftx p D (H(i \<mapsto> b)) B V t \<and> fkept s t)"
  using assms(1)
proof (rule ftxE)
  fix n assume n: "cache p D H V (pinned n (lh_block s)) s" "card B = n"
  from n(1) assms(2) have "runs (bread D b s) (\<lambda>i t. i \<notin> dom H \<and> cache p D (H(i \<mapsto> b)) V (pinned n (lh_block s)) t \<and> kept s t \<and>
      disk t = disk s \<and> dwrites t = dwrites s)"
    by (rule bread_cache) (use n assms(3) room_pinned [of n "card (dom H)"] in \<open>simp_all add: pinned_def\<close>)
  then show ?thesis
    by (rule runs_mono) (use ftx_kept [OF assms(1)] n(2) in blast)
qed

lemma log_write_ftx:
  assumes "ftx p D H B V s" "H i = Some b" "b \<notin> log_area (lg_start s)" "card B < LOGSIZE - 1"
  shows "runs (log_write i s) (\<lambda>_ t. ftx p D H (insert b B) V t \<and> fkept s t)"
  using assms(1)
proof (rule ftxE)
  fix n assume n: "cache p D H V (pinned n (lh_block s)) s" "lh_n s = int n" "log_layout (lg_start s) n (lh_block s)"
    "lh_block s ` {..<n} = B" "1 \<le> lg_outstanding s" "int LOGSIZE \<le> lg_size s" "card B = n" "quiet p s"
  have b: "b_blockno (bufs s i) = b" using cache_held(2) [OF n(1) assms(2)] .
  show ?thesis
  proof (cases "b \<in> B")
    case True
    then have "log_write i s = Ok () s"
      using n assms(4) b by (intro log_write_absorb [of p _ n]) simp_all
    then show ?thesis using assms(1) True by (simp add: insert_absorb)
  next
    case False
    let ?t = "(set_buf i (\<lambda>x. x\<lparr>b_refcnt := b_refcnt x + 1\<rparr>) s)\<lparr>lh_block := (lh_block s)(n := b), lh_n := int n + 1\<rparr>"
    have l: "log_write i s = Ok () ?t" using log_write_new [OF n(8,2), of i] n assms(4) b False by simp
    have nb: "b \<notin> lh_block s ` {..<n}" using False n(4) by simp
    have "unat (b_refcnt (bufs s i) + 1) = 1 + 1"
      using cache_held(4) [OF n(1) assms(2)] nb by (simp add: pinned_def unat_word_ariths)
    from cache_pins [OF n(1) assms(2) this] have "cache p D H V (pinned (Suc n) (lh_block ?t)) ?t"
      using pinned_new [OF nb] by (simp add: set_buf_def)
    moreover have "log_layout (lg_start s) (Suc n) (lh_block ?t)" using log_layout_new [OF n(3) nb assms(3)] assms(4) n(7) by simp
    moreover have "((lh_block s)(n := b)) ` {..<Suc n} = insert b B" unfolding n(4) [symmetric] by (auto simp: less_Suc_eq)
    ultimately have "ftx p D H (insert b B) V ?t" using n(5,6) by (intro ftxI [of _ _ _ _ "Suc n"]) simp_all
    moreover have o: "u\<lparr>lh_block := x, lh_n := y\<rparr> = u\<lparr>lh_n := y, lh_block := x\<rparr>" for u :: "'a log_st_scheme" and x y
      by (rule log_st.equality) simp_all
    have "fkept s ?t" unfolding fkept_def
      using kept_set_log [OF kept_set_buf [of s i "\<lambda>x. x\<lparr>b_refcnt := b_refcnt x + 1\<rparr>"], where k = "klog s" and n = "int n + 1" and bs = "(lh_block s)(n := b)"]
      by (simp add: set_buf_def o)
    ultimately show ?thesis using l by simp
  qed
qed

lemma brelse_ftx:
  assumes "ftx p D H B V s" "H i = Some b" "b \<in> B \<or> V b = disk s b"
  shows "runs (brelse i s) (\<lambda>_ t. ftx p D (H(i := None)) B V t \<and> fkept s t)"
  using assms(1)
proof (rule ftxE)
  fix n assume n: "cache p D H V (pinned n (lh_block s)) s" "lh_block s ` {..<n} = B" "card B = n"
  have "pinned n (lh_block s) b = 0 \<Longrightarrow> V b = disk s b" using assms(3) n(2) by (auto simp: pinned_def split: if_splits)
  then have "cache p D (H(i := None)) V (pinned n (lh_block s)) (brelse_post p i s)" by (rule brelse_post_cache [OF n(1) assms(2)])
  then show ?thesis using brelse_held [OF n(1) assms(2)] n(3)
    using ftx_kept [OF assms(1) brelse_post_kept, of p i "H(i := None)" V] by simp
qed

lemma set_data_ftx:
  assumes "ftx p D H B V s" "H i = Some b"
  shows "ftx p D H B (V(b := x)) (set_data i x s) \<and> fkept s (set_data i x s)"
  unfolding set_data_def using assms(2) cache_store
  by (intro ftx_kept [OF assms(1)]) (auto simp: kept_set_buf)

interpretation lb: logged_blocks "ftx p D" fkept disk "\<lambda>s. log_area (lg_start s)" "bread D" log_write brelse buf_data set_data
  for p D
proof
  show "buf_data i s = V b" if "ftx p D H B V s" "H i = Some b" for H B V i b and s :: "'a log_st_scheme"
    using that(1) by (rule ftxE) (use cache_held(3) that(2) in \<open>auto simp: buf_data_def\<close>)
  show "V b = disk s b" if "ftx p D H B V s" "b \<notin> B" "b \<notin> ran H" for H B V b and s :: "'a log_st_scheme"
    using that(1) by (rule ftxE) (rule cacheD(9), assumption, use that(2,3) in \<open>auto simp: pinned_def\<close>)
  show "disk t = disk s \<and> log_area (lg_start t) = log_area (lg_start s)" if "fkept s t" for s t :: "'a log_st_scheme"
    using fkeptD [OF that] by simp
qed (fact fkept_refl, fact fkept_trans, fact bread_ftx, fact log_write_ftx, fact brelse_ftx, fact set_data_ftx)

end
