(* ===== verification/Block_Alloc.thy ===== *)
theory Block_Alloc
  imports Block_Tx
begin

text \<open>
  The block allocator \<open>balloc\<close> and \<open>bfree\<close> of \<open>kernel/fs.c\<close>: the bitmap as the set of blocks in
  use, the first free block, and freeing.
\<close>

section \<open>Bits of the bitmap\<close>

lemma block_bit_iff: "block_bit d bi \<longleftrightarrow> bit (d ! (bi div 8)) (bi mod 8)"
proof -
  have l: "bi mod 8 < 8" by simp
  then have "d ! (bi div 8) AND push_bit (bi mod 8) 1 = push_bit (bi mod 8) (of_bool (bit (d ! (bi div 8)) (bi mod 8)))"
    by (intro bit_eqI) (auto simp: bit_simps)
  then show ?thesis using l by (auto simp: block_bit_def)
qed

lemma length_set_block_bit [simp]: "length (set_block_bit bi d) = length d" "length (clear_block_bit bi d) = length d"
  by (simp_all add: set_block_bit_def clear_block_bit_def)

lemma block_bit_upd:
  assumes "bi div 8 < length d"
  shows "block_bit (set_block_bit bi d) bj \<longleftrightarrow> bj = bi \<or> block_bit d bj"
    and "block_bit (clear_block_bit bi d) bj \<longleftrightarrow> bj \<noteq> bi \<and> block_bit d bj"
proof -
  have e: "bj = bi \<longleftrightarrow> bj div 8 = bi div 8 \<and> bj mod 8 = bi mod 8" using div_mult_mod_eq [of bi 8] div_mult_mod_eq [of bj 8] by metis
  have "bj mod 8 < 8" by simp
  then show "block_bit (set_block_bit bi d) bj \<longleftrightarrow> bj = bi \<or> block_bit d bj"
    "block_bit (clear_block_bit bi d) bj \<longleftrightarrow> bj \<noteq> bi \<and> block_bit d bj"
    using assms unfolding block_bit_iff set_block_bit_def clear_block_bit_def e by (auto simp: bit_simps nth_list_update)
qed

text \<open>Block \<open>n\<close> of the disk is in use.\<close>

definition used :: "superblock \<Rightarrow> (u32 \<Rightarrow> u8 list) \<Rightarrow> nat \<Rightarrow> bool" where
  "used b V n = block_bit (V (BBLOCK (of_nat n) b)) (n mod BPB)"

definition fs_size :: "superblock \<Rightarrow> nat" where
  "fs_size b = unat (sb_size b)"

definition bitmap_blocks :: "superblock \<Rightarrow> u32 set" where
  "bitmap_blocks b = (\<lambda>n. BBLOCK (of_nat n) b) ` {..<fs_size b}"

text \<open>
  The bitmap of a file system: its blocks are full blocks outside the log, and the boot block, the
  log and the bitmap are in use.
\<close>

definition bitmap_ok :: "superblock \<Rightarrow> u32 set \<Rightarrow> (u32 \<Rightarrow> u8 list) \<Rightarrow> bool" where
  "bitmap_ok b A V \<longleftrightarrow> bitmap_blocks b \<inter> A = {} \<and> (\<forall>c\<in>bitmap_blocks b. length (V c) = BSIZE) \<and>
     (\<forall>n<fs_size b. of_nat n \<in> insert 0 (A \<union> bitmap_blocks b) \<longrightarrow> used b V n)"

lemma fs_size_less: "n < fs_size b \<Longrightarrow> n < 2 ^ 32" "n < fs_size b \<Longrightarrow> unat (of_nat n :: u32) = n"
proof -
  have "unat (sb_size b) < 2 ^ LENGTH(32)" by (rule unsigned_less)
  then show "n < fs_size b \<Longrightarrow> n < 2 ^ 32" "n < fs_size b \<Longrightarrow> unat (of_nat n :: u32) = n"
    by (simp_all add: fs_size_def unat_of_nat)
qed

lemma BBLOCK_base:
  assumes "BPB dvd n" "i < BPB" "n + i < fs_size b"
  shows "BBLOCK (of_nat (n + i)) b = BBLOCK (of_nat n) b" "(n + i) mod BPB = i"
proof -
  have *: "BBLOCK (of_nat m) b = of_nat (m div BPB) + sb_bmapstart b" if "m < fs_size b" for m
  proof -
    have "(of_nat m :: u32) div of_nat BPB = of_nat (m div BPB)"
      using fs_size_less [OF that] by (intro word_unat_eq_iff [THEN iffD2]) (simp add: unat_div_distrib BPB_def unat_of_nat)
    then show ?thesis by (simp add: BBLOCK_def)
  qed
  obtain k where k: "n = BPB * k" using assms(1) by blast
  have "(n + i) div BPB = n div BPB" using assms(2) unfolding k by simp
  then show "BBLOCK (of_nat (n + i)) b = BBLOCK (of_nat n) b" using * [of "n + i"] * [of n] assms(3) by simp
  show "(n + i) mod BPB = i" using assms(2) unfolding k by simp
qed

lemma bitmap_okD:
  assumes "bitmap_ok b A V" "n < fs_size b"
  shows "BBLOCK (of_nat n) b \<notin> A" "length (V (BBLOCK (of_nat n) b)) = BSIZE" "BBLOCK (of_nat n) b \<in> bitmap_blocks b"
    "of_nat n \<in> insert 0 (A \<union> bitmap_blocks b) \<Longrightarrow> used b V n"
  using assms by (auto simp: bitmap_ok_def bitmap_blocks_def)

lemma mod_BPB_div: "n mod BPB div 8 < 1024"
  by (simp add: BPB_def less_mult_imp_div_less)

text \<open>Setting or clearing the bit of one block changes its use only.\<close>

lemma used_upd:
  assumes "bitmap_ok b A V" "n < fs_size b" "m < fs_size b"
  shows "used b (V(BBLOCK (of_nat n) b := set_block_bit (n mod BPB) (V (BBLOCK (of_nat n) b)))) m \<longleftrightarrow> m = n \<or> used b V m"
    and "used b (V(BBLOCK (of_nat n) b := clear_block_bit (n mod BPB) (V (BBLOCK (of_nat n) b)))) m \<longleftrightarrow> m \<noteq> n \<and> used b V m"
proof -
  let ?c = "BBLOCK (of_nat n) b"
  have l: "n mod BPB div 8 < length (V ?c)" using bitmap_okD(2) [OF assms(1,2)] mod_BPB_div by simp
  have same: "m = n" if "BBLOCK (of_nat m) b = ?c" "m mod BPB = n mod BPB"
  proof -
    have "(of_nat m :: u32) div of_nat BPB = of_nat n div of_nat BPB" using that(1) by (simp add: BBLOCK_def)
    then have "unat ((of_nat m :: u32) div of_nat BPB) = unat ((of_nat n :: u32) div of_nat BPB)" by simp
    then have "m div BPB = n div BPB" using fs_size_less [OF assms(2)] fs_size_less [OF assms(3)]
      by (simp add: unat_div_distrib BPB_def)
    then show ?thesis using that(2) div_mult_mod_eq [of m BPB] div_mult_mod_eq [of n BPB] by metis
  qed
  show "used b (V(?c := set_block_bit (n mod BPB) (V ?c))) m \<longleftrightarrow> m = n \<or> used b V m"
    "used b (V(?c := clear_block_bit (n mod BPB) (V ?c))) m \<longleftrightarrow> m \<noteq> n \<and> used b V m"
    using same block_bit_upd [OF l, of "m mod BPB"] by (auto simp: used_def)
qed

lemma used_other:
  "c \<notin> bitmap_blocks b \<Longrightarrow> n < fs_size b \<Longrightarrow> used b (V(c := x)) n = used b V n"
  by (auto simp: used_def bitmap_blocks_def)

section \<open>Allocation\<close>

lemma find_append: "find P (xs @ ys) = (case find P xs of None \<Rightarrow> find P ys | Some x \<Rightarrow> Some x)"
  by (induction xs) auto

lemma find_map: "find P (map f xs) = map_option f (find (P \<circ> f) xs)"
  by (induction xs) auto

text \<open>The block numbers that the outer loop covers, in the order of the search.\<close>

definition bitmap_range :: "superblock \<Rightarrow> nat list \<Rightarrow> nat list" where
  "bitmap_range b bs = concat (map (\<lambda>n. map ((+) n) [0..<min BPB (fs_size b - n)]) bs)"

lemma bitmap_range_all: "bitmap_range b (map (\<lambda>k. k * BPB) [0..<(fs_size b + BPB - 1) div BPB]) = [0..<fs_size b]"
proof -
  have r: "map ((+) n) [0..<k] = [n..<n + k]" for n k by (induction k) simp_all
  have "bitmap_range b (map (\<lambda>k. k * BPB) [0..<m]) = [0..<min (m * BPB) (fs_size b)]" for m
  proof (induction m)
    case (Suc m)
    then have "bitmap_range b (map (\<lambda>k. k * BPB) [0..<Suc m]) =
        [0..<min (m * BPB) (fs_size b)] @ [m * BPB..<m * BPB + min BPB (fs_size b - m * BPB)]"
      by (simp add: bitmap_range_def r)
    also have "\<dots> = [0..<min (Suc m * BPB) (fs_size b)]"
      using upt_add_eq_append [of 0 "m * BPB" "min BPB (fs_size b - m * BPB)"]
      by (cases "m * BPB \<le> fs_size b") (auto simp: min_def add.commute split: if_splits)
    finally show ?case .
  qed (simp add: bitmap_range_def)
  moreover have "fs_size b \<le> (fs_size b + BPB - 1) div BPB * BPB"
    using div_mult_mod_eq [of "fs_size b + BPB - 1" BPB] mod_less_divisor [of BPB "fs_size b + BPB - 1"] by (simp add: BPB_def)
  ultimately show ?thesis by (simp add: min_def)
qed

lemma card_insert_Suc: "card (insert x B) \<le> Suc (card B)"
  by (cases "finite B") (simp_all add: card_insert_if)

lemma fs_more: "log_st.more t = log_st.more s \<Longrightarrow> sb t = sb s" "log_st.more t = log_st.more s \<Longrightarrow> inodes t = inodes s"
  for s t :: "'a fs_st_scheme"
  by (cases s; cases t; simp)+

lemmas fkept_fs = fs_more [OF fkeptD(6)]

lemma fkept_pr [simp]: "fkept s (pr m s)"
proof -
  have "s\<lparr>klog := klog (pr m s), lh_n := lh_n (pr m s), lh_block := lh_block (pr m s)\<rparr> = pr m s"
    by (rule log_st.equality) (simp_all add: pr_def)
  then show ?thesis by (simp add: fkept_def) (simp add: pr_def)
qed

lemma ftx_pr [simp]: "ftx p D H B V (pr m s) = ftx p D H B V s"
proof -
  have "quiet p (pr m s) = quiet p s" by (rule quiet_cong) (simp_all add: pr_def)
  then show ?thesis by (simp add: ftx_def cache_def is_at_def) (simp add: pr_def)
qed

text \<open>The contents of the disk after block \<open>n\<close> has been allocated: its bit is set, its bytes are zero.\<close>

definition alloc_view :: "superblock \<Rightarrow> (u32 \<Rightarrow> u8 list) \<Rightarrow> nat \<Rightarrow> u32 \<Rightarrow> u8 list" where
  "alloc_view b V n = (V(BBLOCK (of_nat n) b := set_block_bit (n mod BPB) (V (BBLOCK (of_nat n) b))))(of_nat n := replicate BSIZE 0)"

text \<open>The blocks that the caller holds are in use and not part of the bitmap.\<close>

definition held_ok :: "superblock \<Rightarrow> (u32 \<Rightarrow> u8 list) \<Rightarrow> (nat \<rightharpoonup> u32) \<Rightarrow> bool" where
  "held_ok b V H \<longleftrightarrow> ran H \<inter> bitmap_blocks b = {} \<and> (\<forall>n<fs_size b. of_nat n \<in> ran H \<longrightarrow> used b V n)"

lemma balloc_at:
  assumes "ftx p D (H(i \<mapsto> BBLOCK (of_nat n) (sb s))) B V s" "i \<notin> dom H" "bitmap_ok (sb s) (log_area (lg_start s)) V"
    and "held_ok (sb s) V H" "card B + card (dom H) < LOGSIZE - 2" "n < fs_size (sb s)" "\<not> used (sb s) V n"
  shows "runs (bnd (log_write i (set_data i (set_block_bit (n mod BPB) (V (BBLOCK (of_nat n) (sb s)))) s)) (\<lambda>_ s.
      bnd (brelse i s) (\<lambda>_ s. bnd (bzero D (of_nat n) s) (\<lambda>_ s. Ok (of_nat n) s))))
    (\<lambda>r t. fkept s t \<and> r = of_nat n \<and>
      ftx p D H (insert (of_nat n) (insert (BBLOCK (of_nat n) (sb s)) B)) (alloc_view (sb s) V n) t)"
proof -
  let ?c = "BBLOCK (of_nat n) (sb s)"
  let ?d = "set_block_bit (n mod BPB) (V ?c)"
  note m = bitmap_okD [OF assms(3,6)]
  have n: "of_nat n \<notin> ran H" "of_nat n \<notin> log_area (lg_start s)" "of_nat n \<noteq> ?c" using assms(4,6,7) m(3,4) by (auto simp: held_ok_def)
  have l: "card B < LOGSIZE - 1" using assms(5) by simp
  have "runs (log_write i (set_data i ?d s)) (\<lambda>_ t. runs (brelse i t) (\<lambda>_ u. ftx p D H (insert ?c B) (V(?c := ?d)) u \<and> fkept s u))"
    using lb.store(2) [OF assms(1,2) m(1) l, of ?d] by simp
  moreover have "runs (bzero D (of_nat n) u) (\<lambda>_ t. fkept s t \<and> ftx p D H (insert (of_nat n) (insert ?c B)) (alloc_view (sb s) V n) t)"
    if u: "ftx p D H (insert ?c B) (V(?c := ?d)) u" "fkept s u" for u
  proof -
    have "card (insert ?c B) + card (dom H) < NBUF" "card (insert ?c B) < LOGSIZE - 1" "of_nat n \<notin> log_area (lg_start u)"
      using card_insert_Suc [of ?c B] assms(5) n(2) fkeptD(3) [OF u(2)] by simp_all
    from lb.change [OF u(1) n(1) this(1,3,2), of "\<lambda>_. replicate BSIZE 0"] show ?thesis
      unfolding bzero_update log_update_def by (rule runs_mono) (use fkept_trans [OF u(2)] in \<open>auto simp: alloc_view_def\<close>)
  qed
  ultimately show ?thesis by (auto elim!: runs_mono)
qed

lemma balloc_loop_spec:
  assumes "ftx p D H B V s" "bitmap_ok (sb s) (log_area (lg_start s)) V" "held_ok (sb s) V H" "card B + card (dom H) < LOGSIZE - 2"
    and "\<forall>b\<in>set bs. BPB dvd b \<and> b < fs_size (sb s)"
  shows "runs (balloc_loop D bs s) (\<lambda>r t. fkept s t \<and>
    (case find (\<lambda>n. \<not> used (sb s) V n) (bitmap_range (sb s) bs) of
      None \<Rightarrow> r = 0 \<and> ftx p D H B V t
    | Some n \<Rightarrow> r = of_nat n \<and> ftx p D H (insert (of_nat n) (insert (BBLOCK (of_nat n) (sb s)) B)) (alloc_view (sb s) V n) t))"
  using assms
proof (induction bs arbitrary: s)
  case (Cons b bs)
  let ?c = "BBLOCK (of_nat b) (sb s)" and ?r = "[0..<min BPB (fs_size (sb s) - b)]"
  have b: "BPB dvd b" "b < fs_size (sb s)" using Cons.prems(5) by simp_all
  have u: "used (sb s) V (b + i) = block_bit (V ?c) i" if "i \<in> set ?r" for i
  proof -
    have "i < BPB" "b + i < fs_size (sb s)" using that by auto
    from BBLOCK_base [OF b(1) this] show ?thesis by (simp add: used_def)
  qed
  have f: "find ((\<lambda>n. \<not> used (sb s) V n) \<circ> (+) b) ?r = find (\<lambda>i. \<not> block_bit (V ?c) i) ?r"
    by (rule find_cong) (simp_all add: u)
  have e: "find (\<lambda>n. \<not> used (sb s) V n) (bitmap_range (sb s) (b # bs)) = (case find (\<lambda>i. \<not> block_bit (V ?c) i) ?r of
      None \<Rightarrow> find (\<lambda>n. \<not> used (sb s) V n) (bitmap_range (sb s) bs) | Some i \<Rightarrow> Some (b + i))"
    by (simp add: bitmap_range_def find_append find_map f split: option.split)
  have h: "?c \<notin> ran H" "card B + card (dom H) < NBUF"
    using Cons.prems(3,4) bitmap_okD(3) [OF Cons.prems(2) b(2)] by (auto simp: held_ok_def)
  show ?case unfolding balloc_loop.simps
  proof (rule runs_bndI [OF lb.take [OF Cons.prems(1) h]], elim conjE)
    fix i t assume t: "i \<notin> dom H" "buf_data i t = V ?c" "ftx p D (H(i \<mapsto> ?c)) B V t" "fkept s t" "?c \<in> B \<or> V ?c = disk t ?c"
    note k = fkept_fs [OF t(4)] fkeptD [OF t(4)]
    show "runs (case find (\<lambda>bi. \<not> block_bit (buf_data i t) bi) [0..<min BPB (unat (sb_size (sb t)) - b)] of
        None \<Rightarrow> bnd (brelse i t) (\<lambda>_ s. balloc_loop D bs s)
      | Some bi \<Rightarrow> bnd (log_write i (set_data i (set_block_bit bi (buf_data i t)) t)) (\<lambda>_ s.
          bnd (brelse i s) (\<lambda>_ s. bnd (bzero D (of_nat (b + bi)) s) (\<lambda>_ s. Ok (of_nat (b + bi)) s))))
      (\<lambda>r t. fkept s t \<and> (case find (\<lambda>n. \<not> used (sb s) V n) (bitmap_range (sb s) (b # bs)) of
          None \<Rightarrow> r = 0 \<and> ftx p D H B V t
        | Some n \<Rightarrow> r = of_nat n \<and> ftx p D H (insert (of_nat n) (insert (BBLOCK (of_nat n) (sb s)) B)) (alloc_view (sb s) V n) t))"
    proof (cases "find (\<lambda>i. \<not> block_bit (V ?c) i) ?r")
      case None
      have "runs (brelse i t) (\<lambda>_ v. ftx p D H B V v \<and> fkept t v)" by (rule lb.give [OF t(3,1,5)])
      moreover have "runs (balloc_loop D bs v) (\<lambda>r t. fkept s t \<and>
          (case find (\<lambda>n. \<not> used (sb s) V n) (bitmap_range (sb s) bs) of
            None \<Rightarrow> r = 0 \<and> ftx p D H B V t
          | Some n \<Rightarrow> r = of_nat n \<and> ftx p D H (insert (of_nat n) (insert (BBLOCK (of_nat n) (sb s)) B)) (alloc_view (sb s) V n) t))"
        if v: "ftx p D H B V v" "fkept t v" for v
      proof -
        have kv: "fkept s v" by (rule fkept_trans [OF t(4) v(2)])
        note ev = fkept_fs(1) [OF kv] fkeptD(3) [OF kv]
        have "\<forall>b\<in>set bs. BPB dvd b \<and> b < fs_size (sb s)" using Cons.prems(5) by simp
        from Cons.IH [OF v(1), unfolded ev, OF Cons.prems(2-4) this] show ?thesis
          by (rule runs_mono) (use fkept_trans [OF kv] in blast)
      qed
      ultimately show ?thesis unfolding e using None
        by (simp add: t(2) k(1) fs_size_def [symmetric]) (erule runs_mono, simp)
    next
      case (Some j)
      then have j: "j \<in> set ?r" "\<not> block_bit (V ?c) j" by (auto simp: find_Some_iff)
      then have n: "b + j < fs_size (sb s)" "\<not> used (sb s) V (b + j)" using u by auto
      have c: "BBLOCK (of_nat (b + j)) (sb s) = ?c" "(b + j) mod BPB = j" using BBLOCK_base [OF b(1) _ n(1)] j(1) by simp_all
      from balloc_at [of p D H i "b + j" t B V] t(1,3) Cons.prems(2-4) n k c
      show ?thesis unfolding e using Some
        by (simp add: t(2) fs_size_def [symmetric]) (auto elim!: runs_mono intro: fkept_trans [OF t(4)])
    qed
  qed
qed (simp add: bitmap_range_def)

lemma balloc_spec:
  assumes "ftx p D H B V s" "bitmap_ok (sb s) (log_area (lg_start s)) V" "held_ok (sb s) V H" "card B + card (dom H) < LOGSIZE - 2"
  shows "runs (balloc D s) (\<lambda>r t. fkept s t \<and>
    (case find (\<lambda>n. \<not> used (sb s) V n) [0..<fs_size (sb s)] of
      None \<Rightarrow> r = 0 \<and> ftx p D H B V t
    | Some n \<Rightarrow> r = of_nat n \<and> ftx p D H (insert (of_nat n) (insert (BBLOCK (of_nat n) (sb s)) B)) (alloc_view (sb s) V n) t))"
proof -
  let ?m = "(fs_size (sb s) + BPB - 1) div BPB"
  have "k * BPB < fs_size (sb s)" if "k < ?m" for k
  proof -
    have "Suc k * BPB \<le> ?m * BPB" using that by (intro mult_le_mono1) simp
    also have "\<dots> \<le> fs_size (sb s) + BPB - 1" by (rule div_times_less_eq_dividend)
    finally show ?thesis by (simp add: BPB_def)
  qed
  then have "\<forall>b\<in>set (map (\<lambda>k. k * BPB) [0..<?m]). BPB dvd b \<and> b < fs_size (sb s)" by auto
  from balloc_loop_spec [OF assms this] show ?thesis unfolding balloc_def fs_size_def [symmetric] bitmap_range_all .
qed

lemma alloc_view_ok:
  assumes "bitmap_ok b A V" "n < fs_size b" "\<not> used b V n"
  shows "m < fs_size b \<Longrightarrow> used b (alloc_view b V n) m \<longleftrightarrow> m = n \<or> used b V m" "bitmap_ok b A (alloc_view b V n)"
    "alloc_view b V n (of_nat n) = replicate BSIZE 0" "c \<noteq> of_nat n \<Longrightarrow> c \<notin> bitmap_blocks b \<Longrightarrow> alloc_view b V n c = V c"
    "of_nat n \<notin> bitmap_blocks b" "of_nat n \<notin> A" "of_nat n \<noteq> (0 :: u32)"
proof -
  note n = bitmap_okD [OF assms(1,2)]
  have nb: "of_nat n \<notin> insert 0 (A \<union> bitmap_blocks b)" using n(4) assms(3) by blast
  then show "of_nat n \<notin> bitmap_blocks b" "of_nat n \<notin> A" "of_nat n \<noteq> (0 :: u32)" by auto
  have u: "used b (alloc_view b V n) m \<longleftrightarrow> m = n \<or> used b V m" if "m < fs_size b" for m
    unfolding alloc_view_def using used_other [OF _ that] used_upd(1) [OF assms(1,2) that] nb by simp
  then show "m < fs_size b \<Longrightarrow> used b (alloc_view b V n) m \<longleftrightarrow> m = n \<or> used b V m" by blast
  have "length (alloc_view b V n c) = BSIZE" if "c \<in> bitmap_blocks b" for c
    using assms(1) that nb by (auto simp: alloc_view_def bitmap_ok_def)
  then show "bitmap_ok b A (alloc_view b V n)" using assms(1) u by (auto simp: bitmap_ok_def)
  show "alloc_view b V n (of_nat n) = replicate BSIZE 0" "c \<noteq> of_nat n \<Longrightarrow> c \<notin> bitmap_blocks b \<Longrightarrow> alloc_view b V n c = V c"
    using n(3) by (auto simp: alloc_view_def)
qed

text \<open>
  C8. \<open>balloc\<close> hands out the first block that is not in use, filled with zeros, and marks it; all
  other bits of the bitmap and all other blocks keep their contents, and the bitmap stays
  well-formed. It returns 0 exactly if every block is in use, and then changes nothing. The blocks it
  changes are recorded in the log.
\<close>

theorem balloc_first_free:
  assumes "ftx p D H B V s" "bitmap_ok (sb s) (log_area (lg_start s)) V" "held_ok (sb s) V H" "card B + card (dom H) < LOGSIZE - 2"
  shows "runs (balloc D s) (\<lambda>r t. fkept s t \<and>
    (if \<forall>n<fs_size (sb s). used (sb s) V n then r = 0 \<and> ftx p D H B V t
     else \<exists>n W. n < fs_size (sb s) \<and> \<not> used (sb s) V n \<and> (\<forall>m<n. used (sb s) V m) \<and> r = of_nat n \<and> r \<noteq> 0 \<and>
       ftx p D H (insert r (insert (BBLOCK r (sb s)) B)) W t \<and> bitmap_ok (sb s) (log_area (lg_start s)) W \<and>
       W r = replicate BSIZE 0 \<and> (\<forall>m<fs_size (sb s). used (sb s) W m \<longleftrightarrow> m = n \<or> used (sb s) V m) \<and>
       (\<forall>c. c \<noteq> r \<and> c \<notin> bitmap_blocks (sb s) \<longrightarrow> W c = V c)))"
proof (rule runs_mono [OF balloc_spec [OF assms]], elim conjE, intro conjI)
  fix r :: u32 and t
  assume c: "case find (\<lambda>n. \<not> used (sb s) V n) [0..<fs_size (sb s)] of
      None \<Rightarrow> r = 0 \<and> ftx p D H B V t
    | Some n \<Rightarrow> r = of_nat n \<and> ftx p D H (insert (of_nat n) (insert (BBLOCK (of_nat n) (sb s)) B)) (alloc_view (sb s) V n) t"
  show "if \<forall>n<fs_size (sb s). used (sb s) V n then r = 0 \<and> ftx p D H B V t
     else \<exists>n W. n < fs_size (sb s) \<and> \<not> used (sb s) V n \<and> (\<forall>m<n. used (sb s) V m) \<and> r = of_nat n \<and> r \<noteq> 0 \<and>
       ftx p D H (insert r (insert (BBLOCK r (sb s)) B)) W t \<and> bitmap_ok (sb s) (log_area (lg_start s)) W \<and>
       W r = replicate BSIZE 0 \<and> (\<forall>m<fs_size (sb s). used (sb s) W m \<longleftrightarrow> m = n \<or> used (sb s) V m) \<and>
       (\<forall>c. c \<noteq> r \<and> c \<notin> bitmap_blocks (sb s) \<longrightarrow> W c = V c)"
  proof (cases "find (\<lambda>n. \<not> used (sb s) V n) [0..<fs_size (sb s)]")
    case None
    then have "\<forall>n<fs_size (sb s). used (sb s) V n" by (simp add: find_None_iff)
    then show ?thesis using c None by simp
  next
    case (Some n)
    then have n: "n < fs_size (sb s)" "\<not> used (sb s) V n" "\<forall>m<n. used (sb s) V m" by (auto simp: find_Some_iff)
    then have "\<not> (\<forall>n<fs_size (sb s). used (sb s) V n)" by blast
    note nu = this
    show ?thesis unfolding if_not_P [OF nu]
      by (intro exI [of _ n] exI [of _ "alloc_view (sb s) V n"])
        (use c Some n alloc_view_ok [OF assms(2) n(1,2)] in \<open>simp, blast?\<close>)
  qed
qed

section \<open>Freeing\<close>

text \<open>
  C9. \<open>bfree\<close> clears the bit of its block and changes nothing else; freeing a block that is not in use
  is a panic.
\<close>

theorem bfree_clears:
  assumes "ftx p D H B V s" "bitmap_ok (sb s) (log_area (lg_start s)) V" "ran H \<inter> bitmap_blocks (sb s) = {}"
    and "card B + card (dom H) < LOGSIZE - 1" "n < fs_size (sb s)"
  shows "if used (sb s) V n
    then runs (bfree D (of_nat n) s) (\<lambda>_ t. fkept s t \<and> (\<exists>W. ftx p D H (insert (BBLOCK (of_nat n) (sb s)) B) W t \<and>
      (\<forall>m<fs_size (sb s). used (sb s) W m \<longleftrightarrow> m \<noteq> n \<and> used (sb s) V m) \<and>
      (\<forall>c. c \<notin> bitmap_blocks (sb s) \<longrightarrow> W c = V c)))
    else bfree D (of_nat n) s = Panic ''freeing free block''"
proof -
  let ?c = "BBLOCK (of_nat n) (sb s)" and ?f = "clear_block_bit (n mod BPB)"
  note m = bitmap_okD [OF assms(2,5)]
  have h: "?c \<notin> ran H" "card B + card (dom H) < NBUF" using assms(3,4) m(3) by auto
  obtain i t where t: "bread D ?c s = Ok i t" "i \<notin> dom H" "buf_data i t = V ?c" "ftx p D (H(i \<mapsto> ?c)) B V t" "fkept s t"
    using lb.take [OF assms(1) h] by (auto simp: runs_iff)
  have n: "unat (of_nat n :: u32) mod BPB = n mod BPB" using fs_size_less(2) [OF assms(5)] by simp
  have a: "?c \<notin> log_area (lg_start t)" "card B < LOGSIZE - 1" using m(1) fkeptD(3) [OF t(5)] assms(4) by simp_all
  have w: "runs (log_write i (set_data i (?f (V ?c)) t)) (\<lambda>_ u. runs (brelse i u) (\<lambda>_ u.
      ftx p D H (insert ?c B) (V(?c := ?f (V ?c))) u \<and> fkept s u))"
    using lb.store(2) [OF t(4,2) a, of "?f (V ?c)"] fkept_trans [OF t(5)] by (auto elim!: runs_mono)
  have "\<forall>m<fs_size (sb s). used (sb s) (V(?c := ?f (V ?c))) m \<longleftrightarrow> m \<noteq> n \<and> used (sb s) V m"
    "\<forall>c. c \<notin> bitmap_blocks (sb s) \<longrightarrow> (V(?c := ?f (V ?c))) c = V c"
    using used_upd(2) [OF assms(2,5)] m(3) by auto
  then have q: "runs (log_write i (set_data i (?f (V ?c)) t)) (\<lambda>_ u. runs (brelse i u) (\<lambda>_ u. fkept s u \<and>
      (\<exists>W. ftx p D H (insert ?c B) W u \<and> (\<forall>m<fs_size (sb s). used (sb s) W m \<longleftrightarrow> m \<noteq> n \<and> used (sb s) V m) \<and>
      (\<forall>c. c \<notin> bitmap_blocks (sb s) \<longrightarrow> W c = V c))))"
    by - (rule runs_mono [OF w], erule runs_mono, blast)
  then show ?thesis using t(1,3) n by (simp add: bfree_def Let_def used_def)
qed

section \<open>Witnesses\<close>

text \<open>A disk with the log in blocks 2 to 32, inodes from 33 on and the bitmap in 45; blocks up to 47 are in use.\<close>

definition small_sb :: superblock where
  "small_sb = \<lparr>sb_magic = FSMAGIC, sb_size = 200, sb_nblocks = 154, sb_ninodes = 200, sb_nlog = 30, sb_logstart = 2,
     sb_inodestart = 33, sb_bmapstart = 45\<rparr>"

definition small_disk :: disk where
  "small_disk = (\<lambda>b. if b = 45 then replicate 6 255 @ replicate 1018 0
     else if b = 46 then [104, 101, 108, 108, 111] @ replicate 1019 0 else replicate BSIZE 0)"

definition no_inode :: inode where
  "no_inode = \<lparr>i_dev = 0, i_inum = 0, i_ref = 0, i_valid = False, i_type = 0, i_major = 0, i_minor = 0, i_nlink = 0, i_size = 0,
     i_addrs = replicate 13 0\<rparr>"

definition fs_machine :: fs_st where
  "fs_machine = binit (log_st.extend (log_machine\<lparr>disk := small_disk, lg_outstanding := 1\<rparr>) \<lparr>sb = small_sb, inodes = (\<lambda>_. no_inode)\<rparr>)"

lemma binit_sb: "sb (binit s) = sb s" "inodes (binit s) = inodes s" for s :: "'a fs_st_scheme"
proof -
  have "sb (fold binit_push xs t) = sb t" "inodes (fold binit_push xs t) = inodes t" for xs and t :: "'a fs_st_scheme"
    by (induction xs arbitrary: t)
      (auto simp: binit_push_def init_sleeplock_def initlock_def set_lock_def Let_def set_sleeplock_def)
  then show "sb (binit s) = sb s" "inodes (binit s) = inodes s"
    by (simp_all add: binit_def Let_def initlock_def set_lock_def del: upt_rec_numeral)
qed

lemma fs_machine_simps [simp]: "sb fs_machine = small_sb" "inodes fs_machine = (\<lambda>_. no_inode)" "lg_start fs_machine = 2"
  by (simp_all add: fs_machine_def binit_sb binit_log) (simp_all add: log_st.defs log_machine_def bio_st.defs)

lemma fs_machine_ftx: "ftx 0 1 Map.empty {} small_disk fs_machine"
proof -
  let ?s = "log_st.extend (log_machine\<lparr>disk := small_disk, lg_outstanding := 1\<rparr>) \<lparr>sb = small_sb, inodes = (\<lambda>_. no_inode)\<rparr> :: fs_st"
  have "quiet 0 ?s"
    by (simp add: quiet_def settled_def cpu_ok_def machine_defs lock_free_def log_machine_def bio_machine_def small_machine_def
        mem_st.defs bio_st.defs log_st.defs)
  moreover have d: "disk ?s = small_disk" "bufs ?s = (\<lambda>_. blank_buf)"
    by (simp_all add: log_machine_def bio_machine_def mem_st.defs bio_st.defs log_st.defs)
  ultimately have c: "cache 0 1 Map.empty small_disk (\<lambda>_. 0) fs_machine"
    unfolding fs_machine_def using binit_cache [of 0 ?s 1] by (simp add: blank_buf_def)
  have "lh_n fs_machine = 0" "lg_outstanding fs_machine = 1" "lg_size fs_machine = 30"
    by (simp_all add: fs_machine_def binit_log) (simp_all add: log_st.defs log_machine_def bio_st.defs)
  moreover have "pinned 0 bs = (\<lambda>_. 0)" for bs by (simp add: pinned_def fun_eq_iff)
  ultimately show ?thesis using c by (intro ftxI [of _ _ _ _ 0]) (simp_all add: log_layout_def)
qed

lemma small_fs [simp]: "fs_size small_sb = 200" "bitmap_blocks small_sb = {45}"
proof -
  show "fs_size small_sb = 200" by (simp add: fs_size_def small_sb_def)
  have "BBLOCK (of_nat n) small_sb = 45" if "n < 200" for n
  proof -
    have "(of_nat n :: u32) < 8192" using that by (simp add: word_less_nat_alt unat_of_nat)
    then have "(of_nat n :: u32) div 8192 = 0" by (simp add: word_less_nat_alt word_arith_nat_div)
    then show ?thesis by (simp add: BBLOCK_def BPB_def small_sb_def)
  qed
  then have "(\<lambda>n. BBLOCK (of_nat n) small_sb) ` {..<200} = (\<lambda>n. 45) ` {..<200 :: nat}" by (intro image_cong) auto
  then show "bitmap_blocks small_sb = {45}" using \<open>fs_size small_sb = 200\<close> by (simp add: bitmap_blocks_def image_constant_conv lessThan_empty_iff)
qed

lemma small_disk_used: "n < 200 \<Longrightarrow> used small_sb small_disk n \<longleftrightarrow> n < 48"
proof -
  assume n: "n < 200"
  have "BBLOCK (of_nat n) small_sb = 45" using small_fs n by (auto simp: bitmap_blocks_def)
  then have "used small_sb small_disk n = block_bit (small_disk 45) n" using n by (simp add: used_def BPB_def)
  moreover have "bit (mask 8 :: u8) j \<longleftrightarrow> j < 8" for j by (auto simp: bit_mask_iff)
  then have "bit (255 :: u8) j \<longleftrightarrow> j < 8" for j by (simp add: mask_eq_exp_minus_1)
  then have "bit (small_disk 45 ! k) j \<longleftrightarrow> k < 6" if "j < 8" "k < 100" for j k
    using that by (auto simp: small_disk_def nth_append)
  then have "block_bit (small_disk 45) n = (n < 48)" unfolding block_bit_iff using n by simp presburger
  ultimately show "used small_sb small_disk n \<longleftrightarrow> n < 48" by simp
qed

lemma small_disk_ok: "bitmap_ok small_sb (log_area 2) small_disk"
proof -
  have "(45 :: u32) \<notin> log_area 2" by (rule outside_log) simp
  moreover have "n < 48" if "n < 200" "of_nat n \<in> insert 0 (log_area 2 \<union> {45 :: u32})" for n
  proof (rule ccontr)
    assume "\<not> n < 48"
    then have "45 < uint (of_nat n :: u32)" using that(1) by (simp add: unsigned_of_nat take_bit_nat_eq_self)
    then show False using that(2) outside_log [of "of_nat n"] by auto
  qed
  ultimately show ?thesis by (auto simp: bitmap_ok_def small_disk_used) (simp add: small_disk_def)
qed

theorem balloc_first_free_witness: "runs (balloc 1 fs_machine) (\<lambda>r t. r = 48)"
proof -
  have "held_ok small_sb small_disk Map.empty" by (simp add: held_ok_def)
  note f = balloc_first_free [OF fs_machine_ftx, unfolded fs_machine_simps, OF small_disk_ok this]
  have one: "n = 48" if "n < 200" "\<not> used small_sb small_disk n" "\<forall>m<n. used small_sb small_disk m" for n
    using that small_disk_used [of n] small_disk_used [of 48] by (cases "48 < n") auto
  have nu: "\<not> (\<forall>n<fs_size small_sb. used small_sb small_disk n)" using small_disk_used [of 48] by (auto intro!: exI [of _ 48])
  show ?thesis
  proof (rule runs_mono [OF f [unfolded if_not_P [OF nu]]], simp, elim conjE exE)
    fix r :: u32 and n
    assume "n < fs_size small_sb" "\<not> used small_sb small_disk n" "\<forall>m<n. used small_sb small_disk m" "r = of_nat n"
    then show "r = 48" using one [of n] by simp
  qed
qed

theorem bfree_clears_witness:
  "runs (bfree 1 44 fs_machine) (\<lambda>_ _. True) \<and> bfree 1 48 fs_machine = Panic ''freeing free block''"
proof -
  note f = bfree_clears [OF fs_machine_ftx, unfolded fs_machine_simps, OF small_disk_ok]
  show ?thesis using f [of 44] f [of 48] small_disk_used [of 44] small_disk_used [of 48] by (auto elim!: runs_mono)
qed

end
