(* ===== verification/Inode.thy ===== *)
theory Inode
  imports Block_Alloc
begin

text \<open>
  Inodes on disk and the blocks of files, \<open>kernel/fs.c\<close>: the encoding of \<open>struct dinode\<close>, \<open>iupdate\<close>
  and \<open>ilock\<close>, the block map with its indirect block, and the contents of a file as \<open>readi\<close> and
  \<open>writei\<close> see them.
\<close>

section \<open>Structures in a block\<close>

lemma length_put_bytes [simp]: "i + length ys \<le> length xs \<Longrightarrow> length (put_bytes i ys xs) = length xs"
  by (simp add: put_bytes_def)

lemma take_drop_put_bytes:
  "i + length ys \<le> length xs \<Longrightarrow> j + n \<le> length ys \<Longrightarrow> take n (drop (i + j) (put_bytes i ys xs)) = take n (drop j ys)"
  by (simp add: put_bytes_def)

lemma take_drop_put_bytes_other:
  assumes "i + length ys \<le> length xs" "j + n \<le> i \<or> i + length ys \<le> j"
  shows "take n (drop j (put_bytes i ys xs)) = take n (drop j xs)"
proof (rule nth_equalityI)
  show "length (take n (drop j (put_bytes i ys xs))) = length (take n (drop j xs))" using assms(1) by simp
  fix k assume k: "k < length (take n (drop j (put_bytes i ys xs)))"
  then have "j + k < length xs" "k < n" using assms(1) by auto
  then show "take n (drop j (put_bytes i ys xs)) ! k = take n (drop j xs) ! k"
    using assms by (auto simp: put_bytes_def nth_append)
qed

lemma nth_put_bytes:
  "i + length ys \<le> length xs \<Longrightarrow> j < length xs \<Longrightarrow>
    put_bytes i ys xs ! j = (if i \<le> j \<and> j < i + length ys then ys ! (j - i) else xs ! j)"
  by (auto simp: put_bytes_def nth_append)

lemma put_bytes_append:
  "i + length ys + length zs \<le> length xs \<Longrightarrow> put_bytes (i + length ys) zs (put_bytes i ys xs) = put_bytes i (ys @ zs) xs"
  by (simp add: put_bytes_def ac_simps)

lemma put16_bytes: "put16 i v xs = put_bytes i (bytes_of_word 2 v) xs"
  and put32_bytes: "put32 i w xs = put_bytes i (bytes_of_word 4 w) xs"
  by (simp_all add: put16_def put32_def put_bytes_def)

text \<open>The 64 bytes of an inode.\<close>

definition dinode_bytes :: "inode \<Rightarrow> u8 list" where
  "dinode_bytes x = bytes_of_word 2 (i_type x) @ bytes_of_word 2 (i_major x) @ bytes_of_word 2 (i_minor x) @
     bytes_of_word 2 (i_nlink x) @ bytes_of_word 4 (i_size x) @ concat (map (bytes_of_word 4) (i_addrs x))"

lemma length_concat_words: "length (concat (map (bytes_of_word 4) ws)) = 4 * length ws"
  by (induction ws) simp_all

lemma take_drop_concat_words:
  "k < length ws \<Longrightarrow> take 4 (drop (4 * k) (concat (map (bytes_of_word 4) ws))) = bytes_of_word 4 (ws ! k)"
proof (induction ws arbitrary: k)
  case (Cons w ws)
  then show ?case by (cases k) simp_all
qed simp

lemma length_dinode_bytes: "length (i_addrs x) = 13 \<Longrightarrow> length (dinode_bytes x) = 64"
  by (simp add: dinode_bytes_def length_concat_words)

lemma write_dinode_bytes:
  assumes "length (i_addrs x) = 13" "pos + 64 \<le> length d"
  shows "write_dinode x pos d = put_bytes pos (dinode_bytes x) d"
proof -
  let ?a = "bytes_of_word 2 (i_type x)" and ?b = "bytes_of_word 2 (i_major x)" and ?c = "bytes_of_word 2 (i_minor x)"
    and ?e = "bytes_of_word 2 (i_nlink x)" and ?f = "bytes_of_word 4 (i_size x)" and ?g = "concat (map (bytes_of_word 4) (i_addrs x))"
  have "put_bytes (pos + 2) ?b (put_bytes pos ?a d) = put_bytes pos (?a @ ?b) d" using put_bytes_append [of pos ?a ?b d] assms by simp
  moreover have "put_bytes (pos + 4) ?c (put_bytes pos (?a @ ?b) d) = put_bytes pos (?a @ ?b @ ?c) d"
    using put_bytes_append [of pos "?a @ ?b" ?c d] assms by simp
  moreover have "put_bytes (pos + 6) ?e (put_bytes pos (?a @ ?b @ ?c) d) = put_bytes pos (?a @ ?b @ ?c @ ?e) d"
    using put_bytes_append [of pos "?a @ ?b @ ?c" ?e d] assms by simp
  moreover have "put_bytes (pos + 8) ?f (put_bytes pos (?a @ ?b @ ?c @ ?e) d) = put_bytes pos (?a @ ?b @ ?c @ ?e @ ?f) d"
    using put_bytes_append [of pos "?a @ ?b @ ?c @ ?e" ?f d] assms by simp
  moreover have "put_bytes (pos + 12) ?g (put_bytes pos (?a @ ?b @ ?c @ ?e @ ?f) d) = put_bytes pos (?a @ ?b @ ?c @ ?e @ ?f @ ?g) d"
    using put_bytes_append [of pos "?a @ ?b @ ?c @ ?e @ ?f" ?g d] assms by (simp add: length_concat_words)
  ultimately show ?thesis by (simp add: write_dinode_def Let_def put16_bytes put32_bytes dinode_bytes_def)
qed

lemma read_write_dinode:
  assumes "length (i_addrs x) = 13" "pos + 64 \<le> length d"
  shows "read_dinode (write_dinode x pos d) pos y = y\<lparr>i_type := i_type x, i_major := i_major x, i_minor := i_minor x,
    i_nlink := i_nlink x, i_size := i_size x, i_addrs := i_addrs x\<rparr>"
proof -
  let ?d = "put_bytes pos (dinode_bytes x) d"
  have t: "take n (drop (pos + j) ?d) = take n (drop j (dinode_bytes x))" if "j + n \<le> 64" for n j
    using that assms length_dinode_bytes [OF assms(1)] by (intro take_drop_put_bytes) simp_all
  have g: "get16 (pos + j) ?d = word_of_bytes (take 2 (drop j (dinode_bytes x)))" if "j + 2 \<le> 64" for j
    unfolding get16_def t [OF that] ..
  have w: "get32 (pos + j) ?d = word_of_bytes (take 4 (drop j (dinode_bytes x)))" if "j + 4 \<le> 64" for j
    unfolding get32_def t [OF that] ..
  have "get32 (pos + 12 + 4 * k) ?d = i_addrs x ! k" if "k < 13" for k
  proof -
    have "drop (12 + 4 * k) (dinode_bytes x) = drop (4 * k) (concat (map (bytes_of_word 4) (i_addrs x)))"
      by (simp add: dinode_bytes_def)
    then show ?thesis using w [of "12 + 4 * k"] that take_drop_concat_words [of k "i_addrs x"] assms(1)
      by (simp add: word_of_bytes_of_word add.assoc)
  qed
  then have "map (\<lambda>k. get32 (pos + 12 + 4 * k) ?d) [0..<NDIRECT + 1] = i_addrs x"
    using assms(1) by (intro nth_equalityI) (simp_all add: NDIRECT_def del: upt_Suc)
  then show ?thesis unfolding write_dinode_bytes [OF assms] read_dinode_def
    using g [of 0] g [of 2] g [of 4] g [of 6] w [of 8] by (simp add: dinode_bytes_def word_of_bytes_of_word)
qed

lemma read_dinode_other:
  assumes "length (i_addrs x) = 13" "pos + 64 \<le> length d" "pos' + 64 \<le> pos \<or> pos + 64 \<le> pos'"
  shows "read_dinode (write_dinode x pos d) pos' y = read_dinode d pos' y"
proof -
  let ?d = "put_bytes pos (dinode_bytes x) d"
  have t: "take n (drop (pos' + j) ?d) = take n (drop (pos' + j) d)" if "j + n \<le> 64" for n j
    using that assms length_dinode_bytes [OF assms(1)] by (intro take_drop_put_bytes_other) auto
  have g: "get16 (pos' + j) ?d = get16 (pos' + j) d" if "j + 2 \<le> 64" for j unfolding get16_def t [OF that] ..
  have w: "get32 (pos' + j) ?d = get32 (pos' + j) d" if "j + 4 \<le> 64" for j unfolding get32_def t [OF that] ..
  have "map (\<lambda>k. get32 (pos' + 12 + 4 * k) ?d) [0..<NDIRECT + 1] = map (\<lambda>k. get32 (pos' + 12 + 4 * k) d) [0..<NDIRECT + 1]"
    using w [of "12 + 4 * k" for k] by (intro map_cong) (auto simp: NDIRECT_def add.assoc)
  then show ?thesis unfolding write_dinode_bytes [OF assms(1,2)] read_dinode_def
    using g [of 0] g [of 2] g [of 4] g [of 6] w [of 8] by simp
qed

section \<open>The inode table\<close>

lemma set_inode_simps [simp]:
  "inodes (set_inode ip f s) = (inodes s)(ip := f (inodes s ip))" "sb (set_inode ip f s) = sb s"
  "lg_start (set_inode ip f s) = lg_start s" "sleeplocks (set_inode ip f s) = sleeplocks s" "procs (set_inode ip f s) = procs s"
  by (simp_all add: set_inode_def)

lemma ftx_inodes [simp]: "ftx p D H B V (s\<lparr>inodes := I\<rparr>) = ftx p D H B V s"
proof -
  have "quiet p (s\<lparr>inodes := I\<rparr>) = quiet p s" by (rule quiet_cong) simp_all
  then show ?thesis by (simp add: ftx_def cache_def is_at_def)
qed

lemma ftx_set_inode [simp]: "ftx p D H B V (set_inode ip f s) = ftx p D H B V s"
  by (simp add: set_inode_def)

text \<open>States that agree on all that the calls of the file system leave alone, the inode table aside.\<close>

definition ikept :: "'a fs_st_scheme \<Rightarrow> 'a fs_st_scheme \<Rightarrow> bool" where
  "ikept s t \<longleftrightarrow> fkept (s\<lparr>inodes := inodes t\<rparr>) t"

lemma fkept_inodes:
  assumes "fkept s t"
  shows "fkept (s\<lparr>inodes := I\<rparr>) (t\<lparr>inodes := I\<rparr>)"
proof -
  let ?u = "s\<lparr>klog := klog t, lh_n := lh_n t, lh_block := lh_block t\<rparr>"
  let ?v = "t\<lparr>procs := procs ?u, sleeplocks := sleeplocks ?u, bufs := bufs ?u, blinks := blinks ?u, disk := disk ?u, dwrites := dwrites ?u\<rparr>"
  have k: "kept ?u t" using assms by (simp add: fkept_def)
  then have e: "?v = ?u" unfolding kept_def by blast
  have m: "t\<lparr>inodes := I, procs := a, sleeplocks := b, bufs := c, blinks := d, disk := f, dwrites := g\<rparr> =
      t\<lparr>procs := a, sleeplocks := b, bufs := c, blinks := d, disk := f, dwrites := g, inodes := I\<rparr>" for a b c d f g
    by (rule fs_st.equality) simp_all
  have "?v\<lparr>inodes := I\<rparr> = ?u\<lparr>inodes := I\<rparr>" unfolding e ..
  then have "kept (?u\<lparr>inodes := I\<rparr>) (t\<lparr>inodes := I\<rparr>)" using k unfolding kept_def by (simp add: m)
  moreover have cm: "s\<lparr>inodes := I, klog := klog t, lh_n := lh_n t, lh_block := lh_block t\<rparr> = ?u\<lparr>inodes := I\<rparr>"
    by (rule fs_st.equality) simp_all
  ultimately show ?thesis using assms by (simp add: fkept_def cm)
qed

lemma fkept_ikept: "fkept s t \<Longrightarrow> ikept s t"
  by (simp add: ikept_def fkept_fs(2))

lemma ikept_trans:
  assumes "ikept s t" "ikept t u"
  shows "ikept s u"
proof -
  have "fkept (s\<lparr>inodes := inodes t\<rparr>\<lparr>inodes := inodes u\<rparr>) (t\<lparr>inodes := inodes u\<rparr>)"
    using assms(1) unfolding ikept_def by (rule fkept_inodes)
  then show ?thesis using assms(2) fkept_trans unfolding ikept_def by fastforce
qed

lemma ikept_set_inode [simp]: "ikept s (set_inode ip f s)"
  by (simp add: ikept_def set_inode_def)

lemma ikeptD:
  assumes "ikept s t"
  shows "disk t = disk s" "dwrites t = dwrites s" "lg_start t = lg_start s" "sb t = sb s" "mem t = mem s"
    "sleeplocks t (InodeSleep i) = sleeplocks s (InodeSleep i)" "\<exists>st. procs t q = (procs s q)\<lparr>p_state := st\<rparr>"
  using fkeptD [of "s\<lparr>inodes := inodes t\<rparr>" t] fkept_fs [of "s\<lparr>inodes := inodes t\<rparr>" t] assms by (simp_all add: ikept_def)

lemma dinode_off_bound: "dinode_off n + 64 \<le> 1024"
proof -
  have "unat (n mod IPB) < 16" using word_mod_less_divisor [of 16 n] by (simp add: IPB_def word_less_nat_alt)
  then show ?thesis by (simp add: dinode_off_def)
qed

lemma iupdate_spec:
  assumes "ftx p (i_dev (inodes s ip)) Map.empty B V s" "card B < LOGSIZE - 1"
    and "IBLOCK (i_inum (inodes s ip)) (sb s) \<notin> log_area (lg_start s)"
  shows "runs (iupdate ip s) (\<lambda>_ t. fkept s t \<and>
    ftx p (i_dev (inodes s ip)) Map.empty (insert (IBLOCK (i_inum (inodes s ip)) (sb s)) B)
      (V(IBLOCK (i_inum (inodes s ip)) (sb s) := write_dinode (inodes s ip) (dinode_off (i_inum (inodes s ip)))
        (V (IBLOCK (i_inum (inodes s ip)) (sb s))))) t)"
proof -
  let ?x = "inodes s ip"
  let ?b = "IBLOCK (i_inum ?x) (sb s)"
  have c: "card B + card (dom (Map.empty :: nat \<rightharpoonup> u32)) < NBUF" "?b \<notin> ran Map.empty" using assms(2) by simp_all
  have "runs (bnd (log_write i (set_data i (write_dinode (inodes t ip) (dinode_off (i_inum (inodes t ip))) (buf_data i t)) t)) (\<lambda>_ u. brelse i u))
      (\<lambda>_ u. fkept s u \<and> ftx p (i_dev ?x) Map.empty (insert ?b B) (V(?b := write_dinode ?x (dinode_off (i_inum ?x)) (V ?b))) u)"
    if t: "i \<notin> dom (Map.empty :: nat \<rightharpoonup> u32)" "buf_data i t = V ?b" "ftx p (i_dev ?x) (Map.empty(i \<mapsto> ?b)) B V t" "fkept s t" for i t
  proof -
    have i: "inodes t = inodes s" "?b \<notin> log_area (lg_start t)" using fkept_fs(2) [OF t(4)] fkeptD(3) [OF t(4)] assms(3) by simp_all
    show ?thesis unfolding i(1) t(2)
      by (rule runs_mono [OF lb.store(2) [where H = Map.empty, OF t(3,1) i(2) assms(2)]]) (use fkept_trans [OF t(4)] in blast)
  qed
  then show ?thesis unfolding iupdate_def Let_def
    by (intro runs_bndI [OF lb.take [OF assms(1) c(2,1)]]) blast
qed

text \<open>\<open>ilock\<close> of an entry that is not in memory reads the inode from its block.\<close>

lemma ilock_reads:
  assumes "ftx p (i_dev (inodes s ip)) Map.empty B V s" "card B < NBUF" "1 \<le> i_ref (inodes s ip)" "\<not> i_valid (inodes s ip)"
    and "\<not> sl_locked (sleeplocks s (InodeSleep ip))"
    and x: "x = (read_dinode (V (IBLOCK (i_inum (inodes s ip)) (sb s))) (dinode_off (i_inum (inodes s ip))) (inodes s ip))\<lparr>i_valid := True\<rparr>"
    and "i_type x \<noteq> 0"
  shows "runs (ilock (Some ip) s) (\<lambda>_ t. inodes t = (inodes s)(ip := x) \<and> ftx p (i_dev (inodes s ip)) Map.empty B V t \<and>
    sl_locked (sleeplocks t (InodeSleep ip)) \<and> sl_pid (sleeplocks t (InodeSleep ip)) = p_pid (procs t p))"
proof -
  let ?y = "inodes s ip"
  let ?b = "IBLOCK (i_inum ?y) (sb s)"
  let ?l = "(sleeplocks s (InodeSleep ip))\<lparr>sl_locked := True, sl_pid := p_pid (procs s p)\<rparr>"
  let ?s = "set_sleeplock (InodeSleep ip) ?l s"
  have q: "settled s" "lock_free L s" "c_proc (cpus s (tp s)) = Some p" for L using quietD ftx_quiet [OF assms(1)] by blast+
  have a: "acquire_sleep (InodeSleep ip) s = Ok () ?s" using q assms(5) by (intro acquire_sleep_free) simp_all
  have e: "inodes ?s = inodes s" "sb ?s = sb s" "sleeplocks ?s (InodeSleep ip) = ?l" by (simp_all add: set_sleeplock_def)
  have "quiet p ?s = quiet p s" by (rule quiet_cong) simp_all
  then have f: "ftx p (i_dev ?y) Map.empty B V ?s" using assms(1) by (simp add: ftx_def cache_def is_at_def set_sleeplock_def)
  have c: "?b \<notin> ran Map.empty" "card B + card (dom (Map.empty :: nat \<rightharpoonup> u32)) < NBUF" using assms(2) by simp_all
  obtain i t where t: "bread (i_dev ?y) ?b ?s = Ok i t" "i \<notin> dom (Map.empty :: nat \<rightharpoonup> u32)" "buf_data i t = V ?b" "ftx p (i_dev ?y) (Map.empty(i \<mapsto> ?b)) B V t"
    "fkept ?s t" "?b \<in> B \<or> V ?b = disk t ?b" using lb.take [OF f c] by (auto simp: runs_iff)
  note kt = fkept_fs [OF t(5)] fkeptD(7) [OF t(5), of ip] fkeptD(12) [OF t(5), of p]
  let ?u = "set_inode ip (read_dinode (V ?b) (dinode_off (i_inum ?y))) t"
  have "ftx p (i_dev ?y) (Map.empty(i \<mapsto> ?b)) B V ?u" using t(4) by simp
  from lb.give [where H = Map.empty, OF this t(2)] have g: "runs (brelse i ?u) (\<lambda>_ v. ftx p (i_dev ?y) Map.empty B V v \<and> fkept ?u v)"
    using t(6) by (simp add: set_inode_def)
  obtain v where v: "brelse i ?u = Ok () v" "ftx p (i_dev ?y) Map.empty B V v" "fkept ?u v" using g by (auto simp: runs_iff)
  note kv = fkept_fs [OF v(3)] fkeptD(7) [OF v(3), of ip] fkeptD(12) [OF v(3), of p]
  have iv: "inodes v = (inodes s)(ip := read_dinode (V ?b) (dinode_off (i_inum ?y)) ?y)" using kv(2) kt(2) e(1) by simp
  have "ilock (Some ip) s = Ok () (set_inode ip (\<lambda>x. x\<lparr>i_valid := True\<rparr>) v)"
    using assms(3,4,7) x a t(1,3) v(1) kt(2) e iv by (simp add: Let_def)
  moreover have "sleeplocks v (InodeSleep ip) = ?l" using kv(3) kt(3) e(3) by simp
  moreover have "p_pid (procs v p) = p_pid (procs s p)" using kv(4) kt(4) by auto
  ultimately show ?thesis using v(2) iv x by simp
qed

lemma dinode_off_apart:
  assumes "IBLOCK n b = IBLOCK m b" "n \<noteq> m"
  shows "dinode_off n + 64 \<le> dinode_off m \<or> dinode_off m + 64 \<le> dinode_off n"
proof -
  have "n div IPB = m div IPB" using assms(1) by (simp add: IBLOCK_def)
  then have "n mod IPB \<noteq> m mod IPB" using assms(2) word_mod_div_equality [of n IPB] word_mod_div_equality [of m IPB] by metis
  then have "unat (n mod IPB) \<noteq> unat (m mod IPB)" using word_unat_eq_iff by blast
  then show ?thesis by (auto simp: dinode_off_def)
qed

text \<open>
  C11. An inode written by \<open>iupdate\<close> is what a later \<open>ilock\<close> reads back when the entry of the table has
  been recycled in between: type, device numbers, links, size and all block addresses. The other
  inodes of the same disk block, and all other blocks, keep their contents.
\<close>

theorem iupdate_ilock_roundtrip:
  fixes s :: "'a fs_st_scheme" and ip :: nat
  defines "x \<equiv> inodes s ip" and "b \<equiv> IBLOCK (i_inum (inodes s ip)) (sb s)"
  assumes f: "ftx p (i_dev x) Map.empty B V s" "card B < LOGSIZE - 1" "b \<notin> log_area (lg_start s)" "length (V b) = BSIZE"
    and x: "length (i_addrs x) = NDIRECT + 1" "i_type x \<noteq> 0" "\<not> sl_locked (sleeplocks s (InodeSleep ip))"
    and y: "i_dev y = i_dev x" "i_inum y = i_inum x" "1 \<le> i_ref y" "\<not> i_valid y"
  shows "runs (bnd (iupdate ip s) (\<lambda>_ s. ilock (Some ip) (set_inode ip (\<lambda>_. y) s)))
    (\<lambda>_ t. inodes t = (inodes s)(ip := x\<lparr>i_ref := i_ref y, i_valid := True\<rparr>) \<and>
      sl_locked (sleeplocks t (InodeSleep ip)) \<and> sl_pid (sleeplocks t (InodeSleep ip)) = p_pid (procs t p) \<and>
      (\<exists>W. ftx p (i_dev x) Map.empty (insert b B) W t \<and> (\<forall>c. c \<noteq> b \<longrightarrow> W c = V c) \<and>
        (\<forall>n z. n \<noteq> i_inum x \<and> IBLOCK n (sb s) = b \<longrightarrow> read_dinode (W b) (dinode_off n) z = read_dinode (V b) (dinode_off n) z)))"
proof -
  let ?o = "dinode_off (i_inum x)"
  let ?W = "V(b := write_dinode x ?o (V b))"
  have a: "length (i_addrs x) = 13" "?o + 64 \<le> length (V b)" using x(1) f(4) dinode_off_bound by (simp_all add: NDIRECT_def)
  have other: "read_dinode (?W b) (dinode_off n) z = read_dinode (V b) (dinode_off n) z" if "n \<noteq> i_inum x" "IBLOCK n (sb s) = b" for n z
  proof -
    have "IBLOCK n (sb s) = IBLOCK (i_inum x) (sb s)" using that(2) by (simp add: b_def x_def)
    then show ?thesis using read_dinode_other [OF a dinode_off_apart [OF _ that(1)]] by simp
  qed
  have eq: "read_dinode (?W b) ?o y\<lparr>i_valid := True\<rparr> = x\<lparr>i_ref := i_ref y, i_valid := True\<rparr>"
    using y(1,2) by (simp add: read_write_dinode [OF a])
  have il: "runs (ilock (Some ip) (set_inode ip (\<lambda>_. y) t)) (\<lambda>_ u. inodes u = (inodes s)(ip := x\<lparr>i_ref := i_ref y, i_valid := True\<rparr>) \<and>
      ftx p (i_dev x) Map.empty (insert b B) ?W u \<and> sl_locked (sleeplocks u (InodeSleep ip)) \<and>
      sl_pid (sleeplocks u (InodeSleep ip)) = p_pid (procs u p))"
    if t: "fkept s t" "ftx p (i_dev x) Map.empty (insert b B) ?W t" for t
  proof -
    let ?t = "set_inode ip (\<lambda>_. y) t"
    note k = fkept_fs [OF t(1)] fkeptD(7) [OF t(1), of ip]
    let ?x = "x\<lparr>i_ref := i_ref y, i_valid := True\<rparr>"
    have i: "inodes ?t ip = y" by simp
    have "IBLOCK (i_inum y) (sb ?t) = b" using y(2) k(1) by (simp add: b_def x_def)
    then have ex: "?x = (read_dinode (?W (IBLOCK (i_inum (inodes ?t ip)) (sb ?t))) (dinode_off (i_inum (inodes ?t ip))) (inodes ?t ip))\<lparr>i_valid := True\<rparr>"
      using eq y(2) unfolding i by simp
    have "runs (ilock (Some ip) ?t) (\<lambda>_ u. inodes u = (inodes ?t)(ip := ?x) \<and> ftx p (i_dev (inodes ?t ip)) Map.empty (insert b B) ?W u \<and>
        sl_locked (sleeplocks u (InodeSleep ip)) \<and> sl_pid (sleeplocks u (InodeSleep ip)) = p_pid (procs u p))"
      by (rule ilock_reads [where V = ?W and s = ?t and ip = ip, OF _ _ _ _ _ ex]) (use t(2) y card_insert_Suc [of b B] f(2) x k(3) in simp_all)
    then show ?thesis using y(1) k(2) by (simp del: ilock.simps)
  qed
  have up: "runs (iupdate ip s) (\<lambda>_ t. fkept s t \<and> ftx p (i_dev x) Map.empty (insert b B) ?W t)"
    using iupdate_spec [of p s ip B V] f by (simp add: x_def b_def)
  show ?thesis
  proof (rule runs_bndI [OF up], elim conjE)
    fix t assume "fkept s t" "ftx p (i_dev x) Map.empty (insert b B) ?W t"
    from il [OF this] show "runs (ilock (Some ip) (set_inode ip (\<lambda>_. y) t)) (\<lambda>_ t. inodes t = (inodes s)(ip := x\<lparr>i_ref := i_ref y, i_valid := True\<rparr>) \<and>
        sl_locked (sleeplocks t (InodeSleep ip)) \<and> sl_pid (sleeplocks t (InodeSleep ip)) = p_pid (procs t p) \<and>
        (\<exists>W. ftx p (i_dev x) Map.empty (insert b B) W t \<and> (\<forall>c. c \<noteq> b \<longrightarrow> W c = V c) \<and>
          (\<forall>n z. n \<noteq> i_inum x \<and> IBLOCK n (sb s) = b \<longrightarrow> read_dinode (W b) (dinode_off n) z = read_dinode (V b) (dinode_off n) z)))"
      by (rule runs_mono) (use other in \<open>auto intro!: exI [of _ ?W]\<close>)
  qed
qed

section \<open>Witnesses\<close>

definition small_file :: inode where
  "small_file = no_inode\<lparr>i_dev := 1, i_inum := 17, i_ref := 1, i_valid := True, i_type := T_FILE, i_nlink := 1, i_size := 5,
     i_addrs := 46 # replicate 12 0\<rparr>"

definition file_machine :: fs_st where
  "file_machine = fs_machine\<lparr>inodes := (\<lambda>_. no_inode)(3 := small_file)\<rparr>"

lemma binit_inode_sleep: "sleeplocks (binit s) (InodeSleep i) = sleeplocks s (InodeSleep i)" for s :: "'a bio_st_scheme"
proof -
  have "sleeplocks (fold binit_push xs t) (InodeSleep i) = sleeplocks t (InodeSleep i)" for xs and t :: "'a bio_st_scheme"
    by (induction xs arbitrary: t)
      (auto simp: binit_push_def init_sleeplock_def initlock_def set_lock_def Let_def set_sleeplock_def)
  then show ?thesis by (simp add: binit_def Let_def initlock_def set_lock_def del: upt_rec_numeral)
qed

lemma file_machine_simps [simp]: "inodes file_machine = (\<lambda>_. no_inode)(3 := small_file)" "sb file_machine = small_sb" "lg_start file_machine = 2"
  "\<not> sl_locked (sleeplocks file_machine (InodeSleep i))"
  by (simp_all add: file_machine_def)
    (simp add: fs_machine_def binit_inode_sleep log_st.defs log_machine_def bio_st.defs bio_machine_def mem_st.defs small_machine_def)

lemma file_machine_ftx: "ftx 0 1 Map.empty {} small_disk file_machine"
  by (simp add: file_machine_def fs_machine_ftx)

theorem iupdate_ilock_roundtrip_witness:
  "runs (bnd (iupdate 3 file_machine) (\<lambda>_ s. ilock (Some 3) (set_inode 3 (\<lambda>_. no_inode\<lparr>i_dev := 1, i_inum := 17, i_ref := 2\<rparr>) s)))
    (\<lambda>_ t. i_size (inodes t 3) = 5 \<and> i_addrs (inodes t 3) ! 0 = 46 \<and> i_ref (inodes t 3) = 2)"
proof -
  have e: "inodes file_machine 3 = small_file" "i_dev small_file = 1" "IBLOCK (i_inum small_file) (sb file_machine) = 34"
    by (simp_all add: small_file_def IBLOCK_def IPB_def small_sb_def)
  have "(34 :: u32) \<notin> log_area 2" by (rule outside_log) simp
  then show ?thesis
    by (intro runs_mono [OF iupdate_ilock_roundtrip [where s = file_machine and ip = 3 and B = "{}" and V = small_disk and p = 0, unfolded e]])
      (simp_all add: file_machine_ftx, simp_all add: small_file_def no_inode_def small_disk_def NDIRECT_def T_FILE_def)
qed

end
