(* ===== verification/Uaccess.thy ===== *)
theory Uaccess
  imports Vm
begin

text \<open>
  What \<open>copyin\<close> and \<open>copyout\<close> of \<open>kernel/vm.c\<close> do, byte by byte, in terms of the translation of user
  addresses; and what \<open>mappages\<close> does to that translation.
\<close>

section \<open>Translation of user addresses\<close>

definition uaddr :: "bytes \<Rightarrow> u64 \<Rightarrow> u64 \<Rightarrow> u64" where
  "uaddr m pt va = pt_addr m pt (PGROUNDDOWN va) + (va - PGROUNDDOWN va)"

definition umapped :: "bytes \<Rightarrow> u64 \<Rightarrow> u64 \<Rightarrow> bool" where
  "umapped m pt va \<longleftrightarrow> pt_addr m pt (PGROUNDDOWN va) \<noteq> 0"

lemma same_div:
  assumes "i < c - n mod c"
  shows "(n + i) div c = n div (c::nat)"
proof -
  have "n + i = n div c * c + (n mod c + i)" by simp
  moreover have "(n div c * c + (n mod c + i)) div c = n div c + (n mod c + i) div c" using assms by (intro div_mult_self3) auto
  ultimately show ?thesis using assms by simp
qed

lemma in_page:
  assumes "i < 4096 - unat va mod 4096"
  shows "PGROUNDDOWN (va + of_nat i) = PGROUNDDOWN va"
proof -
  have d: "unat va = unat va div 4096 * 4096 + unat va mod 4096" by simp
  have "unat va div 4096 * 4096 + 4096 \<le> 2 ^ 64"
    using unsigned_less [of va, where ?'a = nat] by (simp add: less_mult_imp_div_less)
  then have u: "unat va + i < 2 ^ 64" using assms d by linarith
  then have "unat (va + of_nat i) = unat va + i"
    using unat_add_lem [of va "of_nat i"] unat_of_nat_u64 [of i] by simp
  moreover have "(unat va + i) div 4096 = unat va div 4096"
    using assms by (rule same_div)
  ultimately show ?thesis by (simp add: word_unat_eq_iff PGROUNDDOWN_def unat_pg_round)
qed

lemma next_page: "va + of_nat (4096 - unat va mod 4096) = PGROUNDDOWN va + PGSIZE"
proof -
  have "va - PGROUNDDOWN va = of_nat (unat va mod 4096)" using page_offset [of va] by (metis word_unat_eq_iff unsigned_of_nat of_nat_unat ucast_id)
  then have "va + of_nat (4096 - unat va mod 4096) = PGROUNDDOWN va + of_nat (unat va mod 4096 + (4096 - unat va mod 4096))"
    by (simp only: of_nat_add add.assoc [symmetric]) (simp add: algebra_simps)
  then show ?thesis by (simp add: PGSIZE_def)
qed

lemma chunk_cases: "chunk va n = n \<or> (chunk va n = 4096 - unat va mod 4096 \<and> chunk va n < n)"
  by (auto simp: chunk_def page_offset min_def)

lemma chunk_page: "i < chunk va n \<Longrightarrow> PGROUNDDOWN (va + of_nat i) = PGROUNDDOWN va"
  by (rule in_page) (simp add: chunk_def page_offset)

lemma chunk_rest: "chunk va n < n \<Longrightarrow> PGROUNDDOWN va + PGSIZE + of_nat j = va + of_nat (chunk va n + j)"
  using chunk_cases [of va n] next_page [of va] by (simp add: add.assoc [symmetric])

text \<open>The bytes of user memory from \<open>va\<close> on.\<close>

definition ubytes :: "bytes \<Rightarrow> u64 \<Rightarrow> u64 \<Rightarrow> nat \<Rightarrow> u8 list" where
  "ubytes m pt va n = map (\<lambda>i. m (uaddr m pt (va + of_nat i))) [0..<n]"

lemma ubytes_chunk: "load_bytes m (pt_addr m pt (PGROUNDDOWN va) + (va - PGROUNDDOWN va)) (chunk va n) = ubytes m pt va (chunk va n)"
  unfolding load_bytes_def ubytes_def by (rule map_cong) (simp_all add: uaddr_def chunk_page algebra_simps)

text \<open>The number of bytes from \<open>va\<close> on before the first page that is not mapped for the user.\<close>

definition ulen :: "bytes \<Rightarrow> u64 \<Rightarrow> u64 \<Rightarrow> nat \<Rightarrow> nat" where
  "ulen m pt va n = length (takeWhile (\<lambda>i. umapped m pt (va + of_nat i)) [0..<n])"

lemma upt_chunk: "[0..<n] = [0..<chunk va n] @ map (\<lambda>j. chunk va n + j) [0..<n - chunk va n]"
  using chunk_pos(2) [of va n] by (intro nth_equalityI) (auto simp: nth_append)

lemma ulen_unmapped: "0 < n \<Longrightarrow> \<not> umapped m pt va \<Longrightarrow> ulen m pt va n = 0"
  by (cases n) (simp_all add: ulen_def upt_conv_Cons del: upt_Suc)

lemma ulen_chunk:
  assumes "umapped m pt va"
  shows "ulen m pt va n = chunk va n + ulen m pt (PGROUNDDOWN va + PGSIZE) (n - chunk va n)"
proof -
  have a: "\<forall>i \<in> set [0..<chunk va n]. umapped m pt (va + of_nat i)"
    using assms by (simp add: umapped_def chunk_page)
  show ?thesis
  proof (cases "chunk va n < n")
    case True
    then show ?thesis unfolding ulen_def
      by (subst upt_chunk [of n va], subst takeWhile_append2)
        (use a in \<open>simp_all add: takeWhile_map comp_def chunk_rest\<close>)
  next
    case False
    then have "chunk va n = n" using chunk_cases [of va n] by auto
    then show ?thesis using a by (simp add: ulen_def takeWhile_eq_all_conv [THEN iffD2])
  qed
qed

lemma ulen_le: "ulen m pt va n \<le> n"
  using length_takeWhile_le [of _ "[0..<n]"] by (auto simp: ulen_def)

lemma ulen_all: "ulen m pt va n = n \<longleftrightarrow> (\<forall>i<n. umapped m pt (va + of_nat i))"
  unfolding ulen_def by (metis (no_types, lifting) atLeast_upt length_upt minus_nat.diff_0 lessThan_iff takeWhile_eq_all_conv takeWhile_eq_take take_all_iff order_refl)

section \<open>\<open>copyin\<close>\<close>

lemma ubytes_more:
  assumes "0 < j" "j \<le> n - chunk va n"
  shows "ubytes m pt va (chunk va n + j) = ubytes m pt va (chunk va n) @ ubytes m pt (PGROUNDDOWN va + PGSIZE) j"
proof -
  have "chunk va n < n" using assms by simp
  then show ?thesis
    by (intro nth_equalityI) (auto simp: ubytes_def nth_append chunk_rest simp del: of_nat_diff of_nat_add)
qed

lemma copyin_eq:
  "copyin ap pt va n s = Ok (if ulen (mem s) pt va n = n then 0 else - 1, ubytes (mem s) pt va (ulen (mem s) pt va n)) s"
proof (induction n arbitrary: va rule: less_induct)
  case (less n)
  let ?k = "chunk va n" and ?v = "PGROUNDDOWN va + PGSIZE"
  show ?case
  proof (cases "n = 0 \<or> \<not> umapped (mem s) pt va")
    case True
    then show ?thesis using ulen_le [of "mem s" pt va 0]
      by (subst copyin.simps) (auto simp: walkaddr_lookup ulen_unmapped umapped_def ubytes_def)
  next
    case False
    then have "n - ?k < n" using chunk_pos(1) [of n va] by simp
    note ih = less.IH [OF this, of ?v]
    have u: "ulen (mem s) pt va n = ?k + ulen (mem s) pt ?v (n - ?k)" using False by (simp add: ulen_chunk)
    have "ubytes (mem s) pt va (?k + ulen (mem s) pt ?v (n - ?k)) =
        ubytes (mem s) pt va ?k @ ubytes (mem s) pt ?v (ulen (mem s) pt ?v (n - ?k))"
      using ubytes_more [of "ulen (mem s) pt ?v (n - ?k)" n va] ulen_le [of "mem s" pt ?v "n - ?k"]
      by (cases "ulen (mem s) pt ?v (n - ?k) = 0") (simp_all add: ubytes_def)
    then show ?thesis
      using False chunk_pos(2) [of va n] unfolding u
      by (subst copyin.simps) (auto simp: Let_def walkaddr_lookup umapped_def ubytes_chunk ih)
  qed
qed

section \<open>\<open>copyout\<close>\<close>

text \<open>The bytes of the page table that a lookup of \<open>va\<close> reads.\<close>

fun pt_cells :: "bytes \<Rightarrow> u64 \<Rightarrow> nat \<Rightarrow> u64 \<Rightarrow> u64 set" where
  "pt_cells m va 0 pt = (\<lambda>k. pte_at pt 0 va + of_nat k) ` {..<8}"
| "pt_cells m va (Suc l) pt = (\<lambda>k. pte_at pt (Suc l) va + of_nat k) ` {..<8} \<union>
     (let v = load64 m (pte_at pt (Suc l) va) in if v AND PTE_V \<noteq> 0 then pt_cells m va l (PTE2PA v) else {})"

lemma load64_agree: "(\<And>k. k < 8 \<Longrightarrow> m' (a + of_nat k) = m (a + of_nat k)) \<Longrightarrow> load64 m' a = load64 m a"
  unfolding load64_def by (intro arg_cong [of _ _ word_of_bytes] load_bytes_cong) simp

lemma pt_walk_agree:
  assumes "\<forall>b \<in> pt_cells m va l pt. m' b = m b"
  shows "pt_walk m' va l pt = pt_walk m va l pt \<and> (pt_walk m va l pt \<noteq> 0 \<longrightarrow> load64 m' (pt_walk m va l pt) = load64 m (pt_walk m va l pt))"
  using assms
proof (induction l arbitrary: pt)
  case 0
  then show ?case by (auto intro!: load64_agree)
next
  case (Suc l)
  have "load64 m' (pte_at pt (Suc l) va) = load64 m (pte_at pt (Suc l) va)" using Suc.prems by (intro load64_agree) auto
  then show ?case using Suc by (auto simp: Let_def split: if_splits)
qed

lemma pt_addr_agree: "\<forall>b \<in> pt_cells m va 3 pt. m' b = m b \<Longrightarrow> pt_addr m' pt va = pt_addr m pt va"
  using pt_walk_agree [of m va 3 pt m'] by (auto simp: pt_addr_def Let_def)

text \<open>Bytes stored one by one at given addresses.\<close>

primrec store_at :: "(nat \<Rightarrow> u64) \<Rightarrow> u8 list \<Rightarrow> bytes \<Rightarrow> bytes" where
  "store_at f [] m = m"
| "store_at f (x # xs) m = store_at (\<lambda>i. f (Suc i)) xs (m(f 0 := x))"

lemma store_bytes_store_at: "store_bytes a xs m = store_at (\<lambda>i. a + of_nat i) xs m"
  by (induction xs arbitrary: a m) (simp_all add: add.assoc)

lemma store_at_append: "store_at f (xs @ ys) m = store_at (\<lambda>i. f (length xs + i)) ys (store_at f xs m)"
  by (induction xs arbitrary: f m) simp_all

lemma store_at_cong: "(\<And>i. i < length xs \<Longrightarrow> f i = g i) \<Longrightarrow> store_at f xs m = store_at g xs m"
proof (induction xs arbitrary: f g m)
  case (Cons x xs)
  have "store_at (\<lambda>i. f (Suc i)) xs m' = store_at (\<lambda>i. g (Suc i)) xs m'" for m' using Cons.prems by (intro Cons.IH) simp
  then show ?case using Cons.prems [of 0] by simp
qed simp

lemma store_at_other: "b \<notin> f ` {..<length xs} \<Longrightarrow> store_at f xs m b = m b"
proof (induction xs arbitrary: f m)
  case (Cons x xs)
  have "b \<notin> (\<lambda>i. f (Suc i)) ` {..<length xs}" "b \<noteq> f 0" using Cons.prems by auto
  then show ?case using Cons.IH by simp
qed simp

lemma store_at_nth: "inj_on f {..<length xs} \<Longrightarrow> i < length xs \<Longrightarrow> store_at f xs m (f i) = xs ! i"
proof (induction xs arbitrary: f m i)
  case (Cons x xs)
  have j: "inj_on (\<lambda>i. f (Suc i)) {..<length xs}" using Cons.prems(1) by (auto simp: inj_on_def)
  show ?case
  proof (cases i)
    case 0
    have "f 0 \<notin> (\<lambda>i. f (Suc i)) ` {..<length xs}" using Cons.prems(1) by (auto simp: inj_on_def)
    then show ?thesis using 0 by (simp add: store_at_other)
  next
    case (Suc k)
    then show ?thesis using Cons.IH [OF j, of k] Cons.prems(2) by simp
  qed
qed simp

text \<open>
  The transfer does not write into the part of the page table that it uses.
\<close>

definition pt_safe :: "bytes \<Rightarrow> u64 \<Rightarrow> u64 \<Rightarrow> nat \<Rightarrow> bool" where
  "pt_safe m pt va n \<longleftrightarrow> (\<forall>i<n. \<forall>j<n. uaddr m pt (va + of_nat i) \<notin> pt_cells m (PGROUNDDOWN (va + of_nat j)) 3 pt)"

lemma uaddr_chunk: "i < chunk va n \<Longrightarrow> uaddr m pt va + of_nat i = uaddr m pt (va + of_nat i)"
  by (simp add: uaddr_def chunk_page algebra_simps)

definition ustore :: "bytes \<Rightarrow> u64 \<Rightarrow> u64 \<Rightarrow> u8 list \<Rightarrow> bytes \<Rightarrow> bytes" where
  "ustore m0 pt va xs m = store_at (\<lambda>i. uaddr m0 pt (va + of_nat i)) xs m"

lemma ustore_chunk: "length xs \<le> chunk va n \<Longrightarrow> store_bytes (uaddr m0 pt va) xs m = ustore m0 pt va xs m"
  unfolding store_bytes_store_at ustore_def by (rule store_at_cong) (simp add: uaddr_chunk [of _ va n])

lemma ustore_append:
  assumes "length xs = chunk va n" "chunk va n < n"
  shows "ustore m0 pt va (xs @ ys) m = ustore m0 pt (PGROUNDDOWN va + PGSIZE) ys (ustore m0 pt va xs m)"
  unfolding ustore_def by (simp add: store_at_append assms(1) chunk_rest [OF assms(2)] del: of_nat_add)

lemma pt_safe_rest:
  assumes "pt_safe m pt va n"
  shows "pt_safe m pt (PGROUNDDOWN va + PGSIZE) (n - chunk va n)"
proof (cases "chunk va n < n")
  case True
  then show ?thesis using assms unfolding pt_safe_def chunk_rest [OF True] by (metis add.commute less_diff_conv)
qed (simp add: pt_safe_def)

lemma copyout_from:
  assumes "pt_safe m0 pt va (length src)"
    and "\<And>j b. j < length src \<Longrightarrow> b \<in> pt_cells m0 (PGROUNDDOWN (va + of_nat j)) 3 pt \<Longrightarrow> mem s b = m0 b"
  shows "copyout ap pt va src s = Ok (if ulen m0 pt va (length src) = length src then 0 else - 1)
    (s\<lparr>mem := ustore m0 pt va (take (ulen m0 pt va (length src)) src) (mem s)\<rparr>)"
  using assms
proof (induction "length src" arbitrary: va src s rule: less_induct)
  case less
  let ?n = "length src" and ?v = "PGROUNDDOWN va + PGSIZE"
  let ?k = "chunk va ?n"
  have a: "pt_addr (mem s) pt (PGROUNDDOWN va) = pt_addr m0 pt (PGROUNDDOWN va)" if "src \<noteq> []"
    using that less.prems(2) [of 0] by (intro pt_addr_agree) auto
  show ?case
  proof (cases "src = [] \<or> \<not> umapped m0 pt va")
    case True
    then show ?thesis using ulen_le [of m0 pt va 0] a
      by (subst copyout.simps) (auto simp: walkaddr_lookup ulen_unmapped umapped_def ustore_def)
  next
    case False
    let ?s = "s\<lparr>mem := ustore m0 pt va (take ?k src) (mem s)\<rparr>"
    have k: "0 < ?k" "?k \<le> ?n" using False chunk_pos by auto
    have step: "copyout ap pt va src s = copyout ap pt ?v (drop ?k src) ?s"
      using False a ustore_chunk [of "take ?k src" va ?n] k
      by (subst copyout.simps) (auto simp: Let_def walkaddr_lookup umapped_def uaddr_def)
    have "mem ?s b = m0 b" if "j < length (drop ?k src)" "b \<in> pt_cells m0 (PGROUNDDOWN (?v + of_nat j)) 3 pt" for j b
    proof -
      have j: "?k + j < ?n" "?k < ?n" using that by auto
      have b: "b \<in> pt_cells m0 (PGROUNDDOWN (va + of_nat (?k + j))) 3 pt" using that(2) chunk_rest [OF j(2)] by simp
      have "b \<notin> (\<lambda>i. uaddr m0 pt (va + of_nat i)) ` {..<length (take ?k src)}"
        using less.prems(1) b j k(2) unfolding pt_safe_def by (auto simp del: of_nat_add)
      then show ?thesis using less.prems(2) [OF j(1) b] by (simp add: ustore_def store_at_other)
    qed
    then have ih: "copyout ap pt ?v (drop ?k src) ?s = Ok (if ulen m0 pt ?v (?n - ?k) = ?n - ?k then 0 else - 1)
      (?s\<lparr>mem := ustore m0 pt ?v (take (ulen m0 pt ?v (?n - ?k)) (drop ?k src)) (mem ?s)\<rparr>)"
      using less.hyps [of "drop ?k src" ?v ?s] pt_safe_rest [OF less.prems(1)] k by simp
    have u: "ulen m0 pt va ?n = ?k + ulen m0 pt ?v (?n - ?k)" using False by (simp add: ulen_chunk)
    have "ustore m0 pt va (take (ulen m0 pt va ?n) src) (mem s) =
        ustore m0 pt ?v (take (ulen m0 pt ?v (?n - ?k)) (drop ?k src)) (mem ?s)"
      unfolding u take_add using ustore_append [of "take ?k src" va ?n] k by (cases "?k < ?n") (simp_all add: ustore_def)
    then show ?thesis unfolding step ih u using k by auto
  qed
qed

lemmas copyout_eq = copyout_from [of "mem s" _ _ _ s for s, OF _ refl]

section \<open>Transfers byte by byte\<close>

lemma ulen_Suc: "ulen m pt va (Suc n) = (if umapped m pt va then Suc (ulen m pt (va + 1) n) else 0)"
proof -
  have "[0..<Suc n] = 0 # map Suc [0..<n]" by (simp add: upt_conv_Cons map_Suc_upt del: upt_Suc)
  then show ?thesis by (simp add: ulen_def takeWhile_map comp_def add.assoc)
qed

lemma ubytes_Suc: "ubytes m pt va (Suc n) = m (uaddr m pt va) # ubytes m pt (va + 1) n"
  unfolding ubytes_def map_upt_Suc by (simp add: add.assoc)

lemma ulen_0 [simp]: "ulen m pt va 0 = 0" and ubytes_0 [simp]: "ubytes m pt va 0 = []"
  by (simp_all add: ulen_def ubytes_def)

lemma copyin_1: "copyin ap pt va 1 s = (if umapped (mem s) pt va then Ok (0, [mem s (uaddr (mem s) pt va)]) s else Ok (- 1, []) s)"
  unfolding copyin_eq One_nat_def by (simp add: ulen_Suc ubytes_Suc)

lemma ustore_Cons: "ustore m0 pt va (x # xs) m = ustore m0 pt (va + 1) xs (m(uaddr m0 pt va := x))"
  by (simp add: ustore_def add.assoc)

lemma pt_safe_mono: "pt_safe m pt va n \<Longrightarrow> k \<le> n \<Longrightarrow> pt_safe m pt va k"
  by (simp add: pt_safe_def)

lemma pt_safe_Suc:
  assumes "pt_safe m pt va (Suc n)"
  shows "pt_safe m pt (va + 1) n" "uaddr m pt va \<notin> pt_cells m (PGROUNDDOWN (va + 1 + of_nat j)) 3 pt \<or> \<not> j < n"
  using assms [unfolded pt_safe_def, rule_format, of "Suc _" "Suc _"] assms [unfolded pt_safe_def, rule_format, of 0 "Suc j"]
  by (auto simp: pt_safe_def add.assoc)

lemma copyout_1:
  assumes "pt_safe m0 pt va (Suc n)" "\<And>b. b \<in> pt_cells m0 (PGROUNDDOWN va) 3 pt \<Longrightarrow> mem s b = m0 b"
  shows "copyout ap pt va [c] s = (if umapped m0 pt va then Ok 0 (s\<lparr>mem := (mem s)(uaddr m0 pt va := c)\<rparr>) else Ok (- 1) s)"
  using copyout_from [of m0 pt va "[c]" s ap] pt_safe_mono [OF assms(1), of 1] assms(2)
  by (simp add: ulen_Suc ustore_def)

section \<open>Transfers\<close>

text \<open>
  C21. Transfers from user memory. \<open>copyin\<close> reads the bytes of user memory page by page, up to the
  first page that is not mapped for the user: the result is 0 with all bytes when the whole range
  is mapped, also across page boundaries, and \<open>-1\<close> otherwise; memory is not changed.
\<close>

theorem copyin_reads_user_memory:
  "copyin ap pt va n s =
     (if \<forall>i<n. umapped (mem s) pt (va + of_nat i) then Ok (0, ubytes (mem s) pt va n) s
      else Ok (- 1, ubytes (mem s) pt va (ulen (mem s) pt va n)) s)"
  unfolding ulen_all [symmetric] by (simp add: copyin_eq)

text \<open>
  C16. Transfers to user memory and back. When the frames of the range are outside the page table and
  no two user addresses of the range share a byte: \<open>copyout\<close> returns 0 exactly if the whole range is
  mapped for the user, and then \<open>copyin\<close> from the same address returns the bytes that were written;
  otherwise it returns \<open>-1\<close>. Bytes outside the range keep their contents.
\<close>

theorem copyout_copyin_roundtrip:
  assumes "pt_safe (mem s) pt va (length src)" "inj_on (\<lambda>i. uaddr (mem s) pt (va + of_nat i)) {..<length src}"
  shows "runs (copyout ap pt va src s) (\<lambda>r t.
    r = (if \<forall>i<length src. umapped (mem s) pt (va + of_nat i) then 0 else - 1) \<and>
    (r = 0 \<longrightarrow> copyin ap pt va (length src) t = Ok (0, src) t) \<and>
    (\<forall>b. b \<notin> (\<lambda>i. uaddr (mem s) pt (va + of_nat i)) ` {..<length src} \<longrightarrow> mem t b = mem s b) \<and> t = s\<lparr>mem := mem t\<rparr>)"
proof -
  let ?n = "length src" and ?f = "\<lambda>i. uaddr (mem s) pt (va + of_nat i)"
  let ?m = "ustore (mem s) pt va (take (ulen (mem s) pt va ?n) src) (mem s)"
  have o: "?m b = mem s b" if "b \<notin> ?f ` {..<?n}" for b
    unfolding ustore_def by (rule store_at_other) (use that in auto)
  have c: "pt_addr ?m pt (PGROUNDDOWN (va + of_nat j)) = pt_addr (mem s) pt (PGROUNDDOWN (va + of_nat j))" if "j < ?n" for j
    using assms(1) that by (intro pt_addr_agree ballI o) (auto simp: pt_safe_def)
  have "copyin ap pt va ?n (s\<lparr>mem := ?m\<rparr>) = Ok (0, src) (s\<lparr>mem := ?m\<rparr>)" if a: "ulen (mem s) pt va ?n = ?n"
  proof -
    have "ubytes ?m pt va ?n = src"
      by (intro nth_equalityI)
        (use c a in \<open>auto simp: ubytes_def uaddr_def store_at_nth [OF assms(2), unfolded uaddr_def] ustore_def [unfolded uaddr_def]\<close>)
    moreover have "ulen ?m pt va ?n = ?n" using a c by (simp add: ulen_all umapped_def)
    ultimately show ?thesis by (simp add: copyin_eq)
  qed
  then show ?thesis using o by (auto simp: copyout_eq [OF assms(1)] ulen_all [symmetric])
qed

section \<open>The loops over pages end\<close>

text \<open>
  \<open>ends m P\<close>: the routine does not wait or loop; if it returns, its result and final state satisfy
  \<open>P\<close>, and otherwise the machine has stopped.
\<close>

definition ends :: "('a, 's) outcome \<Rightarrow> ('a \<Rightarrow> 's \<Rightarrow> bool) \<Rightarrow> bool" where
  "ends m P = (case m of Ok x s \<Rightarrow> P x s | Block \<Rightarrow> False | _ \<Rightarrow> True)"

lemma ends_simps [simp]: "ends (Ok x s) P = P x s" "ends (Panic e) P" "\<not> ends Block P" "ends (Undef e) P"
  by (simp_all add: ends_def)

lemma ends_mono: "ends m P \<Longrightarrow> (\<And>x s. P x s \<Longrightarrow> Q x s) \<Longrightarrow> ends m Q"
  by (cases m) simp_all

lemma ends_bndI: "ends m P \<Longrightarrow> (\<And>x s. P x s \<Longrightarrow> ends (f x s) Q) \<Longrightarrow> ends (bnd m f) Q"
  by (cases m) simp_all

definition supplies :: "('a mem_st_scheme) page_source \<Rightarrow> bool" where
  "supplies ap \<longleftrightarrow> (\<forall>n s. kmem_ready s \<longrightarrow> ends (ap n s) (\<lambda>_. kmem_ready))"

lemma ready_mem [simp]: "kmem_ready (s\<lparr>mem := m\<rparr>) = kmem_ready s"
  by (simp add: kmem_ready_def settled_def cpu_ok_def machine_defs lock_free_def)

lemma kalloc_ends: "kmem_ready s \<Longrightarrow> ends (kalloc s) (\<lambda>_. kmem_ready)"
  using kalloc_post_ready [of "freelist s" s]
  by (simp add: kmem_ready_def [of s] kalloc_def acquire_free Let_def bracket_mem bracket_same kalloc_post_def)

lemma kfree_ends: "kmem_ready s \<Longrightarrow> ends (kfree pa s) (\<lambda>_. kmem_ready)"
  using kfree_post_ready [of pa s]
  by (simp add: kmem_ready_def [of s] kfree_def acquire_free Let_def bracket_mem kfree_post_def)

lemma walk_loop_ends: "supplies ap \<Longrightarrow> kmem_ready s \<Longrightarrow> ends (walk_loop ap alloc va l pt s) (\<lambda>_. kmem_ready)"
proof (induction l arbitrary: pt s)
  case (Suc l)
  have "ends (ap 1 s) (\<lambda>_. kmem_ready)" using Suc.prems by (simp add: supplies_def)
  note a = ends_bndI [OF this]
  show ?case using Suc by (auto simp: Let_def intro!: a)
qed simp

lemma walk_ends: "supplies ap \<Longrightarrow> kmem_ready s \<Longrightarrow> ends (walk ap pt va alloc s) (\<lambda>_ t. kmem_ready t \<and> va < MAX_VA)"
  using walk_loop_ends [of ap s alloc va 3 pt] by (auto simp: walk_def not_le elim!: ends_mono)

lemma mappages_loop_ends:
  assumes "supplies ap" "kmem_ready s" "unat (lst - cur) < 4096 * n" "4096 dvd unat (lst - cur)"
  shows "ends (mappages_loop n ap pt cur lst pa perm s) (\<lambda>_ t. kmem_ready t \<and> cur < MAX_VA)"
  using assms(2-)
proof (induction n arbitrary: cur pa s)
  case (Suc n)
  have r: "unat (lst - (cur + PGSIZE)) < 4096 * n \<and> 4096 dvd unat (lst - (cur + PGSIZE))" if "cur \<noteq> lst"
  proof -
    have "unat (lst - cur) \<noteq> 0" using that by (simp add: unat_eq_zero)
    then have "4096 \<le> unat (lst - cur)" using Suc.prems(3) by (metis dvd_imp_le neq0_conv)
    then have "unat (lst - cur - 4096) = unat (lst - cur) - 4096" by (simp add: unat_sub word_le_nat_alt)
    then show ?thesis using Suc.prems(2,3) \<open>4096 \<le> _\<close> by (simp add: PGSIZE_def diff_diff_eq)
  qed
  show ?case
    unfolding mappages_loop.simps
    by (rule ends_bndI [OF walk_ends [OF assms(1) Suc.prems(1), of pt cur True]])
      (use r in \<open>auto simp: Let_def intro!: ends_mono [OF Suc.IH]\<close>)
qed simp

lemma PGROUNDDOWN_aligned: "4096 dvd unat (PGROUNDDOWN a - PGROUNDDOWN b)"
proof -
  have "4096 dvd unat (PGROUNDDOWN x)" for x by (simp add: PGROUNDDOWN_def unat_pg_round)
  moreover have "4096 dvd (2 ^ 64 :: nat)" by simp
  ultimately show ?thesis by (auto simp: unat_sub_if' intro!: dvd_diff_nat dvd_add)
qed

lemma mappages_ends:
  "supplies ap \<Longrightarrow> kmem_ready s \<Longrightarrow> ends (mappages ap pt va sz pa perm s) (\<lambda>_ t. kmem_ready t \<and> PGROUNDDOWN va < MAX_VA)"
  unfolding mappages_def
  by (auto simp: Let_def PGROUNDDOWN_aligned PGSIZE_def unat_div simp del: mappages_loop.simps intro!: mappages_loop_ends)

text \<open>A turn of a loop from \<open>a\<close> up to \<open>b\<close>.\<close>

definition pages_left :: "nat \<Rightarrow> u64 \<Rightarrow> u64 \<Rightarrow> bool" where
  "pages_left n a b \<longleftrightarrow> (a < b \<longrightarrow> unat (b - a) \<le> 4096 * n)"

lemma pages_left_next:
  assumes "pages_left (Suc n) a b" "a < b" "a < MAX_VA"
  shows "pages_left n (a + PGSIZE) b"
proof -
  have "unat b - unat a \<le> 4096 * Suc n" using assms(1,2) by (simp add: pages_left_def word_less_nat_alt word_le_nat_alt unat_sub_if')
  then have "unat b - (unat a + 4096) \<le> 4096 * n" by simp
  then show ?thesis using assms(3)
    by (simp add: pages_left_def MAX_VA_def PGSIZE_def word_less_nat_alt word_le_nat_alt unat_sub_if' unat_word_ariths)
qed

lemma pages_left_0: "pages_left 0 a b \<Longrightarrow> \<not> a < b"
  by (auto simp: pages_left_def unat_eq_zero)

lemma le_div_next: "n \<le> 4096 + 4096 * (n div 4096)" for n :: nat
  using mult_div_mod_eq [of 4096 n] mod_less_divisor [of 4096 n] by linarith

lemma pages_left_div: "pages_left (unat ((b - a) div PGSIZE) + 1) a b"
  by (simp add: pages_left_def PGSIZE_def unat_div le_div_next)

lemma uvmunmap_loop_ends:
  assumes "supplies ap" "kmem_ready s" "pages_left n a b"
  shows "ends (uvmunmap_loop n ap pt a b fr s) (\<lambda>_. kmem_ready)"
  using assms(2-)
proof (induction n arbitrary: a s)
  case (Suc n)
  then show ?case using pages_left_next
    by (auto simp: Let_def intro!: ends_bndI [OF walk_ends [OF assms(1)]] ends_bndI [OF kfree_ends])
qed (simp add: pages_left_0)

lemma uvmunmap_ends:
  assumes "supplies ap" "kmem_ready s"
  shows "ends (uvmunmap ap pt va npages fr s) (\<lambda>_. kmem_ready)"
proof -
  have "unat (npages * PGSIZE) \<le> 4096 * unat npages" by (simp add: unat_word_ariths PGSIZE_def mult.commute)
  then have "pages_left (unat npages) va (va + npages * PGSIZE)" by (simp add: pages_left_def)
  then show ?thesis using assms by (simp add: uvmunmap_def uvmunmap_loop_ends)
qed

lemma uvmdealloc_ends: "supplies ap \<Longrightarrow> kmem_ready s \<Longrightarrow> ends (uvmdealloc ap pt old new s) (\<lambda>_. kmem_ready)"
  by (auto simp: uvmdealloc_def Let_def intro!: ends_bndI [OF uvmunmap_ends])

lemma PGROUNDDOWN_MAX_VA: "PGROUNDDOWN a < MAX_VA \<longleftrightarrow> a < MAX_VA"
  by (simp add: word_less_nat_alt PGROUNDDOWN_def unat_pg_round MAX_VA_def less_mult_imp_div_less div_less_iff_less_mult)

lemma uvmalloc_loop_ends:
  assumes "supplies ap" "kmem_ready s" "pages_left n a new"
  shows "ends (uvmalloc_loop n ap pt a old new perm s) (\<lambda>_. kmem_ready)"
  using assms(2-)
proof (induction n arbitrary: a s)
  case (Suc n)
  then show ?case using pages_left_next
    by (auto simp: Let_def PGROUNDDOWN_MAX_VA intro!: ends_bndI [OF kalloc_ends] ends_bndI [OF kfree_ends]
      ends_bndI [OF uvmdealloc_ends [OF assms(1)]] ends_bndI [OF mappages_ends [OF assms(1)]])
qed (simp add: pages_left_0)

lemma uvmcopy_loop_ends:
  assumes "supplies ap" "kmem_ready s" "pages_left n i sz"
  shows "ends (uvmcopy_loop n ap pt new i sz s) (\<lambda>_. kmem_ready)"
  using assms(2-)
proof (induction n arbitrary: i s)
  case (Suc n)
  then show ?case using pages_left_next
    by (auto simp: Let_def PGROUNDDOWN_MAX_VA intro!: ends_bndI [OF walk_ends [OF assms(1)]] ends_bndI [OF kalloc_ends]
      ends_bndI [OF kfree_ends] ends_bndI [OF uvmunmap_ends [OF assms(1)]] ends_bndI [OF mappages_ends [OF assms(1)]])
qed (simp add: pages_left_0)

text \<open>
  C17. The loops over pages end. When the source of page-table pages returns or stops the machine,
  and the page allocator is not in use: mapping, unmapping, growing, shrinking and copying an
  address space return or panic, whatever the sizes (also with sums that wrap around) and whatever
  the page tables contain; none waits or runs for ever.
\<close>

theorem uvm_loops_end:
  assumes "supplies ap" "kmem_ready s"
  shows "ends (mappages ap pt va sz pa perm s) (\<lambda>_. kmem_ready) \<and>
    ends (uvmunmap ap pt va npages fr s) (\<lambda>_. kmem_ready) \<and>
    ends (uvmalloc ap pt oldsz newsz perm s) (\<lambda>_. kmem_ready) \<and>
    ends (uvmdealloc ap pt oldsz newsz s) (\<lambda>_. kmem_ready) \<and>
    ends (uvmcopy ap pt new sz s) (\<lambda>_. kmem_ready)"
  using uvmunmap_ends [OF assms] uvmdealloc_ends [OF assms] ends_mono [OF mappages_ends [OF assms]]
    uvmalloc_loop_ends [OF assms pages_left_div] uvmcopy_loop_ends [OF assms pages_left_div [of _ 0]] assms(2)
  by (simp add: uvmalloc_def uvmcopy_def Let_def)

section \<open>Witnesses\<close>

text \<open>
  The tables at \<open>0x1000\<close> to \<open>0x4000\<close> map the first two user pages to the frames \<open>0x5000\<close> and
  \<open>0x7000\<close>; the byte on either side of the boundary of the two pages is not zero.
\<close>

definition two_pages :: mem_st where
  "two_pages = small_machine\<lparr>mem := store64 0x1000 0x801 (store64 0x2000 0xC01 (store64 0x3000 0x1001
     (store64 0x4000 0x1417 (store64 0x4008 0x1C17 ((\<lambda>_. 0)(0x5FFF := 7, 0x7000 := 9))))))\<rparr>"

lemma two_pages_entries:
  "load64 (mem two_pages) 0x1000 = 0x801" "load64 (mem two_pages) 0x2000 = 0xC01" "load64 (mem two_pages) 0x3000 = 0x1001"
  "load64 (mem two_pages) 0x4000 = 0x1417" "load64 (mem two_pages) 0x4008 = 0x1C17"
  by (simp_all add: two_pages_def load64_other apart_def)

lemma two_pages_pte_at:
  "pte_at pt l 0 = pt" "pte_at pt 0 0x1000 = pt + 8"
  "pte_at pt (Suc 0) 0x1000 = pt" "pte_at pt (Suc (Suc 0)) 0x1000 = pt" "pte_at pt (Suc (Suc (Suc 0))) 0x1000 = pt"
  "PTE2PA 0x801 = 0x2000" "PTE2PA 0xC01 = 0x3000" "PTE2PA 0x1001 = 0x4000" "PTE2PA 0x1417 = 0x5000" "PTE2PA 0x1C17 = 0x7000"
  by (simp_all add: pte_at_def PX_def PTE2PA_def)

lemma two_pages_walk:
  "pt_walk (mem two_pages) 0 3 0x1000 = 0x4000" "pt_walk (mem two_pages) 0x1000 3 0x1000 = 0x4008"
  by (simp_all add: numeral_3_eq_3 two_pages_entries two_pages_pte_at PTE_V_def)

lemma lessThan_8: "{..<8} = {0, 1, 2, 3, 4, 5, 6, 7 :: nat}"
  by auto

lemma two_pages_cells:
  "pt_cells (mem two_pages) 0 3 0x1000 \<subseteq> {0x1000..0x4010}" "pt_cells (mem two_pages) 0x1000 3 0x1000 \<subseteq> {0x1000..0x4010}"
  by (simp_all add: numeral_3_eq_3 two_pages_entries two_pages_pte_at PTE_V_def lessThan_8)

lemma two_pages_addr:
  "pt_addr (mem two_pages) 0x1000 0 = 0x5000" "pt_addr (mem two_pages) 0x1000 0x1000 = 0x7000"
  by (simp_all add: pt_addr_def two_pages_walk two_pages_entries two_pages_pte_at PTE_V_def PTE_U_def MAX_VA_def)

lemma lessThan_4: "i < (4 :: nat) \<longleftrightarrow> i = 0 \<or> i = 1 \<or> i = 2 \<or> i = 3"
  by auto

lemma two_pages_range:
  assumes "i < (4 :: nat)"
  shows "PGROUNDDOWN (0xFFE + of_nat i) = (if i < 2 then 0 else 0x1000)"
    "uaddr (mem two_pages) 0x1000 (0xFFE + of_nat i) = (if i < 2 then 0x5FFE else 0x6FFE) + of_nat i"
    "umapped (mem two_pages) 0x1000 (0xFFE + of_nat i)"
  using assms by (auto simp: lessThan_4 PGROUNDDOWN_def PGSIZE_def uaddr_def umapped_def two_pages_addr)

lemma two_pages_bytes: "ubytes (mem two_pages) 0x1000 0xFFE 4 = [0, 7, 9, 0]"
proof -
  have "ubytes (mem two_pages) 0x1000 0xFFE 4 = map (\<lambda>i. mem two_pages ((if i < 2 then 0x5FFE else 0x6FFE) + of_nat i)) [0..<4]"
    unfolding ubytes_def by (rule map_cong) (simp_all add: two_pages_range)
  then show ?thesis by (simp add: upt_rec two_pages_def store64_other)
qed

theorem copyin_reads_user_memory_witness: "copyin (\<lambda>_. Ok 0) 0x1000 0xFFE 4 two_pages = Ok (0, [0, 7, 9, 0]) two_pages"
  using copyin_reads_user_memory [where pt = "0x1000" and va = "0xFFE" and n = 4 and s = two_pages] two_pages_range(3)
  by (simp add: two_pages_bytes)

lemma two_pages_safe:
  "pt_safe (mem two_pages) 0x1000 0xFFE 4" "inj_on (\<lambda>i. uaddr (mem two_pages) 0x1000 (0xFFE + of_nat i)) {..<4}"
proof -
  have "uaddr (mem two_pages) 0x1000 (0xFFE + of_nat i) \<notin> {0x1000..0x4010}" if "i < 4" for i
    unfolding two_pages_range(2) [OF that] using that by (auto simp: lessThan_4)
  moreover have "pt_cells (mem two_pages) (PGROUNDDOWN (0xFFE + of_nat j)) 3 0x1000 \<subseteq> {0x1000..0x4010}" if "j < 4" for j
    using two_pages_cells by (simp add: two_pages_range(1) [OF that])
  ultimately show "pt_safe (mem two_pages) 0x1000 0xFFE 4" unfolding pt_safe_def by blast
  show "inj_on (\<lambda>i. uaddr (mem two_pages) 0x1000 (0xFFE + of_nat i)) {..<4}"
    by (auto simp: inj_on_def two_pages_range lessThan_4)
qed

theorem copyout_copyin_roundtrip_witness:
  "runs (copyout (\<lambda>_. Ok 0) 0x1000 0xFFE [1, 2, 3, 4] two_pages) (\<lambda>r t. r = 0 \<and> copyin (\<lambda>_. Ok 0) 0x1000 0xFFE 4 t = Ok (0, [1, 2, 3, 4]) t)"
  using copyout_copyin_roundtrip [of two_pages "0x1000" "0xFFE" "[1, 2, 3, 4]" "\<lambda>_. Ok 0"] two_pages_safe two_pages_range(3)
  by (auto simp: runs_iff numeral_eq_Suc)

theorem uvm_loops_end_witness:
  "ends (mappages (\<lambda>_. kalloc) 0x1000 0 (2 ^ 64 - 1) 0 0 two_pages) (\<lambda>_. kmem_ready) \<and>
    ends (uvmunmap (\<lambda>_. kalloc) 0x1000 0 2 True two_pages) (\<lambda>_. kmem_ready) \<and>
    ends (uvmalloc (\<lambda>_. kalloc) 0x1000 0x2000 0x9000 0 two_pages) (\<lambda>_. kmem_ready) \<and>
    ends (uvmdealloc (\<lambda>_. kalloc) 0x1000 0x2000 0x9000 two_pages) (\<lambda>_. kmem_ready) \<and>
    ends (uvmcopy (\<lambda>_. kalloc) 0x1000 0x6000 0x2000 two_pages) (\<lambda>_. kmem_ready)"
proof -
  have "supplies (\<lambda>_. kalloc)" by (simp add: supplies_def kalloc_ends)
  moreover have "kmem_ready two_pages"
    by (simp add: two_pages_def small_machine_def kmem_ready_def settled_def cpu_ok_def machine_defs lock_free_def)
  ultimately show ?thesis by (intro conjI) (use uvm_loops_end in blast)+
qed

end
