(* ===== verification/File_Data.thy ===== *)
theory File_Data
  imports Inode Uaccess
begin

text \<open>
  The contents of files, \<open>kernel/fs.c\<close>: the block map \<open>bmap\<close> with its direct and indirect addresses,
  and what \<open>readi\<close> and \<open>writei\<close> do to the bytes of a file.
\<close>

section \<open>The blocks of a file\<close>

text \<open>The address of block \<open>k\<close> of the file with inode \<open>x\<close>, 0 if it has none.\<close>

definition faddr :: "(u32 \<Rightarrow> u8 list) \<Rightarrow> inode \<Rightarrow> nat \<Rightarrow> u32" where
  "faddr V x k = (if k < NDIRECT then i_addrs x ! k
     else if i_addrs x ! NDIRECT = 0 then 0 else get32 (4 * (k - NDIRECT)) (V (i_addrs x ! NDIRECT)))"

text \<open>A block that a file may own: a full block outside the log and the bitmap, marked as in use.\<close>

definition owned :: "superblock \<Rightarrow> u32 set \<Rightarrow> (u32 \<Rightarrow> u8 list) \<Rightarrow> u32 \<Rightarrow> bool" where
  "owned b A V a \<longleftrightarrow> a \<notin> A \<and> a \<notin> bitmap_blocks b \<and> length (V a) = BSIZE \<and> (\<exists>n<fs_size b. a = of_nat n \<and> used b V n)"

definition file_ok :: "superblock \<Rightarrow> u32 set \<Rightarrow> (u32 \<Rightarrow> u8 list) \<Rightarrow> inode \<Rightarrow> bool" where
  "file_ok b A V x \<longleftrightarrow> length (i_addrs x) = NDIRECT + 1 \<and>
     (i_addrs x ! NDIRECT \<noteq> 0 \<longrightarrow> owned b A V (i_addrs x ! NDIRECT)) \<and>
     (\<forall>k<MAXFILE. faddr V x k \<noteq> 0 \<longrightarrow> owned b A V (faddr V x k) \<and> faddr V x k \<noteq> i_addrs x ! NDIRECT) \<and>
     (\<forall>j<MAXFILE. \<forall>k<MAXFILE. faddr V x j = faddr V x k \<and> faddr V x k \<noteq> 0 \<longrightarrow> j = k)"

lemma file_okD:
  assumes "file_ok b A V x"
  shows "length (i_addrs x) = 13" "i_addrs x ! NDIRECT \<noteq> 0 \<Longrightarrow> owned b A V (i_addrs x ! NDIRECT)"
    "k < MAXFILE \<Longrightarrow> faddr V x k \<noteq> 0 \<Longrightarrow> owned b A V (faddr V x k)"
    "k < MAXFILE \<Longrightarrow> faddr V x k \<noteq> 0 \<Longrightarrow> faddr V x k \<noteq> i_addrs x ! NDIRECT"
    "j < MAXFILE \<Longrightarrow> k < MAXFILE \<Longrightarrow> faddr V x j = faddr V x k \<Longrightarrow> faddr V x k \<noteq> 0 \<Longrightarrow> j = k"
  using assms unfolding file_ok_def by (simp_all add: NDIRECT_def)

lemma file_okI:
  assumes "length (i_addrs x) = 13" "i_addrs x ! NDIRECT \<noteq> 0 \<Longrightarrow> owned b A V (i_addrs x ! NDIRECT)"
    "\<And>k. k < MAXFILE \<Longrightarrow> faddr V x k \<noteq> 0 \<Longrightarrow> owned b A V (faddr V x k) \<and> faddr V x k \<noteq> i_addrs x ! NDIRECT"
    "\<And>j k. j < MAXFILE \<Longrightarrow> k < MAXFILE \<Longrightarrow> faddr V x j = faddr V x k \<Longrightarrow> faddr V x k \<noteq> 0 \<Longrightarrow> j = k"
  shows "file_ok b A V x"
  unfolding file_ok_def using assms by (auto simp: NDIRECT_def)

text \<open>A block that is neither free nor part of the bitmap: no allocation changes it.\<close>

definition live :: "superblock \<Rightarrow> (u32 \<Rightarrow> u8 list) \<Rightarrow> u32 \<Rightarrow> bool" where
  "live b V c \<longleftrightarrow> c \<notin> bitmap_blocks b \<and> (\<forall>n<fs_size b. c = of_nat n \<longrightarrow> used b V n)"

lemma of_nat_fs_inj: "n < fs_size b \<Longrightarrow> m < fs_size b \<Longrightarrow> (of_nat n :: u32) = of_nat m \<longleftrightarrow> n = m"
  using fs_size_less(2) by metis

lemma owned_live: "owned b A V a \<Longrightarrow> live b V a"
  by (auto simp: owned_def live_def of_nat_fs_inj)

text \<open>\<open>W\<close> follows from \<open>V\<close> by allocations, and changes of the blocks \<open>C\<close>.\<close>

definition grows :: "superblock \<Rightarrow> u32 set \<Rightarrow> u32 set \<Rightarrow> (u32 \<Rightarrow> u8 list) \<Rightarrow> (u32 \<Rightarrow> u8 list) \<Rightarrow> bool" where
  "grows b A C V W \<longleftrightarrow> bitmap_ok b A W \<and> (\<forall>n<fs_size b. used b V n \<longrightarrow> used b W n) \<and>
     (\<forall>c. live b V c \<and> c \<notin> C \<longrightarrow> W c = V c)"

lemma growsD:
  assumes "grows b A C V W"
  shows "bitmap_ok b A W" "n < fs_size b \<Longrightarrow> used b V n \<Longrightarrow> used b W n" "live b V c \<Longrightarrow> c \<notin> C \<Longrightarrow> W c = V c" "live b V c \<Longrightarrow> live b W c"
  using assms unfolding grows_def live_def by blast+

lemma grows_refl: "bitmap_ok b A V \<Longrightarrow> grows b A C V V"
  by (simp add: grows_def)

lemma grows_trans:
  assumes "grows b A C V W" "grows b A C' W X"
  shows "grows b A (C \<union> C') V X"
  using growsD [OF assms(1)] growsD [OF assms(2)] unfolding grows_def by auto

lemma grows_alloc:
  assumes "bitmap_ok b A V" "n < fs_size b" "\<not> used b V n"
  shows "grows b A {} V (alloc_view b V n)"
proof -
  have "c \<noteq> of_nat n" if "live b V c" for c using that assms(2,3) by (auto simp: live_def)
  then show ?thesis using alloc_view_ok [OF assms] by (auto simp: grows_def live_def)
qed

lemma grows_write:
  assumes "bitmap_ok b A V" "a \<notin> bitmap_blocks b"
  shows "grows b A {a} V (V(a := d))"
proof -
  have "used b (V(a := d)) n = used b V n" if "n < fs_size b" for n using used_other [OF assms(2) that] by simp
  then show ?thesis using assms by (auto simp: grows_def bitmap_ok_def)
qed

lemma owned_grows: "owned b A V a \<Longrightarrow> grows b A C V W \<Longrightarrow> a \<notin> C \<Longrightarrow> owned b A W a"
proof -
  assume o: "owned b A V a" and g: "grows b A C V W" and a: "a \<notin> C"
  then have "W a = V a" using growsD(3) [OF g owned_live [OF o]] by blast
  then show ?thesis using o growsD(2) [OF g] unfolding owned_def by auto
qed

lemma owned_alloc:
  assumes "bitmap_ok b A V" "n < fs_size b" "\<not> used b V n"
  shows "owned b A (alloc_view b V n) (of_nat n)"
  using alloc_view_ok [OF assms] assms(2) by (auto simp: owned_def)

lemma owned_fresh: "owned b A V a \<Longrightarrow> n < fs_size b \<Longrightarrow> \<not> used b V n \<Longrightarrow> a \<noteq> of_nat n"
  by (auto simp: owned_def of_nat_fs_inj)

text \<open>Adding a new block to a file, in place of an address that was 0.\<close>

lemma file_ok_add:
  assumes f: "file_ok b A V x" and g: "grows b A {i_addrs x ! NDIRECT} V W"
    and l: "length (i_addrs y) = 13" "i_addrs y ! NDIRECT = i_addrs x ! NDIRECT" "i_addrs x ! NDIRECT \<noteq> 0 \<Longrightarrow> owned b A W (i_addrs x ! NDIRECT)"
    and n: "owned b A W (of_nat n)" "n < fs_size b" "\<not> used b V n" "of_nat n \<noteq> (0 :: u32)"
    and a: "\<And>j. j < MAXFILE \<Longrightarrow> faddr W y j = (if j = k then of_nat n else faddr V x j)"
  shows "file_ok b A W y"
proof (rule file_okI)
  have new: "faddr V x j \<noteq> of_nat n" if "j < MAXFILE" for j
    using owned_fresh [OF file_okD(3) [OF f that] n(2,3)] n(4) by (cases "faddr V x j = 0") auto
  have ind: "i_addrs x ! NDIRECT \<noteq> of_nat n"
    using owned_fresh [OF file_okD(2) [OF f] n(2,3)] n(4) by (cases "i_addrs x ! NDIRECT = 0") auto
  show "length (i_addrs y) = 13" by (fact l)
  show "owned b A W (i_addrs y ! NDIRECT)" if "i_addrs y ! NDIRECT \<noteq> 0" using that l by simp
  show "owned b A W (faddr W y j) \<and> faddr W y j \<noteq> i_addrs y ! NDIRECT" if "j < MAXFILE" "faddr W y j \<noteq> 0" for j
    using that a [OF that(1)] n(1) ind l(2) file_okD(3,4) [OF f that(1)] owned_grows [OF _ g] by (cases "j = k") auto
  show "i = j" if "i < MAXFILE" "j < MAXFILE" "faddr W y i = faddr W y j" "faddr W y j \<noteq> 0" for i j
    using that a [OF that(1)] a [OF that(2)] new file_okD(5) [OF f that(1,2)] by (auto split: if_splits)
qed

lemma faddr_set_direct:
  assumes "length (i_addrs x) = 13" "k < NDIRECT" "i_addrs x ! NDIRECT \<noteq> 0 \<Longrightarrow> W (i_addrs x ! NDIRECT) = V (i_addrs x ! NDIRECT)"
  shows "faddr W (x\<lparr>i_addrs := (i_addrs x)[k := a]\<rparr>) j = (if j = k then a else faddr V x j)"
  using assms by (auto simp: faddr_def NDIRECT_def nth_list_update)

lemma get32_zeros: "get32 i (replicate n 0) = 0"
proof -
  have "get32 i (replicate n 0) = word_of_bytes (replicate (min 4 (n - i)) 0)" by (simp add: get32_def)
  moreover have "word_of_bytes (replicate m 0) = (0 :: u32)" for m by (induction m) (simp_all add: word_of_bytes_def)
  ultimately show ?thesis by simp
qed

lemma faddr_set_indirect:
  assumes "length (i_addrs x) = 13" "i_addrs x ! NDIRECT = 0" "W a = replicate BSIZE 0"
  shows "faddr W (x\<lparr>i_addrs := (i_addrs x)[NDIRECT := a]\<rparr>) j = faddr V x j"
  using assms by (auto simp: faddr_def NDIRECT_def nth_list_update get32_zeros)

lemma file_ok_new_indirect:
  assumes f: "file_ok b A V x" "i_addrs x ! NDIRECT = 0" and m: "bitmap_ok b A V" and n: "n < fs_size b" "\<not> used b V n"
  shows "file_ok b A (alloc_view b V n) (x\<lparr>i_addrs := (i_addrs x)[NDIRECT := of_nat n]\<rparr>)"
proof -
  let ?y = "x\<lparr>i_addrs := (i_addrs x)[NDIRECT := of_nat n]\<rparr>" and ?W = "alloc_view b V n"
  have fa: "faddr ?W ?y j = faddr V x j" for j by (rule faddr_set_indirect) (use file_okD(1) [OF f(1)] f(2) alloc_view_ok(3) [OF m n] in auto)
  have ind: "i_addrs ?y ! NDIRECT = of_nat n" using file_okD(1) [OF f(1)] by (simp add: NDIRECT_def)
  show ?thesis
  proof (rule file_okI)
    show "length (i_addrs ?y) = 13" using file_okD(1) [OF f(1)] by simp
    show "owned b A ?W (i_addrs ?y ! NDIRECT)" unfolding ind by (rule owned_alloc [OF m n])
    show "owned b A ?W (faddr ?W ?y j) \<and> faddr ?W ?y j \<noteq> i_addrs ?y ! NDIRECT" if "j < MAXFILE" "faddr ?W ?y j \<noteq> 0" for j
      using that file_okD(3) [OF f(1) that(1)] owned_grows [OF _ grows_alloc [OF m n]] owned_fresh [OF _ n] unfolding fa ind by auto
    show "i = j" if "i < MAXFILE" "j < MAXFILE" "faddr ?W ?y i = faddr ?W ?y j" "faddr ?W ?y j \<noteq> 0" for i j
      using file_okD(5) [OF f(1) that(1,2)] that(3,4) unfolding fa by blast
  qed
qed

text \<open>The indirect block with one more address.\<close>

lemma faddr_put_indirect:
  assumes "length (i_addrs x) = 13" "i_addrs x ! NDIRECT = a" "a \<noteq> 0" "W a = V a" "length (V a) = BSIZE" "m < NINDIRECT" "j < MAXFILE"
  shows "faddr (W(a := put32 (4 * m) v (W a))) x j = (if j = NDIRECT + m then v else faddr V x j)"
proof (cases "j < NDIRECT")
  case False
  then obtain i where i: "j = NDIRECT + i" "i < NINDIRECT" using assms(7) le_Suc_ex [of NDIRECT j] by (auto simp: MAXFILE_def)
  have "4 * m + 4 \<le> length (V a)" using assms(5,6) by (simp add: NINDIRECT_def)
  then have "get32 (4 * i) (put32 (4 * m) v (V a)) = get32 (4 * i) (V a)" if "i \<noteq> m"
    using that by (intro get32_put32_other) auto
  then show ?thesis using assms i \<open>4 * m + 4 \<le> length (V a)\<close> by (cases "i = m") (auto simp: faddr_def)
qed (use assms in \<open>auto simp: faddr_def\<close>)

lemma file_ok_put_indirect:
  assumes f: "file_ok b A V x" "i_addrs x ! NDIRECT = a" "a \<noteq> 0" and m: "bitmap_ok b A V" and n: "n < fs_size b" "\<not> used b V n"
    and k: "i < NINDIRECT"
  defines "W \<equiv> (alloc_view b V n)(a := put32 (4 * i) (of_nat n) (alloc_view b V n a))"
  shows "file_ok b A W x" "grows b A {a} V W" "j < MAXFILE \<Longrightarrow> faddr W x j = (if j = NDIRECT + i then of_nat n else faddr V x j)"
    "W (of_nat n) = replicate BSIZE 0"
proof -
  let ?U = "alloc_view b V n"
  have o: "owned b A V a" using file_okD(2) [OF f(1)] f(2,3) by simp
  then have l: "length (V a) = BSIZE" "a \<notin> bitmap_blocks b" by (simp_all add: owned_def)
  have u: "?U a = V a" using growsD(3) [OF grows_alloc [OF m n] owned_live [OF o]] by simp
  have ne: "of_nat n \<noteq> a" using owned_fresh [OF o n] by simp
  show g: "grows b A {a} V W" unfolding W_def
    using grows_trans [OF grows_alloc [OF m n] grows_write [OF growsD(1) [OF grows_alloc [OF m n]] l(2)]] by simp
  show fa: "faddr W x j = (if j = NDIRECT + i then of_nat n else faddr V x j)" if "j < MAXFILE" for j
    unfolding W_def using faddr_put_indirect [where W = ?U and V = V and a = a, OF file_okD(1) [OF f(1)] f(2,3) u l(1) k that] .
  have lw: "length (W a) = BSIZE" using u l(1) k by (simp add: W_def NINDIRECT_def)
  then have ow: "owned b A W a" using o growsD(2) [OF g] unfolding owned_def by auto
  show z: "W (of_nat n) = replicate BSIZE 0" using ne alloc_view_ok(3) [OF m n] by (simp add: W_def)
  have "used b W n" using used_other [OF l(2) n(1)] alloc_view_ok(1) [OF m n n(1)] by (simp add: W_def)
  then have "owned b A W (of_nat n)" using z alloc_view_ok(5,6) [OF m n] n(1) by (auto simp: owned_def)
  then show "file_ok b A W x"
    using file_okD(1) [OF f(1)] g ow n alloc_view_ok(7) [OF m n] fa f(2)
    by (intro file_ok_add [OF f(1), of W x n "NDIRECT + i"]) auto
qed

section \<open>The block map\<close>

lemma bmap_slot_zero:
  assumes f: "ftx p (i_dev (inodes s ip)) Map.empty B V s" and m: "bitmap_ok (sb s) (log_area (lg_start s)) V"
    and k: "i_addrs (inodes s ip) ! k = 0" and c: "card B < LOGSIZE - 2"
  shows "runs (bmap_slot ip k s) (\<lambda>r t. ikept s t \<and>
    (r = 0 \<and> (\<forall>m<fs_size (sb s). used (sb s) V m) \<and> inodes t = inodes s \<and> ftx p (i_dev (inodes s ip)) Map.empty B V t \<or>
     (\<exists>n<fs_size (sb s). \<not> used (sb s) V n \<and> r = of_nat n \<and> r \<noteq> 0 \<and>
       inodes t = (inodes s)(ip := (inodes s ip)\<lparr>i_addrs := (i_addrs (inodes s ip))[k := r]\<rparr>) \<and>
       ftx p (i_dev (inodes s ip)) Map.empty (insert r (insert (BBLOCK r (sb s)) B)) (alloc_view (sb s) V n) t)))"
proof -
  let ?D = "i_dev (inodes s ip)"
  have h: "held_ok (sb s) V Map.empty" "card B + card (dom (Map.empty :: nat \<rightharpoonup> u32)) < LOGSIZE - 2" using c by (simp_all add: held_ok_def)
  have "runs (if r = 0 then Ok 0 t else Ok r (set_addr ip k r t)) (\<lambda>r t. ikept s t \<and>
    (r = 0 \<and> (\<forall>m<fs_size (sb s). used (sb s) V m) \<and> inodes t = inodes s \<and> ftx p ?D Map.empty B V t \<or>
     (\<exists>n<fs_size (sb s). \<not> used (sb s) V n \<and> r = of_nat n \<and> r \<noteq> 0 \<and>
       inodes t = (inodes s)(ip := (inodes s ip)\<lparr>i_addrs := (i_addrs (inodes s ip))[k := r]\<rparr>) \<and>
       ftx p ?D Map.empty (insert r (insert (BBLOCK r (sb s)) B)) (alloc_view (sb s) V n) t)))"
    if t: "fkept s t" "case find (\<lambda>n. \<not> used (sb s) V n) [0..<fs_size (sb s)] of
      None \<Rightarrow> r = 0 \<and> ftx p ?D Map.empty B V t
    | Some n \<Rightarrow> r = of_nat n \<and> ftx p ?D Map.empty (insert (of_nat n) (insert (BBLOCK (of_nat n) (sb s)) B)) (alloc_view (sb s) V n) t" for r t
  proof (cases "find (\<lambda>n. \<not> used (sb s) V n) [0..<fs_size (sb s)]")
    case None
    then have "\<forall>m<fs_size (sb s). used (sb s) V m" by (simp add: find_None_iff)
    then show ?thesis using t None fkept_fs(2) [OF t(1)] by (simp add: fkept_ikept)
  next
    case (Some n)
    then have n: "n < fs_size (sb s)" "\<not> used (sb s) V n" by (auto simp: find_Some_iff)
    have "ikept s (set_addr ip k r t)" unfolding set_addr_def by (rule ikept_trans [OF fkept_ikept [OF t(1)] ikept_set_inode])
    then show ?thesis using t(2) Some n alloc_view_ok(7) [OF m n] fkept_fs(2) [OF t(1)] by (auto simp: set_addr_def)
  qed
  then show ?thesis using k runs_mono [OF balloc_spec [OF f m h]] by (auto simp: bmap_slot_def Let_def)
qed

text \<open>The part of \<open>bmap\<close> that looks into the indirect block \<open>a\<close>.\<close>

definition bmap_indirect :: "nat \<Rightarrow> nat \<Rightarrow> u32 \<Rightarrow> 'a fs_st_scheme \<Rightarrow> (u32, 'a fs_st_scheme) outcome" where
  "bmap_indirect ip n a s =
     bnd (bread (i_dev (inodes s ip)) a s) (\<lambda>bp s.
     let addr = get32 (4 * n) (buf_data bp s)
     in if addr = 0 then
          bnd (balloc (i_dev (inodes s ip)) s) (\<lambda>addr s.
          bnd (if addr \<noteq> 0 then log_write bp (set_data bp (put32 (4 * n) addr (buf_data bp s)) s) else Ok () s) (\<lambda>_ s.
          bnd (brelse bp s) (\<lambda>_ s. Ok addr s)))
        else bnd (brelse bp s) (\<lambda>_ s. Ok addr s))"

lemma bmap_cases:
  "bmap ip bn s = (if unat bn < NDIRECT then bmap_slot ip (unat bn) s
     else if unat bn - NDIRECT < NINDIRECT then
       bnd (bmap_slot ip NDIRECT s) (\<lambda>addr s. if addr = 0 then Ok 0 s else bmap_indirect ip (unat bn - NDIRECT) addr s)
     else Panic ''bmap: out of range'')"
  unfolding bmap_def bmap_indirect_def Let_def by (rule refl)

lemma bmap_indirect_present:
  assumes f: "ftx p (i_dev (inodes s ip)) Map.empty B V s" and c: "card B < NBUF" and e: "get32 (4 * n) (V a) \<noteq> 0"
  shows "runs (bmap_indirect ip n a s) (\<lambda>r t. r = get32 (4 * n) (V a) \<and> fkept s t \<and> ftx p (i_dev (inodes s ip)) Map.empty B V t)"
proof -
  have h: "a \<notin> ran Map.empty" "card B + card (dom (Map.empty :: nat \<rightharpoonup> u32)) < NBUF" using c by simp_all
  show ?thesis unfolding bmap_indirect_def Let_def
    by (rule runs_bndI [OF lb.look [OF f h]]) (use e in \<open>auto elim!: runs_mono\<close>)
qed

lemma bmap_indirect_zero:
  assumes f: "ftx p (i_dev (inodes s ip)) Map.empty B V s" and m: "bitmap_ok (sb s) (log_area (lg_start s)) V"
    and a: "owned (sb s) (log_area (lg_start s)) V a" and e: "get32 (4 * i) (V a) = 0" and c: "card B < LOGSIZE - 4"
  shows "runs (bmap_indirect ip i a s) (\<lambda>r t. fkept s t \<and>
    (r = 0 \<and> (\<forall>m<fs_size (sb s). used (sb s) V m) \<and> ftx p (i_dev (inodes s ip)) Map.empty B V t \<or>
     (\<exists>n<fs_size (sb s). \<not> used (sb s) V n \<and> r = of_nat n \<and> r \<noteq> 0 \<and>
       ftx p (i_dev (inodes s ip)) Map.empty (insert a (insert r (insert (BBLOCK r (sb s)) B)))
         ((alloc_view (sb s) V n)(a := put32 (4 * i) r (alloc_view (sb s) V n a))) t)))"
proof -
  let ?D = "i_dev (inodes s ip)" and ?A = "log_area (lg_start s)"
  have h: "a \<notin> ran Map.empty" "card B + card (dom (Map.empty :: nat \<rightharpoonup> u32)) < NBUF" using c by simp_all
  obtain j t where t: "bread ?D a s = Ok j t" "buf_data j t = V a" "ftx p ?D (Map.empty(j \<mapsto> a)) B V t" "fkept s t" "a \<in> B \<or> V a = disk t a"
    using lb.take [OF f h] by (auto simp: runs_iff)
  note k = fkept_fs [OF t(4)] fkeptD(1,3) [OF t(4)]
  have ho: "held_ok (sb t) V (Map.empty(j \<mapsto> a))" using a k(1) by (auto simp: held_ok_def owned_def of_nat_fs_inj)
  have cB: "card B + card (dom (Map.empty(j \<mapsto> a))) < LOGSIZE - 2" using c by simp
  have mt: "bitmap_ok (sb t) (log_area (lg_start t)) V" using m k by simp
  obtain r u where u: "balloc ?D t = Ok r u" "fkept t u" "case find (\<lambda>n. \<not> used (sb s) V n) [0..<fs_size (sb s)] of
      None \<Rightarrow> r = 0 \<and> ftx p ?D (Map.empty(j \<mapsto> a)) B V u
    | Some n \<Rightarrow> r = of_nat n \<and> ftx p ?D (Map.empty(j \<mapsto> a)) (insert (of_nat n) (insert (BBLOCK (of_nat n) (sb s)) B)) (alloc_view (sb s) V n) u"
    using balloc_spec [OF t(3) mt ho cB, unfolded k(1)] by (auto simp: runs_iff)
  note su = fkept_trans [OF t(4) u(2)]
  have code: "bmap_indirect ip i a s = bnd (if r \<noteq> 0 then log_write j (set_data j (put32 (4 * i) r (buf_data j u)) u) else Ok () u) (\<lambda>_ v.
      bnd (brelse j v) (\<lambda>_ v. Ok r v))"
    using t(1,2) u(1) e k(2) by (simp add: bmap_indirect_def)
  show ?thesis
  proof (cases "find (\<lambda>n. \<not> used (sb s) V n) [0..<fs_size (sb s)]")
    case None
    then have r: "r = 0" "ftx p ?D (Map.empty(j \<mapsto> a)) B V u" using u(3) by simp_all
    have "runs (brelse j u) (\<lambda>_ v. ftx p ?D Map.empty B V v \<and> fkept u v)"
      using lb.give [where H = Map.empty, OF r(2)] t(5) fkeptD(1) [OF u(2)] by simp
    moreover have "\<forall>m<fs_size (sb s). used (sb s) V m" using None by (simp add: find_None_iff)
    ultimately show ?thesis unfolding code using r(1) fkept_trans [OF su] by (auto elim!: runs_mono)
  next
    case (Some n)
    then have n: "n < fs_size (sb s)" "\<not> used (sb s) V n" by (auto simp: find_Some_iff)
    let ?B = "insert (of_nat n) (insert (BBLOCK (of_nat n) (sb s)) B)" and ?U = "alloc_view (sb s) V n"
    have r: "r = of_nat n" "r \<noteq> 0" "ftx p ?D (Map.empty(j \<mapsto> a)) ?B ?U u" using u(3) Some alloc_view_ok(7) [OF m n] by simp_all
    have b: "buf_data j u = ?U a" by (rule lb.get [OF r(3)]) simp
    have l: "card ?B < LOGSIZE - 1" "a \<notin> log_area (lg_start u)"
      using card_insert_Suc [of "of_nat n" "insert (BBLOCK (of_nat n) (sb s)) B"] card_insert_Suc [of "BBLOCK (of_nat n) (sb s)" B] c
        a fkeptD(3) [OF su] by (simp_all add: owned_def)
    have "runs (log_write j (set_data j (put32 (4 * i) r (?U a)) u)) (\<lambda>_ v. runs (brelse j v) (\<lambda>_ w.
        ftx p ?D Map.empty (insert a ?B) (?U(a := put32 (4 * i) r (?U a))) w \<and> fkept u w))"
      using lb.store(2) [where H = Map.empty, OF r(3) _ l(2,1)] by simp
    then show ?thesis unfolding code b using r(1,2) n fkept_trans [OF su] by (auto elim!: runs_mono)
  qed
qed

lemma unat_block_number: "k < MAXFILE \<Longrightarrow> unat (of_nat k :: u32) = k"
  by (simp add: MAXFILE_def NDIRECT_def NINDIRECT_def unat_of_nat)

lemma bmap_present:
  assumes f: "ftx p (i_dev (inodes s ip)) Map.empty B V s" and c: "card B < NBUF"
    and k: "k < MAXFILE" "faddr V (inodes s ip) k \<noteq> 0"
  shows "runs (bmap ip (of_nat k) s) (\<lambda>r t. r = faddr V (inodes s ip) k \<and> fkept s t \<and> ftx p (i_dev (inodes s ip)) Map.empty B V t)"
proof (cases "k < NDIRECT")
  case True
  then show ?thesis using f k by (simp add: bmap_cases unat_block_number bmap_slot_def faddr_def)
next
  case False
  then have i: "k - NDIRECT < NINDIRECT" "i_addrs (inodes s ip) ! NDIRECT \<noteq> 0"
    "faddr V (inodes s ip) k = get32 (4 * (k - NDIRECT)) (V (i_addrs (inodes s ip) ! NDIRECT))"
    using k by (auto simp: faddr_def MAXFILE_def split: if_splits)
  then show ?thesis using bmap_indirect_present [OF f c, of "k - NDIRECT"] k False
    by (simp add: bmap_cases unat_block_number bmap_slot_def)
qed

text \<open>
  What \<open>bmap\<close> leaves: \<open>r\<close> is the address of block \<open>k\<close>, the other addresses are the same, a new block is
  zero and was free, and of the blocks in use only the indirect block may have changed. The result is 0
  only if no block is free.
\<close>

definition bmapped :: "nat \<Rightarrow> nat \<Rightarrow> nat \<Rightarrow> u32 set \<Rightarrow> (u32 \<Rightarrow> u8 list) \<Rightarrow> 'a fs_st_scheme \<Rightarrow> u32 \<Rightarrow> 'a fs_st_scheme \<Rightarrow>
    u32 set \<Rightarrow> (u32 \<Rightarrow> u8 list) \<Rightarrow> inode \<Rightarrow> bool" where
  "bmapped p ip k B V s r t B' W y \<longleftrightarrow> (let x = inodes s ip; b = sb s; A = log_area (lg_start s) in
     ftx p (i_dev x) Map.empty B' W t \<and> card B' \<le> card B + 5 \<and> ikept s t \<and> inodes t = (inodes s)(ip := y) \<and>
     (\<exists>as. y = x\<lparr>i_addrs := as\<rparr>) \<and> file_ok b A W y \<and> grows b A ({i_addrs x ! NDIRECT} - {0}) V W \<and>
     (\<forall>j<MAXFILE. faddr W y j = (if j = k then r else faddr V x j)) \<and> (faddr V x k \<noteq> 0 \<longrightarrow> r = faddr V x k) \<and>
     (faddr V x k = 0 \<and> r \<noteq> 0 \<longrightarrow> W r = replicate BSIZE 0 \<and> (\<exists>n<fs_size b. r = of_nat n \<and> \<not> used b V n)) \<and>
     (r = 0 \<longrightarrow> (\<forall>m<fs_size b. used b W m)) \<and>
     (i_addrs y ! NDIRECT = i_addrs x ! NDIRECT \<or> (\<exists>n<fs_size b. i_addrs y ! NDIRECT = of_nat n \<and> \<not> used b V n)))"

lemma bmapped_same:
  assumes "ftx p (i_dev (inodes s ip)) Map.empty B V t" "fkept s t" "file_ok (sb s) (log_area (lg_start s)) V (inodes s ip)"
    "bitmap_ok (sb s) (log_area (lg_start s)) V" "r = faddr V (inodes s ip) k" "r = 0 \<Longrightarrow> \<forall>m<fs_size (sb s). used (sb s) V m"
  shows "bmapped p ip k B V s r t B V (inodes s ip)"
proof -
  have "\<exists>as. inodes s ip = (inodes s ip)\<lparr>i_addrs := as\<rparr>" by (rule exI [of _ "i_addrs (inodes s ip)"]) simp
  then show ?thesis using assms grows_refl fkept_ikept fkept_fs(2) [OF assms(2)] by (simp add: bmapped_def Let_def)
qed

lemma grows_fresh:
  assumes "grows b A (insert a C) V W" "n < fs_size b" "a = of_nat n" "\<not> used b V n"
  shows "grows b A C V W"
  using assms unfolding grows_def live_def by auto

lemma card_insert3: "card (insert a (insert b (insert c B))) \<le> card B + 3" "card (insert a (insert b B)) \<le> card B + 2"
  using card_insert_Suc [of a "insert b (insert c B)"] card_insert_Suc [of b "insert c B"] card_insert_Suc [of c B]
    card_insert_Suc [of a "insert b B"] card_insert_Suc [of b B] by linarith+

lemma bmap_direct:
  assumes f: "ftx p (i_dev (inodes s ip)) Map.empty B V s" and m: "bitmap_ok (sb s) (log_area (lg_start s)) V"
    and x: "file_ok (sb s) (log_area (lg_start s)) V (inodes s ip)" and c: "card B < LOGSIZE - 2"
    and k: "k < NDIRECT" "faddr V (inodes s ip) k = 0"
  shows "runs (bmap_slot ip k s) (\<lambda>r t. \<exists>B' W y. bmapped p ip k B V s r t B' W y)"
proof -
  let ?x = "inodes s ip" and ?b = "sb s" and ?A = "log_area (lg_start s)"
  have z: "i_addrs ?x ! k = 0" using k by (simp add: faddr_def)
  have kM: "k < MAXFILE" using k(1) by (simp add: MAXFILE_def)
  have "\<exists>B' W y. bmapped p ip k B V s r t B' W y"
    if t: "ikept s t" "n < fs_size ?b" "\<not> used ?b V n" "r = of_nat n" "r \<noteq> 0" "inodes t = (inodes s)(ip := ?x\<lparr>i_addrs := (i_addrs ?x)[k := r]\<rparr>)"
      "ftx p (i_dev ?x) Map.empty (insert r (insert (BBLOCK r ?b) B)) (alloc_view ?b V n) t" for r t n
  proof -
    let ?W = "alloc_view ?b V n" and ?y = "?x\<lparr>i_addrs := (i_addrs ?x)[k := r]\<rparr>"
    note n = m t(2,3)
    have g: "grows ?b ?A {i_addrs ?x ! NDIRECT} V ?W" using grows_trans [OF grows_alloc [OF n] grows_refl [OF alloc_view_ok(2) [OF n]]] by simp
    have g0: "grows ?b ?A ({i_addrs ?x ! NDIRECT} - {0}) V ?W" using grows_alloc [OF n] unfolding grows_def by blast
    have ind: "i_addrs ?x ! NDIRECT \<noteq> 0 \<Longrightarrow> owned ?b ?A ?W (i_addrs ?x ! NDIRECT)"
      using owned_grows [OF file_okD(2) [OF x] grows_alloc [OF n]] by simp
    have fa: "faddr ?W ?y j = (if j = k then r else faddr V ?x j)" for j
      using growsD(3) [OF grows_alloc [OF n] owned_live [OF file_okD(2) [OF x]]]
      by (intro faddr_set_direct) (use file_okD(1) [OF x] k(1) in auto)
    have "file_ok ?b ?A ?W ?y"
      by (rule file_ok_add [OF x g, of ?y n k])
        (use file_okD(1) [OF x] k(1) ind owned_alloc [OF n] t alloc_view_ok(7) [OF n] fa in \<open>simp_all add: NDIRECT_def\<close>)
    moreover have "i_addrs ?y ! NDIRECT = i_addrs ?x ! NDIRECT" using k(1) by simp
    ultimately have "bmapped p ip k B V s r t (insert r (insert (BBLOCK r ?b) B)) ?W ?y"
      unfolding bmapped_def Let_def using t g0 fa k(2) card_insert3(2) [of r "BBLOCK r ?b" B] alloc_view_ok(3) [OF n] by auto
    then show ?thesis by blast
  qed
  moreover have "\<exists>B' W y. bmapped p ip k B V s 0 t B' W y" if "ikept s t" "\<forall>m<fs_size ?b. used ?b V m" "inodes t = inodes s" "ftx p (i_dev ?x) Map.empty B V t" for t
  proof -
    have "\<exists>as. ?x = ?x\<lparr>i_addrs := as\<rparr>" by (rule exI [of _ "i_addrs ?x"]) simp
    then have "bmapped p ip k B V s 0 t B V ?x" using that x m k(2) by (auto simp: bmapped_def Let_def grows_refl)
    then show ?thesis by blast
  qed
  ultimately show ?thesis by (intro runs_mono [OF bmap_slot_zero [OF f m z c]]) blast
qed

lemma bmap_indirect_new:
  assumes f: "ftx p (i_dev (inodes s ip)) Map.empty B V s" and m: "bitmap_ok (sb s) (log_area (lg_start s)) V"
    and x: "file_ok (sb s) (log_area (lg_start s)) V (inodes s ip)" and c: "card B < LOGSIZE - 4"
    and a: "i_addrs (inodes s ip) ! NDIRECT = a" "a \<noteq> 0" and i: "i < NINDIRECT" "faddr V (inodes s ip) (NDIRECT + i) = 0"
  shows "runs (bmap_indirect ip i a s) (\<lambda>r t. \<exists>B' W y. bmapped p ip (NDIRECT + i) B V s r t B' W y \<and> card B' \<le> card B + 3)"
proof -
  let ?x = "inodes s ip" and ?b = "sb s" and ?A = "log_area (lg_start s)"
  have o: "owned ?b ?A V a" using file_okD(2) [OF x] a by simp
  have e: "get32 (4 * i) (V a) = 0" using a i(2) by (simp add: faddr_def)
  have as: "\<exists>as. ?x = ?x\<lparr>i_addrs := as\<rparr>" by (rule exI [of _ "i_addrs ?x"]) simp
  have new: "\<exists>B' W y. bmapped p ip (NDIRECT + i) B V s r t B' W y \<and> card B' \<le> card B + 3"
    if t: "fkept s t" "n < fs_size ?b" "\<not> used ?b V n" "r = of_nat n" "r \<noteq> 0"
      "ftx p (i_dev ?x) Map.empty (insert a (insert r (insert (BBLOCK r ?b) B))) ((alloc_view ?b V n)(a := put32 (4 * i) r (alloc_view ?b V n a))) t"
    for r t n
  proof -
    let ?W = "(alloc_view ?b V n)(a := put32 (4 * i) r (alloc_view ?b V n a))"
    note w = file_ok_put_indirect [OF x a m t(2,3) i(1), folded t(4)]
    have C: "{i_addrs ?x ! NDIRECT} - {0} = {a}" using a by auto
    have "bmapped p ip (NDIRECT + i) B V s r t (insert a (insert r (insert (BBLOCK r ?b) B))) ?W ?x"
      unfolding bmapped_def Let_def C using t w as a(1) i(2) card_insert3(1) [of a r "BBLOCK r ?b" B] fkept_ikept fkept_fs(2) [OF t(1)] by auto
    then show ?thesis using card_insert3(1) [of a r "BBLOCK r ?b" B] by blast
  qed
  have same: "bmapped p ip (NDIRECT + i) B V s 0 t B V ?x" if "fkept s t" "\<forall>m<fs_size ?b. used ?b V m" "ftx p (i_dev ?x) Map.empty B V t" for t
    using bmapped_same [OF that(3,1) x m, of 0 "NDIRECT + i"] that(2) i(2) by simp
  show ?thesis
  proof (rule runs_mono [OF bmap_indirect_zero [OF f m o e c]], elim conjE disjE exE)
    fix r :: u32 and t assume "fkept s t" "r = 0" "\<forall>m<fs_size ?b. used ?b V m" "ftx p (i_dev ?x) Map.empty B V t"
    then have "bmapped p ip (NDIRECT + i) B V s r t B V ?x \<and> card B \<le> card B + 3" using same by simp
    then show "\<exists>B' W y. bmapped p ip (NDIRECT + i) B V s r t B' W y \<and> card B' \<le> card B + 3" by blast
  qed (rule new)
qed

text \<open>A new indirect block, then a new block behind it.\<close>

lemma bmapped_after_indirect:
  assumes m: "bitmap_ok (sb s) (log_area (lg_start s)) V" and x: "file_ok (sb s) (log_area (lg_start s)) V (inodes s ip)"
    and z: "i_addrs (inodes s ip) ! NDIRECT = 0" and n: "n < fs_size (sb s)" "\<not> used (sb s) V n"
    and t: "ikept s t" "inodes t = (inodes s)(ip := (inodes s ip)\<lparr>i_addrs := (i_addrs (inodes s ip))[NDIRECT := of_nat n]\<rparr>)"
    and u: "bmapped p ip (NDIRECT + i) B1 (alloc_view (sb s) V n) t r u B' W y" "card B1 \<le> card B + 2" "card B' \<le> card B1 + 3" "i < NINDIRECT"
  shows "bmapped p ip (NDIRECT + i) B V s r u B' W y"
proof -
  let ?x = "inodes s ip" and ?b = "sb s" and ?A = "log_area (lg_start s)" and ?U = "alloc_view (sb s) V n" and ?a = "of_nat n :: u32"
  let ?y = "?x\<lparr>i_addrs := (i_addrs ?x)[NDIRECT := ?a]\<rparr>"
  have k: "sb t = ?b" "lg_start t = lg_start s" using ikeptD [OF t(1)] by simp_all
  have ty: "inodes t ip = ?y" using t(2) by simp
  have ind: "i_addrs ?y ! NDIRECT = ?a" using file_okD(1) [OF x] by (simp add: NDIRECT_def)
  have fa: "faddr ?U ?y j = faddr V ?x j" for j
    by (rule faddr_set_indirect) (use file_okD(1) [OF x] z alloc_view_ok(3) [OF m n] in auto)
  have fz: "faddr V ?x (NDIRECT + i) = 0" using z by (simp add: faddr_def)
  note b = u(1) [unfolded bmapped_def Let_def k ty ind fa fz]
  have "grows ?b ?A {?a} V W" using grows_trans [OF grows_alloc [OF m n], of "{?a}" W] b alloc_view_ok(7) [OF m n] by simp
  then have "grows ?b ?A {} V W" by (rule grows_fresh [of ?b ?A ?a "{}" V W n]) (use n in simp_all)
  then have g: "grows ?b ?A ({i_addrs ?x ! NDIRECT} - {0}) V W" unfolding grows_def by blast
  have iy: "inodes u = (inodes s)(ip := y)" using b t(2) by simp
  have d: "i_dev ?y = i_dev ?x" by simp
  have "\<exists>as. y = ?x\<lparr>i_addrs := as\<rparr>" using b by auto
  moreover have "\<not> used ?b V q" if "q < fs_size ?b" "\<not> used ?b ?U q" for q using alloc_view_ok(1) [OF m n that(1)] that(2) by simp
  moreover have "i_addrs y ! NDIRECT = ?a \<or> (\<exists>q<fs_size ?b. i_addrs y ! NDIRECT = of_nat q \<and> \<not> used ?b ?U q)" using b by blast
  ultimately have "\<exists>q<fs_size ?b. i_addrs y ! NDIRECT = of_nat q \<and> \<not> used ?b V q" using n by blast
  moreover note \<open>\<exists>as. y = ?x\<lparr>i_addrs := as\<rparr>\<close> \<open>\<And>q. q < fs_size ?b \<Longrightarrow> \<not> used ?b ?U q \<Longrightarrow> \<not> used ?b V q\<close>
  ultimately show ?thesis unfolding bmapped_def Let_def using b g iy fz u(2,3) ikept_trans [OF t(1)] d by auto
qed

lemma bmap_spec:
  assumes f: "ftx p (i_dev (inodes s ip)) Map.empty B V s" and m: "bitmap_ok (sb s) (log_area (lg_start s)) V"
    and x: "file_ok (sb s) (log_area (lg_start s)) V (inodes s ip)" and c: "card B < LOGSIZE - 6" and k: "k < MAXFILE"
  shows "runs (bmap ip (of_nat k) s) (\<lambda>r t. \<exists>B' W y. bmapped p ip k B V s r t B' W y)"
proof -
  let ?x = "inodes s ip" and ?b = "sb s" and ?A = "log_area (lg_start s)"
  consider "faddr V ?x k \<noteq> 0" | "faddr V ?x k = 0" "k < NDIRECT" | i where "faddr V ?x k = 0" "k = NDIRECT + i" "i < NINDIRECT"
    using k le_Suc_ex [of NDIRECT k] by (cases "k < NDIRECT") (auto simp: MAXFILE_def)
  then show ?thesis
  proof cases
    case 1
    have "card B < NBUF" using c by simp
    from bmap_present [OF f this k 1] show ?thesis by (rule runs_mono) (use bmapped_same [OF _ _ x m] 1 in blast)
  next
    case 2
    then show ?thesis using bmap_direct [OF f m x _ 2(2,1)] c k by (simp add: bmap_cases unat_block_number)
  next
    case (3 i)
    have code: "bmap ip (of_nat k) s = bnd (bmap_slot ip NDIRECT s) (\<lambda>addr s. if addr = 0 then Ok 0 s else bmap_indirect ip i addr s)"
    proof -
      have e: "k - NDIRECT = i" "\<not> k < NDIRECT" using 3(2) by simp_all
      then show ?thesis using 3(3) unfolding bmap_cases unat_block_number [OF k] e(1) by simp
    qed
    show ?thesis
    proof (cases "i_addrs ?x ! NDIRECT = 0")
      case False
      then show ?thesis unfolding code using bmap_indirect_new [OF f m x _ refl False 3(3)] 3(1,2) c
        by (simp add: bmap_slot_def) (auto elim!: runs_mono)
    next
      case True
      have c2: "card B < LOGSIZE - 2" using c by simp
      have "runs (if a = 0 then Ok 0 t else bmap_indirect ip i a t) (\<lambda>r u. \<exists>B' W y. bmapped p ip k B V s r u B' W y)"
        if t: "ikept s t" "a = 0 \<and> (\<forall>m<fs_size ?b. used ?b V m) \<and> inodes t = inodes s \<and> ftx p (i_dev ?x) Map.empty B V t \<or>
          (\<exists>n<fs_size ?b. \<not> used ?b V n \<and> a = of_nat n \<and> a \<noteq> 0 \<and> inodes t = (inodes s)(ip := ?x\<lparr>i_addrs := (i_addrs ?x)[NDIRECT := a]\<rparr>) \<and>
            ftx p (i_dev ?x) Map.empty (insert a (insert (BBLOCK a ?b) B)) (alloc_view ?b V n) t)" for a t
        using t(2)
      proof (elim disjE exE conjE)
        assume z: "a = 0" "\<forall>m<fs_size ?b. used ?b V m" "inodes t = inodes s" "ftx p (i_dev ?x) Map.empty B V t"
        have "\<exists>as. ?x = ?x\<lparr>i_addrs := as\<rparr>" by (rule exI [of _ "i_addrs ?x"]) simp
        then have "bmapped p ip k B V s 0 t B V ?x" using t(1) z x m 3(1) by (auto simp: bmapped_def Let_def grows_refl)
        then show ?thesis using z by auto
      next
        fix n assume n: "n < fs_size ?b" "\<not> used ?b V n" "a = of_nat n" "a \<noteq> 0" "inodes t = (inodes s)(ip := ?x\<lparr>i_addrs := (i_addrs ?x)[NDIRECT := a]\<rparr>)"
          "ftx p (i_dev ?x) Map.empty (insert a (insert (BBLOCK a ?b) B)) (alloc_view ?b V n) t"
        let ?y = "?x\<lparr>i_addrs := (i_addrs ?x)[NDIRECT := a]\<rparr>" and ?B = "insert a (insert (BBLOCK a ?b) B)" and ?U = "alloc_view ?b V n"
        have k': "sb t = ?b" "lg_start t = lg_start s" using ikeptD [OF t(1)] by simp_all
        have ty: "inodes t ip = ?y" "i_addrs ?y ! NDIRECT = a" using n(5) file_okD(1) [OF x] by (simp_all add: NDIRECT_def)
        have cB: "card ?B \<le> card B + 2" by (rule card_insert3)
        have fz: "faddr ?U ?y (NDIRECT + i) = 0"
          using ty(2) n(4) alloc_view_ok(3) [OF m n(1,2)] n(3) by (simp add: faddr_def get32_zeros)
        have "runs (bmap_indirect ip i a t) (\<lambda>r u. \<exists>B' W y. bmapped p ip (NDIRECT + i) ?B ?U t r u B' W y \<and> card B' \<le> card ?B + 3)"
          by (rule bmap_indirect_new)
            (use n ty k' cB c 3(3) alloc_view_ok(2) [OF m n(1,2)] file_ok_new_indirect [OF x True m n(1,2)] fz in simp_all)
        then have "runs (bmap_indirect ip i a t) (\<lambda>r u. \<exists>B' W y. bmapped p ip (NDIRECT + i) B V s r u B' W y)"
          by (rule runs_mono) (use bmapped_after_indirect [OF m x True n(1,2) t(1) n(5) [unfolded n(3)]] cB 3(3) in blast)
        then show ?thesis using n(4) 3(2) by simp
      qed
      then show ?thesis unfolding code by (intro runs_bndI [OF bmap_slot_zero [OF f m True c2]]) blast
    qed
  qed
qed

section \<open>Reading\<close>

text \<open>The byte at offset \<open>i\<close> of a file, and \<open>n\<close> bytes from \<open>off\<close> on.\<close>

definition fbyte :: "(u32 \<Rightarrow> u8 list) \<Rightarrow> inode \<Rightarrow> nat \<Rightarrow> u8" where
  "fbyte V x i = V (faddr V x (i div BSIZE)) ! (i mod BSIZE)"

definition fbytes :: "(u32 \<Rightarrow> u8 list) \<Rightarrow> inode \<Rightarrow> nat \<Rightarrow> nat \<Rightarrow> u8 list" where
  "fbytes V x off n = map (fbyte V x) [off..<off + n]"

text \<open>The bytes from \<open>off\<close> on, \<open>n\<close> of them, have blocks.\<close>

definition backed :: "(u32 \<Rightarrow> u8 list) \<Rightarrow> inode \<Rightarrow> nat \<Rightarrow> nat \<Rightarrow> bool" where
  "backed V x off n \<longleftrightarrow> (\<forall>i<n. faddr V x ((off + i) div BSIZE) \<noteq> 0)"

lemma fbytes_append: "fbytes V x off (m + n) = fbytes V x off m @ fbytes V x (off + m) n"
  by (simp add: fbytes_def upt_add_eq_append [of off "off + m" n] add.assoc [symmetric])

lemma in_block:
  assumes "off mod BSIZE + i < BSIZE"
  shows "(off + i) div BSIZE = off div BSIZE" "(off + i) mod BSIZE = off mod BSIZE + i"
proof -
  have "i < BSIZE - off mod BSIZE" using assms by linarith
  then show "(off + i) div BSIZE = off div BSIZE" by (rule same_div)
  show "(off + i) mod BSIZE = off mod BSIZE + i" using assms mod_add_left_eq [of off BSIZE i] by simp
qed

lemma fbytes_chunk:
  assumes "off mod BSIZE + m \<le> BSIZE" "length (V (faddr V x (off div BSIZE))) = BSIZE"
  shows "take m (drop (off mod BSIZE) (V (faddr V x (off div BSIZE)))) = fbytes V x off m"
proof (rule nth_equalityI)
  show "length (take m (drop (off mod BSIZE) (V (faddr V x (off div BSIZE))))) = length (fbytes V x off m)"
    using assms by (simp add: fbytes_def)
  fix i assume "i < length (take m (drop (off mod BSIZE) (V (faddr V x (off div BSIZE)))))"
  then have i: "i < m" "off mod BSIZE + i < BSIZE" using assms by simp_all
  from in_block [OF this(2)] show "take m (drop (off mod BSIZE) (V (faddr V x (off div BSIZE)))) ! i = fbytes V x off m ! i"
    using i(1) assms(2) i(2) by (simp add: fbytes_def fbyte_def)
qed

lemma block_number:
  fixes off :: u32
  assumes "unat off < MAXFILE * BSIZE"
  shows "off div of_nat BSIZE = of_nat (unat off div BSIZE)" "unat off div BSIZE < MAXFILE"
proof -
  show "off div of_nat BSIZE = of_nat (unat off div BSIZE)" by (simp add: word_arith_nat_div)
  show "unat off div BSIZE < MAXFILE" using assms by (simp add: less_mult_imp_div_less)
qed

text \<open>One round of the loops: the bytes that remain, and the offsets, do not wrap around.\<close>

lemma chunk_round:
  assumes "tot < n" "unat off + unat (n - tot) \<le> MAXFILE * BSIZE"
  defines "m \<equiv> block_chunk off (n - tot)"
  shows "0 < unat m" "unat m \<le> unat (n - tot)" "unat off mod BSIZE + unat m \<le> BSIZE" "unat (off + m) = unat off + unat m"
    "unat (n - (tot + m)) = unat (n - tot) - unat m" "unat off < MAXFILE * BSIZE" "tot + m \<le> n" "unat (tot + m) = unat tot + unat m"
proof -
  have mM: "MAXFILE * BSIZE < 2 ^ 32" by (simp add: MAXFILE_def NDIRECT_def NINDIRECT_def)
  show p: "0 < unat m" unfolding m_def by (rule block_chunk_progress [OF assms(1)])
  have "unat off mod BSIZE < BSIZE" by simp
  then show l: "unat m \<le> unat (n - tot)" "unat off mod BSIZE + unat m \<le> BSIZE" unfolding m_def unat_block_chunk by linarith+
  show "unat (off + m) = unat off + unat m" using l assms(2) mM by (subst unat_add_lem [THEN iffD1]) simp_all
  have nt: "unat (n - tot) = unat n - unat tot" "unat tot < unat n" using assms(1) by (simp_all add: unat_sub_if' word_less_nat_alt)
  have "unat n < 2 ^ 32" using unsigned_less [of n] by simp
  then show tm: "unat (tot + m) = unat tot + unat m" using l(1) nt by (subst unat_add_lem [THEN iffD1]) simp_all
  then show le: "tot + m \<le> n" using l(1) nt by (simp add: word_le_nat_alt)
  then show "unat (n - (tot + m)) = unat (n - tot) - unat m" using tm nt by (simp add: unat_sub_if' word_le_nat_alt)
  show "unat off < MAXFILE * BSIZE" using l p assms(2) by linarith
qed

lemma backed_chunk:
  assumes "backed V x off n" "m \<le> n"
  shows "backed V x (off + m) (n - m)" "0 < n \<Longrightarrow> faddr V x (off div BSIZE) \<noteq> 0"
proof -
  show "backed V x (off + m) (n - m)" using assms unfolding backed_def
  proof (intro allI impI)
    fix i assume "\<forall>i<n. faddr V x ((off + i) div BSIZE) \<noteq> 0" "i < n - m"
    then have "faddr V x ((off + (m + i)) div BSIZE) \<noteq> 0" by auto
    then show "faddr V x ((off + m + i) div BSIZE) \<noteq> 0" by (simp add: add.assoc)
  qed
  show "0 < n \<Longrightarrow> faddr V x (off div BSIZE) \<noteq> 0" using assms(1) by (auto simp: backed_def dest: spec [of _ 0])
qed

text \<open>Destinations of a read: how a transfer to user memory splits.\<close>

lemma ulen_add: "ulen m pt va (k + j) = (if ulen m pt va k = k then k + ulen m pt (va + of_nat k) j else ulen m pt va k)"
  by (induction k arbitrary: va) (simp_all add: ulen_Suc add.assoc)

lemma pt_safe_drop: "pt_safe m pt va n \<Longrightarrow> k \<le> n \<Longrightarrow> pt_safe m pt (va + of_nat k) (n - k)"
  unfolding pt_safe_def
proof (intro allI impI)
  fix i j assume a: "\<forall>i<n. \<forall>j<n. uaddr m pt (va + of_nat i) \<notin> pt_cells m (PGROUNDDOWN (va + of_nat j)) 3 pt" "k \<le> n" "i < n - k" "j < n - k"
  have "va + of_nat k + of_nat l = va + of_nat (k + l)" for l by (simp add: add.assoc)
  moreover have "k + i < n" "k + j < n" using a by simp_all
  ultimately show "uaddr m pt (va + of_nat k + of_nat i) \<notin> pt_cells m (PGROUNDDOWN (va + of_nat k + of_nat j)) 3 pt"
    using a(1) by presburger
qed

lemma ustore_split: "ustore m0 pt va (xs @ ys) m = ustore m0 pt (va + of_nat (length xs)) ys (ustore m0 pt va xs m)"
  unfolding ustore_def by (simp add: store_at_append add.assoc)

lemma store_bytes_split: "store_bytes a (xs @ ys) m = store_bytes (a + of_nat (length xs)) ys (store_bytes a xs m)"
  by (induction xs arbitrary: a m) (simp_all add: add.assoc)

lemma ustore_cells:
  assumes "pt_safe m0 pt va n" "length xs \<le> n" "j < n" "b \<in> pt_cells m0 (PGROUNDDOWN (va + of_nat j)) 3 pt"
  shows "ustore m0 pt va xs m b = m b"
  unfolding ustore_def by (rule store_at_other) (use assms in \<open>auto simp: pt_safe_def\<close>)

lemma either_copyout_eq:
  assumes "settled s" "c_proc (cpus s (tp s)) = Some p" "p_pagetable (procs s p) = pt"
    and "user \<Longrightarrow> pt_safe m0 pt dst (length xs)"
    and "\<And>j b. user \<Longrightarrow> j < length xs \<Longrightarrow> b \<in> pt_cells m0 (PGROUNDDOWN (dst + of_nat j)) 3 pt \<Longrightarrow> mem s b = m0 b"
  shows "either_copyout ap user dst xs km s =
    Ok (if user \<and> ulen m0 pt dst (length xs) \<noteq> length xs then - 1 else 0, if user then km else store_bytes dst xs km)
      (s\<lparr>mem := if user then ustore m0 pt dst (take (ulen m0 pt dst (length xs)) xs) (mem s) else mem s\<rparr>)"
  using assms copyout_from [of m0 pt dst xs s ap] this_proc_settled [OF assms(1)] by (cases user) (simp_all add: either_copyout_def)

lemma ftx_mem [simp]: "ftx p D H B V (s\<lparr>mem := M\<rparr>) = ftx p D H B V s"
proof -
  have "quiet p (s\<lparr>mem := M\<rparr>) = quiet p s" by (rule quiet_cong) simp_all
  then show ?thesis by (simp add: ftx_def cache_def is_at_def)
qed

lemma fkept_mem:
  fixes s t :: "'a fs_st_scheme"
  assumes "fkept s t"
  shows "fkept (s\<lparr>mem := M\<rparr>) (t\<lparr>mem := M\<rparr>)"
proof -
  let ?u = "s\<lparr>klog := klog t, lh_n := lh_n t, lh_block := lh_block t\<rparr>"
  let ?v = "t\<lparr>procs := procs ?u, sleeplocks := sleeplocks ?u, bufs := bufs ?u, blinks := blinks ?u, disk := disk ?u, dwrites := dwrites ?u\<rparr>"
  have k: "kept ?u t" using assms by (simp add: fkept_def)
  then have e: "?v = ?u" unfolding kept_def by blast
  have m: "t\<lparr>mem := M, procs := a, sleeplocks := b, bufs := c, blinks := d, disk := f, dwrites := g\<rparr> =
      t\<lparr>procs := a, sleeplocks := b, bufs := c, blinks := d, disk := f, dwrites := g, mem := M\<rparr>" for a b c d f g
    by simp
  have "?v\<lparr>mem := M\<rparr> = ?u\<lparr>mem := M\<rparr>" unfolding e ..
  then have "kept (?u\<lparr>mem := M\<rparr>) (t\<lparr>mem := M\<rparr>)" using k unfolding kept_def by (simp add: m)
  moreover have cm: "s\<lparr>mem := M, klog := klog t, lh_n := lh_n t, lh_block := lh_block t\<rparr> = ?u\<lparr>mem := M\<rparr>" by simp
  ultimately show ?thesis using assms by (simp add: fkept_def cm)
qed

text \<open>
  What a read of the bytes \<open>xs\<close> leaves, from a state with memory \<open>m\<close> and kernel object \<open>km\<close>: a user
  destination gets the bytes up to the first page that is not mapped, a kernel destination all of them.
\<close>

definition dst_room :: "bytes \<Rightarrow> u64 \<Rightarrow> bool \<Rightarrow> u64 \<Rightarrow> nat \<Rightarrow> nat" where
  "dst_room m0 pt user dst n = (if user then ulen m0 pt dst n else n)"

definition received :: "bytes \<Rightarrow> u64 \<Rightarrow> bool \<Rightarrow> u64 \<Rightarrow> u8 list \<Rightarrow> bytes \<Rightarrow> bytes \<Rightarrow> bytes \<Rightarrow> bytes \<Rightarrow> bool" where
  "received m0 pt user dst xs m km m' km' \<longleftrightarrow>
     (if user then m' = ustore m0 pt dst xs m \<and> km' = km else m' = m \<and> km' = store_bytes dst xs km)"

lemma received_split:
  assumes "received m0 pt user dst xs m km m' km'" "received m0 pt user (dst + of_nat (length xs)) ys m' km' m'' km''"
  shows "received m0 pt user dst (xs @ ys) m km m'' km''"
  using assms by (auto simp: received_def ustore_split store_bytes_split split: if_splits)

definition dest_ok :: "bytes \<Rightarrow> u64 \<Rightarrow> bool \<Rightarrow> u64 \<Rightarrow> nat \<Rightarrow> bytes \<Rightarrow> bool" where
  "dest_ok m0 pt user dst n m \<longleftrightarrow> (user \<longrightarrow> pt_safe m0 pt dst n \<and>
     (\<forall>j<n. \<forall>b \<in> pt_cells m0 (PGROUNDDOWN (dst + of_nat j)) 3 pt. m b = m0 b))"

lemma dest_ok_step:
  assumes "dest_ok m0 pt user dst n m" "received m0 pt user dst xs m km m' km'" "length xs \<le> n"
  shows "dest_ok m0 pt user (dst + of_nat (length xs)) (n - length xs) m'"
  unfolding dest_ok_def
proof (intro impI conjI allI ballI)
  assume u: user
  then have s: "pt_safe m0 pt dst n" "m' = ustore m0 pt dst xs m" using assms(1,2) by (simp_all add: dest_ok_def received_def)
  show "pt_safe m0 pt (dst + of_nat (length xs)) (n - length xs)" by (rule pt_safe_drop [OF s(1) assms(3)])
  fix j b assume j: "j < n - length xs" and b: "b \<in> pt_cells m0 (PGROUNDDOWN (dst + of_nat (length xs) + of_nat j)) 3 pt"
  have "b \<in> pt_cells m0 (PGROUNDDOWN (dst + of_nat (length xs + j))) 3 pt" using b by (simp add: add.assoc)
  moreover have "length xs + j < n" using j by simp
  ultimately show "m' b = m0 b" using ustore_cells [OF s(1) assms(3)] u assms(1) s(2) unfolding dest_ok_def by metis
qed

lemma either_copyout_received:
  assumes "quiet p s" "p_pagetable (procs s p) = pt" "dest_ok m0 pt user dst n (mem s)" "length xs \<le> n" "k = dst_room m0 pt user dst (length xs)"
  shows "\<exists>M km'. either_copyout ap user dst xs km s = Ok (if k = length xs then 0 else - 1, km') (s\<lparr>mem := M\<rparr>) \<and>
    received m0 pt user dst (take k xs) (mem s) km M km'"
proof -
  have d: "user \<Longrightarrow> pt_safe m0 pt dst (length xs)" using assms(3,4) pt_safe_mono by (auto simp: dest_ok_def)
  have "user \<Longrightarrow> j < length xs \<Longrightarrow> b \<in> pt_cells m0 (PGROUNDDOWN (dst + of_nat j)) 3 pt \<Longrightarrow> mem s b = m0 b" for j b
    using assms(3,4) unfolding dest_ok_def by (meson order_less_le_trans)
  from either_copyout_eq [where ap = ap and km = km, OF quietD(1) [OF assms(1)] _ assms(2) d this] show ?thesis
    using quietD [OF assms(1)] assms(5) by (cases user) (auto simp: dst_room_def received_def)
qed

lemma dst_room_split:
  "dst_room m0 pt user dst (k + j) = (if dst_room m0 pt user dst k = k then k + dst_room m0 pt user (dst + of_nat k) j else dst_room m0 pt user dst k)"
  by (simp add: dst_room_def ulen_add)

lemma dst_room_le: "dst_room m0 pt user dst n \<le> n"
  by (simp add: dst_room_def ulen_le)

text \<open>The state and the value returned after a read of \<open>xs\<close>.\<close>

definition read_end :: "nat \<Rightarrow> u32 \<Rightarrow> u32 set \<Rightarrow> (u32 \<Rightarrow> u8 list) \<Rightarrow> bytes \<Rightarrow> bool \<Rightarrow> u64 \<Rightarrow> u8 list \<Rightarrow> int \<Rightarrow> bytes \<Rightarrow>
    'a fs_st_scheme \<Rightarrow> int \<Rightarrow> bytes \<Rightarrow> 'a fs_st_scheme \<Rightarrow> bool" where
  "read_end p D B V m0 user dst xs n km s r km' t \<longleftrightarrow>
     (let pt = p_pagetable (procs s p); k = dst_room m0 pt user dst (length xs)
      in r = (if k = length xs then n else - 1) \<and> received m0 pt user dst (take k xs) (mem s) km (mem t) km' \<and>
         fkept (s\<lparr>mem := mem t\<rparr>) t \<and> ftx p D Map.empty B V t)"

lemma fkept_pagetable: "fkept s t \<Longrightarrow> p_pagetable (procs t p) = p_pagetable (procs s p)"
  using fkeptD(12) [of s t p] by auto

lemma read_end_step:
  assumes v: "received m0 (p_pagetable (procs s p)) user dst xs (mem s) km (mem v) km'" "fkept (s\<lparr>mem := mem v\<rparr>) v"
    and k: "dst_room m0 (p_pagetable (procs s p)) user dst (length xs) = length xs"
    and e: "read_end p D B V m0 user (dst + of_nat (length xs)) ys n km' v r km'' t"
  shows "read_end p D B V m0 user dst (xs @ ys) n km s r km'' t"
proof -
  have pt: "p_pagetable (procs v p) = p_pagetable (procs s p)" using fkept_pagetable [OF v(2), of p] by simp
  let ?pt = "p_pagetable (procs s p)"
  let ?k = "dst_room m0 ?pt user (dst + of_nat (length xs)) (length ys)"
  note e = e [unfolded read_end_def Let_def pt]
  have r: "dst_room m0 ?pt user dst (length (xs @ ys)) = length xs + ?k" by (simp add: dst_room_split k)
  have "fkept (s\<lparr>mem := mem v\<rparr>\<lparr>mem := mem t\<rparr>) (v\<lparr>mem := mem t\<rparr>)" by (rule fkept_mem [OF v(2)])
  then have "fkept (s\<lparr>mem := mem t\<rparr>) t" using fkept_trans e by fastforce
  moreover have "received m0 ?pt user dst (xs @ take ?k ys) (mem s) km (mem t) km''"
    using received_split [OF v(1)] e by blast
  ultimately show ?thesis unfolding read_end_def Let_def r using e by simp
qed

text \<open>One turn of the loop.\<close>

lemma readi_round:
  assumes "ftx p (i_dev (inodes s ip)) Map.empty B V s" "file_ok (sb s) (log_area (lg_start s)) V (inodes s ip)" "card B < NBUF"
    and "tot < n" "unat off + unat (n - tot) \<le> MAXFILE * BSIZE" "backed V (inodes s ip) (unat off) (unat (n - tot))"
    and "dest_ok m0 (p_pagetable (procs s p)) user dst (unat (n - tot)) (mem s)"
    and "m = block_chunk off (n - tot)" "xs = fbytes V (inodes s ip) (unat off) (unat m)"
    and "l = dst_room m0 (p_pagetable (procs s p)) user dst (length xs)"
  shows "\<exists>v km'. readi_loop ap ip user dst km off n tot s =
      (if l = length xs then readi_loop ap ip user (dst + ucast m) km' (off + m) n (tot + m) v else Ok (- 1, km') v) \<and>
    received m0 (p_pagetable (procs s p)) user dst (take l xs) (mem s) km (mem v) km' \<and> fkept (s\<lparr>mem := mem v\<rparr>) v \<and>
    ftx p (i_dev (inodes s ip)) Map.empty B V v"
proof -
  let ?x = "inodes s ip" and ?pt = "p_pagetable (procs s p)" and ?a = "faddr V (inodes s ip) (unat off div BSIZE)"
  note c = chunk_round [OF assms(4,5), folded assms(8)]
  note bn = block_number [OF c(6)]
  have a: "?a \<noteq> 0" using backed_chunk(2) [OF assms(6)] c(1,2) by simp
  have o: "length (V ?a) = BSIZE" using file_okD(3) [OF assms(2) bn(2) a] by (simp add: owned_def)
  have xs: "take (unat m) (drop (unat off mod BSIZE) (V ?a)) = xs" unfolding assms(9) by (rule fbytes_chunk) (use c(3) o in simp_all)
  have lx: "length xs = unat m" by (simp add: assms(9) fbytes_def)
  obtain t where t: "bmap ip (off div of_nat BSIZE) s = Ok ?a t" "fkept s t" "ftx p (i_dev ?x) Map.empty B V t"
    using bmap_present [OF assms(1,3) bn(2) a] unfolding bn(1) by (auto simp: runs_iff)
  have h: "?a \<notin> ran Map.empty" "card B + card (dom (Map.empty :: nat \<rightharpoonup> u32)) < NBUF" using assms(3) by simp_all
  obtain j u where u: "bread (i_dev ?x) ?a t = Ok j u" "j \<notin> dom (Map.empty :: nat \<rightharpoonup> u32)" "buf_data j u = V ?a"
    "ftx p (i_dev ?x) (Map.empty(j \<mapsto> ?a)) B V u" "fkept t u" "?a \<in> B \<or> V ?a = disk u ?a" using lb.take [OF t(3) h] by (auto simp: runs_iff)
  have ku: "fkept s u" by (rule fkept_trans [OF t(2) u(5)])
  have mu: "mem u = mem s" "p_pagetable (procs u p) = ?pt" using fkeptD(8) [OF ku] fkept_pagetable [OF ku] by simp_all
  obtain M km' where e: "either_copyout ap user dst xs km u = Ok (if l = length xs then 0 else - 1, km') (u\<lparr>mem := M\<rparr>)"
    "received m0 ?pt user dst (take l xs) (mem s) km M km'"
    using either_copyout_received [OF ftx_quiet [OF u(4)] mu(2), of m0 user dst "unat (n - tot)" xs l ap km] assms(7,10) c(2) lx mu(1) by auto
  have uM: "ftx p (i_dev ?x) (Map.empty(j \<mapsto> ?a)) B V (u\<lparr>mem := M\<rparr>)" using u(4) by simp
  obtain v where v: "brelse j (u\<lparr>mem := M\<rparr>) = Ok () v" "ftx p (i_dev ?x) Map.empty B V v" "fkept (u\<lparr>mem := M\<rparr>) v"
    using lb.give [where H = Map.empty, OF uM u(2)] u(6) by (auto simp: runs_iff)
  have mv: "mem v = M" using fkeptD(8) [OF v(3)] by simp
  have "fkept (s\<lparr>mem := mem v\<rparr>) v" unfolding mv by (rule fkept_trans [OF fkept_mem [OF ku] v(3)])
  moreover have "inodes t = inodes s" by (rule fkept_fs(2) [OF t(2)])
  then have "readi_loop ap ip user dst km off n tot s =
      (if l = length xs then readi_loop ap ip user (dst + ucast m) km' (off + m) n (tot + m) v else Ok (- 1, km') v)"
    using assms(4) a t(1) u(1,3) e(1) v(1) by (subst readi_loop.simps) (simp add: assms(8) [symmetric] xs Let_def)
  ultimately show ?thesis using e(2) v(2) mv by blast
qed

lemma readi_loop_spec:
  assumes "ftx p (i_dev (inodes s ip)) Map.empty B V s" "file_ok (sb s) (log_area (lg_start s)) V (inodes s ip)" "card B < NBUF"
    and "tot \<le> n" "unat off + unat (n - tot) \<le> MAXFILE * BSIZE" "backed V (inodes s ip) (unat off) (unat (n - tot))"
    and "dest_ok m0 (p_pagetable (procs s p)) user dst (unat (n - tot)) (mem s)"
  shows "runs (readi_loop ap ip user dst km off n tot s) (\<lambda>(r, km') t.
    read_end p (i_dev (inodes s ip)) B V m0 user dst (fbytes V (inodes s ip) (unat off) (unat (n - tot))) (sint n) km s r km' t)"
  using assms
proof (induction "unat (n - tot)" arbitrary: tot off dst km s rule: less_induct)
  case less
  let ?x = "inodes s ip" and ?pt = "p_pagetable (procs s p)"
  show ?case
  proof (cases "tot < n")
    case False
    then have "tot = n" using less.prems(4) by simp
    then show ?thesis using less.prems(1)
      by (subst readi_loop.simps) (simp add: fbytes_def read_end_def dst_room_def received_def ustore_def)
  next
    case True
    define m where "m = block_chunk off (n - tot)"
    note c = chunk_round [OF True less.prems(5), folded m_def]
    define xs where "xs = fbytes V ?x (unat off) (unat m)"
    have um: "ucast m = (of_nat (length xs) :: u64)" "length xs = unat m" by (simp_all add: xs_def fbytes_def)
    define l where "l = dst_room m0 ?pt user dst (length xs)"
    obtain v km' where v: "readi_loop ap ip user dst km off n tot s =
        (if l = length xs then readi_loop ap ip user (dst + ucast m) km' (off + m) n (tot + m) v else Ok (- 1, km') v)"
      "received m0 ?pt user dst (take l xs) (mem s) km (mem v) km'" "fkept (s\<lparr>mem := mem v\<rparr>) v" "ftx p (i_dev ?x) Map.empty B V v"
      using readi_round [OF less.prems(1-3) True less.prems(5-7) m_def xs_def l_def] by blast
    note iv = fkept_fs [OF v(3)] fkeptD(3) [OF v(3)]
    have fb: "fbytes V ?x (unat off) (unat (n - tot)) = xs @ fbytes V ?x (unat (off + m)) (unat (n - (tot + m)))"
      using fbytes_append [of V ?x "unat off" "unat m" "unat (n - tot) - unat m"] c(2,4,5) by (simp add: xs_def)
    show ?thesis
    proof (cases "l = length xs")
      case full: True
      then have rv: "received m0 ?pt user dst xs (mem s) km (mem v) km'" using v(2) by simp
      have "dest_ok m0 (p_pagetable (procs v p)) user (dst + ucast m) (unat (n - (tot + m))) (mem v)"
        using dest_ok_step [OF less.prems(7) rv] c(2,5) um(2) fkept_pagetable [OF v(3), of p] unfolding um(1) by simp
      then have "runs (readi_loop ap ip user (dst + ucast m) km' (off + m) n (tot + m) v) (\<lambda>(r, km'') t.
          read_end p (i_dev (inodes v ip)) B V m0 user (dst + ucast m) (fbytes V (inodes v ip) (unat (off + m)) (unat (n - (tot + m)))) (sint n) km' v r km'' t)"
        using v(4) less.prems(2,3,5,6) c iv backed_chunk(1) [OF less.prems(6) c(2)] by (intro less.hyps) simp_all
      then show ?thesis using v(1) full read_end_step [OF rv v(3)] iv(2) unfolding fb um(1) l_def by (auto elim!: runs_mono)
    next
      case False
      then have "dst_room m0 ?pt user dst (length (xs @ ys)) = l" "l < length xs" for ys :: "u8 list"
        using dst_room_le [of m0 ?pt user dst "length xs"] unfolding l_def by (simp_all add: dst_room_split)
      then show ?thesis unfolding fb using v(1-4) False by (simp add: read_end_def Let_def)
    qed
  qed
qed

lemma sint_small: "unat (w :: u32) < 2 ^ 31 \<Longrightarrow> sint w = int (unat w)"
proof -
  have "sint (of_nat n :: u32) = int n" if "n < 2 ^ 31" for n using that by (simp add: signed_of_nat signed_take_bit_int_eq_self_iff)
  from this [of "unat w"] show "unat w < 2 ^ 31 \<Longrightarrow> sint w = int (unat w)" by simp
qed

text \<open>
  C10. \<open>readi\<close> delivers the bytes of the file: those from \<open>off\<close> on, as many as were asked for and as the
  file has, through direct and indirect blocks and across block boundaries. In kernel memory they are
  stored from \<open>dst\<close> on; in user memory at the addresses that the page table of the process gives, up to
  the first page that is not mapped, in which case the result is \<open>-1\<close>. No other byte of memory changes.
  An offset behind the end, or a range whose end wraps around, gives no bytes. No block, no inode and
  nothing else that the file system relies on changes.
\<close>

theorem readi_reads_file:
  fixes s :: "'a fs_st_scheme" and ip p :: nat and V :: "u32 \<Rightarrow> u8 list" and off n :: u32 and user :: bool and dst :: u64
  defines "x \<equiv> inodes s ip" and "pt \<equiv> p_pagetable (procs s p)"
  defines "xs \<equiv> (if off > i_size x \<or> off + n < off then [] else fbytes V x (unat off) (min (unat n) (unat (i_size x) - unat off)))"
  defines "k \<equiv> dst_room (mem s) pt user dst (length xs)"
  assumes "ftx p (i_dev x) Map.empty B V s" "file_ok (sb s) (log_area (lg_start s)) V x" "card B < NBUF"
    and "unat (i_size x) \<le> MAXFILE * BSIZE" "backed V x 0 (unat (i_size x))"
    and "user \<Longrightarrow> pt_safe (mem s) pt dst (unat n)"
  shows "runs (readi ap ip user dst km off n s) (\<lambda>(r, km') t. r = (if k = length xs then int (length xs) else - 1) \<and>
    received (mem s) pt user dst (take k xs) (mem s) km (mem t) km' \<and>
    fkept (s\<lparr>mem := mem t\<rparr>) t \<and> ftx p (i_dev x) Map.empty B V t)"
proof (cases "off > i_size x \<or> off + n < off")
  case True
  then show ?thesis using assms(5) by (simp add: readi_def x_def Let_def xs_def k_def dst_room_def received_def ustore_def)
next
  case False
  define m where "m = (if off + n > i_size x then i_size x - off else n)"
  have le: "unat off \<le> unat (i_size x)" using False by (simp add: word_le_nat_alt not_less)
  have ov: "unat (off + n) = unat off + unat n" using False by (simp add: not_less no_olen_add_nat unat_word_ariths)
  have m: "unat m = min (unat n) (unat (i_size x) - unat off)"
    using le ov by (auto simp: m_def word_less_nat_alt unat_sub_if' min_def)
  have M: "MAXFILE * BSIZE < 2 ^ 31" by (simp add: MAXFILE_def NDIRECT_def NINDIRECT_def)
  have sm: "sint m = int (unat m)" using m assms(8) M by (intro sint_small) linarith
  have xs: "xs = fbytes V (inodes s ip) (unat off) (unat (m - 0))" "length xs = unat m" using False m by (simp_all add: xs_def x_def fbytes_def)
  have "backed V x (unat off) (unat m)" using assms(9) m le unfolding backed_def
    by (intro allI impI) (auto dest!: spec [of _ "unat off + _"])
  moreover have "dest_ok (mem s) pt user dst (unat m) (mem s)"
    using pt_safe_mono [OF assms(10), of "unat m"] m by (auto simp: dest_ok_def)
  ultimately have "runs (readi_loop ap ip user dst km off m 0 s) (\<lambda>(r, km') t.
      read_end p (i_dev (inodes s ip)) B V (mem s) user dst xs (sint m) km s r km' t)"
    unfolding xs(1) using assms(5-8) m le by (intro readi_loop_spec) (simp_all add: x_def pt_def)
  moreover have "readi ap ip user dst km off n s = readi_loop ap ip user dst km off m 0 s"
    using False by (simp add: readi_def Let_def m_def x_def)
  moreover have "sint m = int (length xs)" using xs(2) sm by simp
  ultimately show ?thesis by (simp add: read_end_def Let_def x_def k_def pt_def split del: if_split)
qed

section \<open>Witnesses\<close>

lemma small_file_addr: "k < MAXFILE \<Longrightarrow> faddr V small_file k = (if k = 0 then 46 else 0)"
proof -
  have "i_addrs small_file ! j = (if j = 0 then 46 else 0)" if "j < 13" for j
    using that by (cases j) (simp_all add: small_file_def)
  then show ?thesis by (auto simp: faddr_def NDIRECT_def)
qed

lemma small_file_ok: "file_ok small_sb (log_area 2) small_disk small_file"
proof (rule file_okI)
  have "(46 :: u32) \<notin> log_area 2" by (rule outside_log) simp
  then have o: "owned small_sb (log_area 2) small_disk 46"
    using small_disk_used [of 46] by (auto simp: owned_def small_disk_def intro!: exI [of _ 46])
  show "length (i_addrs small_file) = 13" by (simp add: small_file_def)
  have i: "i_addrs small_file ! NDIRECT = 0" by (simp add: small_file_def NDIRECT_def)
  then show "i_addrs small_file ! NDIRECT \<noteq> 0 \<Longrightarrow> owned small_sb (log_area 2) small_disk (i_addrs small_file ! NDIRECT)" by simp
  show "owned small_sb (log_area 2) small_disk (faddr small_disk small_file k) \<and> faddr small_disk small_file k \<noteq> i_addrs small_file ! NDIRECT"
    if "k < MAXFILE" "faddr small_disk small_file k \<noteq> 0" for k
    using that o i by (auto simp: small_file_addr split: if_splits)
  show "j = k" if "j < MAXFILE" "k < MAXFILE" "faddr small_disk small_file j = faddr small_disk small_file k" "faddr small_disk small_file k \<noteq> 0" for j k
    using that by (auto simp: small_file_addr split: if_splits)
qed

lemma small_file_backed: "n \<le> BSIZE \<Longrightarrow> backed small_disk small_file 0 n"
proof -
  have "(0 :: nat) < MAXFILE" by (simp add: MAXFILE_def NDIRECT_def)
  then show "n \<le> BSIZE \<Longrightarrow> backed small_disk small_file 0 n" by (auto simp: backed_def small_file_addr)
qed

text \<open>The file on a machine whose process 0 has the two pages of \<open>two_pages\<close>.\<close>

definition user_machine :: fs_st where
  "user_machine = file_machine\<lparr>mem := mem two_pages, procs := \<lambda>i. (procs file_machine i)\<lparr>p_pagetable := 0x1000\<rparr>\<rparr>"

lemma user_machine_simps [simp]: "inodes user_machine 3 = small_file" "sb user_machine = small_sb" "lg_start user_machine = 2"
  "mem user_machine = mem two_pages" "p_pagetable (procs user_machine i) = 0x1000"
  by (simp_all add: user_machine_def)

lemma user_machine_ftx: "ftx 0 1 Map.empty {} small_disk user_machine"
proof -
  have "quiet p (s\<lparr>mem := m, procs := \<lambda>i. (procs s i)\<lparr>p_pagetable := x\<rparr>\<rparr>) = quiet p s" for p x m and s :: fs_st by (rule quiet_cong) simp_all
  then show ?thesis using file_machine_ftx by (simp add: user_machine_def ftx_def cache_def is_at_def)
qed

text \<open>Four bytes of the file, into a kernel object and into user memory across the boundary of two pages.\<close>

theorem readi_reads_file_witness:
  "runs (readi (\<lambda>_ s. Ok 0 s) 3 False 0x100 (\<lambda>_. 0) 1 4 user_machine)
     (\<lambda>(r, km) t. r = 4 \<and> km = store_bytes 0x100 [101, 108, 108, 111] (\<lambda>_. 0) \<and> mem t = mem user_machine) \<and>
   runs (readi (\<lambda>_ s. Ok 0 s) 3 True 0xFFE (\<lambda>_. 0) 1 4 user_machine)
     (\<lambda>(r, km) t. r = 4 \<and> mem t 0x5FFE = 101 \<and> mem t 0x5FFF = 108 \<and> mem t 0x7000 = 108 \<and> mem t 0x7001 = 111)"
proof -
  have e: "i_dev small_file = 1" "i_size small_file = 5" by (simp_all add: small_file_def)
  have M: "(0 :: nat) < MAXFILE" "5 \<le> MAXFILE * BSIZE" by (simp_all add: MAXFILE_def NDIRECT_def)
  have b: "fbytes small_disk small_file 1 4 = [101, 108, 108, 111]"
    using M(1) by (simp add: fbytes_def fbyte_def small_file_addr small_disk_def upt_rec nth_append)
  have l: "ulen (mem two_pages) 0x1000 0xFFE (Suc (Suc (Suc (Suc 0)))) = 4" using two_pages_range(3) ulen_all [of "mem two_pages" "0x1000" "0xFFE" 4] by (simp add: eval_nat_numeral)
  have u: "ustore (mem two_pages) 0x1000 0xFFE [101, 108, 108, 111] m a =
      (if a = 0x5FFE then 101 else if a = 0x5FFF then 108 else if a = 0x7000 then 108 else if a = 0x7001 then 111 else m a)" for m a
    using two_pages_range(2) [of 0] two_pages_range(2) [of 1] two_pages_range(2) [of 2] two_pages_range(2) [of 3] by (simp add: ustore_def)
  note r = readi_reads_file [where s = user_machine and ip = 3 and p = 0 and V = small_disk and B = "{}" and off = 1 and n = 4
      and ap = "\<lambda>_ s. Ok 0 s" and km = "\<lambda>_. 0", unfolded user_machine_simps e]
  show ?thesis
    using r [where user = False and dst = "0x100"] r [where user = True and dst = "0xFFE"] user_machine_ftx small_file_ok small_file_backed [of 5] M(2) b two_pages_safe(1) l
    by (auto simp: dst_room_def received_def u elim!: runs_mono)
qed

end
