(* ===== verification/File_Write.thy ===== *)
theory File_Write
  imports File_Data
begin

text \<open>
  Writing to files: \<open>writei\<close> of \<open>kernel/fs.c\<close> stores bytes of kernel or user memory into the blocks of
  a file, which it allocates as needed; \<open>readi\<close> reads them back.
\<close>

section \<open>Storing into a block of a file\<close>

lemma file_ok_data:
  assumes f: "file_ok b A V x" and k: "k < MAXFILE" "faddr V x k = a" "a \<noteq> 0" and m: "bitmap_ok b A V" and d: "length d = BSIZE"
  shows "file_ok b A (V(a := d)) x" "faddr (V(a := d)) x j = faddr V x j" "grows b A {a} V (V(a := d))"
    "i < MAXFILE * BSIZE \<Longrightarrow> faddr V x (i div BSIZE) \<noteq> 0 \<Longrightarrow>
      fbyte (V(a := d)) x i = (if i div BSIZE = k then d ! (i mod BSIZE) else fbyte V x i)"
proof -
  have o: "owned b A V a" "a \<noteq> i_addrs x ! NDIRECT" using file_okD(3,4) [OF f k(1)] k by auto
  show fa: "faddr (V(a := d)) x j = faddr V x j" for j using o(2) by (auto simp: faddr_def)
  have nb: "a \<notin> bitmap_blocks b" using o(1) by (simp add: owned_def)
  show g: "grows b A {a} V (V(a := d))" by (rule grows_write [OF m nb])
  have ow: "owned b A (V(a := d)) c" if "owned b A V c" for c
    using that d growsD(2) [OF g] unfolding owned_def by auto
  show "file_ok b A (V(a := d)) x"
    by (rule file_okI) (use file_okD [OF f] ow fa in auto)
  show "fbyte (V(a := d)) x i = (if i div BSIZE = k then d ! (i mod BSIZE) else fbyte V x i)"
    if "i < MAXFILE * BSIZE" "faddr V x (i div BSIZE) \<noteq> 0"
  proof -
    have "i div BSIZE < MAXFILE" using that(1) by (rule less_mult_imp_div_less)
    then have "i div BSIZE = k" if "faddr V x (i div BSIZE) = a" using file_okD(5) [OF f _ k(1), of "i div BSIZE"] that k(2,3) by simp
    then have "faddr V x (i div BSIZE) = a \<longleftrightarrow> i div BSIZE = k" using k(2) by blast
    then show ?thesis by (simp add: fbyte_def fa)
  qed
qed

text \<open>The blocks that a file owns.\<close>

definition fblocks :: "(u32 \<Rightarrow> u8 list) \<Rightarrow> inode \<Rightarrow> u32 set" where
  "fblocks V x = {a. a \<noteq> 0 \<and> (a = i_addrs x ! NDIRECT \<or> (\<exists>k<MAXFILE. a = faddr V x k))}"

lemma grows_restrict:
  assumes "grows b A C V W" "\<And>c. c \<in> C \<Longrightarrow> live b V c \<Longrightarrow> c \<in> C'"
  shows "grows b A C' V W"
  using assms unfolding grows_def by blast

text \<open>
  What writing the bytes \<open>xs\<close> from offset \<open>off\<close> on leaves: these bytes are in the file, all other bytes
  are the same, and of the blocks in use only those of the file have changed.
\<close>

definition wrote :: "nat \<Rightarrow> nat \<Rightarrow> nat \<Rightarrow> u8 list \<Rightarrow> (u32 \<Rightarrow> u8 list) \<Rightarrow> 'a fs_st_scheme \<Rightarrow> 'a fs_st_scheme \<Rightarrow>
    u32 set \<Rightarrow> (u32 \<Rightarrow> u8 list) \<Rightarrow> inode \<Rightarrow> bool" where
  "wrote p ip off xs V s t B' W y \<longleftrightarrow> (let x = inodes s ip; b = sb s; A = log_area (lg_start s) in
     ftx p (i_dev x) Map.empty B' W t \<and> ikept s t \<and> inodes t = (inodes s)(ip := y) \<and> (\<exists>as. y = x\<lparr>i_addrs := as\<rparr>) \<and>
     file_ok b A W y \<and> grows b A (fblocks V x) V W \<and> (\<forall>a\<in>fblocks W y. live b V a \<longrightarrow> a \<in> fblocks V x) \<and>
     (\<forall>i<MAXFILE * BSIZE. if off \<le> i \<and> i < off + length xs
       then faddr W y (i div BSIZE) \<noteq> 0 \<and> fbyte W y i = xs ! (i - off)
       else faddr V x (i div BSIZE) \<noteq> 0 \<longrightarrow> faddr W y (i div BSIZE) \<noteq> 0 \<and> fbyte W y i = fbyte V x i))"

lemma wrote_nothing:
  assumes "ftx p (i_dev (inodes s ip)) Map.empty B V s" "file_ok (sb s) (log_area (lg_start s)) V (inodes s ip)"
    "bitmap_ok (sb s) (log_area (lg_start s)) V"
  shows "wrote p ip off [] V s s B V (inodes s ip)"
proof -
  have "\<exists>as. inodes s ip = (inodes s ip)\<lparr>i_addrs := as\<rparr>" by (rule exI [of _ "i_addrs (inodes s ip)"]) simp
  then show ?thesis using assms grows_refl by (auto simp: wrote_def Let_def fkept_ikept)
qed

lemma wrote_trans:
  assumes s: "wrote p ip off xs V s t B1 W y" and t: "wrote p ip (off + length xs) ys W t u B2 X z"
  shows "wrote p ip off (xs @ ys) V s u B2 X z"
proof -
  let ?x = "inodes s ip" and ?b = "sb s" and ?A = "log_area (lg_start s)"
  note a = s [unfolded wrote_def Let_def]
  have k: "sb t = ?b" "lg_start t = lg_start s" using ikeptD [of s t] a by simp_all
  have y: "inodes t ip = y" "i_dev y = i_dev ?x" using a by auto
  note c = t [unfolded wrote_def Let_def k y]
  have "grows ?b ?A (fblocks V ?x \<union> fblocks W y) V X" using grows_trans a c by blast
  then have g: "grows ?b ?A (fblocks V ?x) V X" by (rule grows_restrict) (use a in blast)
  have l: "live ?b W q" if "live ?b V q" for q using growsD(4) [of ?b ?A _ V W] a that by blast
  have bl: "\<forall>q\<in>fblocks X z. live ?b V q \<longrightarrow> q \<in> fblocks V ?x" using a c l by blast
  have i: "inodes u = (inodes s)(ip := z)" "\<exists>as. z = ?x\<lparr>i_addrs := as\<rparr>" using a c by auto
  have "if off \<le> i \<and> i < off + length (xs @ ys) then faddr X z (i div BSIZE) \<noteq> 0 \<and> fbyte X z i = (xs @ ys) ! (i - off)
      else faddr V ?x (i div BSIZE) \<noteq> 0 \<longrightarrow> faddr X z (i div BSIZE) \<noteq> 0 \<and> fbyte X z i = fbyte V ?x i" if "i < MAXFILE * BSIZE" for i
  proof -
    note p = a [THEN conjunct2, THEN conjunct2, THEN conjunct2, THEN conjunct2, THEN conjunct2, THEN conjunct2, THEN conjunct2, rule_format, OF that]
    note q = c [THEN conjunct2, THEN conjunct2, THEN conjunct2, THEN conjunct2, THEN conjunct2, THEN conjunct2, THEN conjunct2, rule_format, OF that]
    consider "i < off" | "off \<le> i" "i < off + length xs" | "off + length xs \<le> i" by linarith
    then show ?thesis using p q by cases (auto simp: nth_append split: if_splits)
  qed
  then show ?thesis unfolding wrote_def Let_def using a c g bl i ikept_trans [of s t u] y by auto
qed

section \<open>One block\<close>

lemma bmapped_wrote:
  assumes f: "file_ok (sb s) (log_area (lg_start s)) V (inodes s ip)" and b: "bmapped p ip k B V s r t B' W y" and k: "k < MAXFILE"
  shows "wrote p ip off [] V s t B' W y"
proof -
  let ?x = "inodes s ip" and ?b = "sb s" and ?A = "log_area (lg_start s)"
  note a = b [unfolded bmapped_def Let_def]
  have fresh: "\<not> live ?b V (of_nat n)" if "n < fs_size ?b" "\<not> used ?b V n" for n using that by (auto simp: live_def)
  have g: "grows ?b ?A ({i_addrs ?x ! NDIRECT} - {0}) V W" using a by blast
  then have "grows ?b ?A (fblocks V ?x) V W" by (rule grows_restrict) (simp add: fblocks_def)
  moreover have fa: "faddr W y j = faddr V ?x j" if "j < MAXFILE" "faddr V ?x j \<noteq> 0" for j using a that by auto
  have "c \<in> fblocks V ?x" if "c \<in> fblocks W y" "live ?b V c" for c
  proof -
    have r: "r = 0 \<or> r = faddr V ?x k \<or> \<not> live ?b V r" using a fresh by blast
    have "c = i_addrs ?x ! NDIRECT \<or> (\<exists>j<MAXFILE. c = faddr W y j)" "c \<noteq> 0" using that a fresh by (auto simp: fblocks_def)
    then show ?thesis using a r that(2) k by (auto simp: fblocks_def split: if_splits)
  qed
  moreover have "fbyte W y i = fbyte V ?x i" if "i < MAXFILE * BSIZE" "faddr V ?x (i div BSIZE) \<noteq> 0" for i
  proof -
    have j: "i div BSIZE < MAXFILE" using that(1) by (rule less_mult_imp_div_less)
    have "W (faddr V ?x (i div BSIZE)) = V (faddr V ?x (i div BSIZE))"
      using growsD(3) [OF g owned_live [OF file_okD(3) [OF f j that(2)]]] file_okD(4) [OF f j that(2)] by simp
    then show ?thesis using fa [OF j that(2)] by (simp add: fbyte_def)
  qed
  then have "\<forall>i<MAXFILE * BSIZE. if off \<le> i \<and> i < off + length ([] :: u8 list)
      then faddr W y (i div BSIZE) \<noteq> 0 \<and> fbyte W y i = [] ! (i - off)
      else faddr V ?x (i div BSIZE) \<noteq> 0 \<longrightarrow> faddr W y (i div BSIZE) \<noteq> 0 \<and> fbyte W y i = fbyte V ?x i"
    using fa less_mult_imp_div_less by auto
  ultimately show ?thesis unfolding wrote_def Let_def using a by blast
qed

lemma wrote_data:
  assumes f: "file_ok (sb t) (log_area (lg_start t)) W (inodes t ip)" and m: "bitmap_ok (sb t) (log_area (lg_start t)) W"
    and k: "off div BSIZE < MAXFILE" "faddr W (inodes t ip) (off div BSIZE) = a" "a \<noteq> 0" and l: "off mod BSIZE + length ys \<le> BSIZE"
    and v: "ftx p (i_dev (inodes t ip)) Map.empty B (W(a := put_bytes (off mod BSIZE) ys (W a))) v" "fkept t v"
  shows "wrote p ip off ys W t v B (W(a := put_bytes (off mod BSIZE) ys (W a))) (inodes t ip)"
proof -
  let ?x = "inodes t ip" and ?X = "W(a := put_bytes (off mod BSIZE) ys (W a))"
  have o: "length (W a) = BSIZE" using file_okD(3) [OF f k(1)] k(2,3) by (simp add: owned_def)
  then have ld: "length (put_bytes (off mod BSIZE) ys (W a)) = BSIZE" using l by simp
  note d = file_ok_data [OF f k m ld]
  have as: "\<exists>as. ?x = ?x\<lparr>i_addrs := as\<rparr>" by (rule exI [of _ "i_addrs ?x"]) simp
  have "fblocks ?X ?x = fblocks W ?x" by (simp add: fblocks_def d(2))
  moreover have "grows (sb t) (log_area (lg_start t)) (fblocks W ?x) W ?X"
    using d(3) by (rule grows_restrict) (use k in \<open>auto simp: fblocks_def\<close>)
  moreover have "if off \<le> i \<and> i < off + length ys then faddr ?X ?x (i div BSIZE) \<noteq> 0 \<and> fbyte ?X ?x i = ys ! (i - off)
      else faddr W ?x (i div BSIZE) \<noteq> 0 \<longrightarrow> faddr ?X ?x (i div BSIZE) \<noteq> 0 \<and> fbyte ?X ?x i = fbyte W ?x i" if i: "i < MAXFILE * BSIZE" for i
  proof (cases "off \<le> i \<and> i < off + length ys")
    case True
    then have j: "off mod BSIZE + (i - off) < BSIZE" "off + (i - off) = i" using l by linarith+
    from in_block [OF j(1)] have e: "i div BSIZE = off div BSIZE" "i mod BSIZE = off mod BSIZE + (i - off)" unfolding j(2) by simp_all
    then show ?thesis using True d(4) [OF i] d(2) k o l nth_put_bytes [of "off mod BSIZE" ys "W a" "i mod BSIZE"] by auto
  next
    case False
    have "put_bytes (off mod BSIZE) ys (W a) ! (i mod BSIZE) = fbyte W ?x i" if "i div BSIZE = off div BSIZE"
    proof -
      have "i = off div BSIZE * BSIZE + i mod BSIZE" "off = off div BSIZE * BSIZE + off mod BSIZE"
        using div_mult_mod_eq [of i BSIZE] div_mult_mod_eq [of off BSIZE] that by simp_all
      then have "\<not> (off mod BSIZE \<le> i mod BSIZE \<and> i mod BSIZE < off mod BSIZE + length ys)" using False by linarith
      then show ?thesis using nth_put_bytes [of "off mod BSIZE" ys "W a" "i mod BSIZE"] o l that k(2) by (auto simp: fbyte_def)
    qed
    then show ?thesis using False d(2) d(4) [OF i] by auto
  qed
  ultimately show ?thesis unfolding wrote_def Let_def
    using v d(1) as fkept_ikept [OF v(2)] fkept_fs(2) [OF v(2)] by auto
qed

text \<open>The blocks that \<open>n\<close> bytes from \<open>off\<close> on touch.\<close>

definition nblk :: "nat \<Rightarrow> nat \<Rightarrow> nat" where
  "nblk off n = (if n = 0 then 0 else (off + n - 1) div BSIZE - off div BSIZE + 1)"

lemma nblk_step:
  assumes "0 < n" "m = min n (BSIZE - off mod BSIZE)"
  shows "nblk (off + m) (n - m) + 1 = nblk off n"
proof (cases "n \<le> BSIZE - off mod BSIZE")
  case True
  then have "off mod BSIZE + (n - 1) < BSIZE" using assms(1) by linarith
  from in_block(1) [OF this] show ?thesis using True assms by (simp add: nblk_def)
next
  case False
  then have m: "m = BSIZE - off mod BSIZE" using assms(2) by simp
  have r: "off mod BSIZE + m = BSIZE" unfolding m by simp
  have "off + m = off div BSIZE * BSIZE + (off mod BSIZE + m)" by simp
  then have o: "off + m = (off div BSIZE + 1) * BSIZE" unfolding r by simp
  have "(off + m) div BSIZE = off div BSIZE + 1" unfolding o by simp
  moreover have "(off + m) div BSIZE \<le> (off + n - 1) div BSIZE" using False m by (intro div_le_mono) linarith
  moreover have "off + m + (n - m) - 1 = off + n - 1" "n - m \<noteq> 0" using False m by simp_all
  ultimately show ?thesis using assms(1) by (simp add: nblk_def Suc_diff_Suc Suc_le_eq)
qed

section \<open>The loop\<close>

text \<open>The source of a write: every part of it can be copied, and is the corresponding part of \<open>xs\<close>.\<close>

definition src_ok :: "('a fs_st_scheme) page_source \<Rightarrow> bool \<Rightarrow> u64 \<Rightarrow> u8 list \<Rightarrow> u8 list \<Rightarrow> 'a fs_st_scheme \<Rightarrow> bool" where
  "src_ok ap user src ksrc xs s \<longleftrightarrow> (\<forall>t i l. ikept s t \<and> i + l \<le> length xs \<longrightarrow>
     either_copyin ap user (src + of_nat i) (drop i ksrc) l t = Ok (0, take l (drop i xs)) t)"

lemma src_ok_step:
  assumes "src_ok ap user src ksrc xs s" "ikept s t" "m \<le> length xs"
  shows "src_ok ap user (src + of_nat m) (drop m ksrc) (drop m xs) t"
  unfolding src_ok_def
proof (intro allI impI, elim conjE)
  fix u i l assume u: "ikept t u" "i + l \<le> length (drop m xs)"
  have "either_copyin ap user (src + of_nat (m + i)) (drop (m + i) ksrc) l u = Ok (0, take l (drop (m + i) xs)) u"
    using assms(1) [unfolded src_ok_def, rule_format, of u "m + i" l] ikept_trans [OF assms(2) u(1)] u(2) assms(3) by simp
  then show "either_copyin ap user (src + of_nat m + of_nat i) (drop i (drop m ksrc)) l u = Ok (0, take l (drop i (drop m xs))) u"
    by (simp add: ac_simps)
qed

lemma src_ok_at: "src_ok ap user src ksrc xs s \<Longrightarrow> ikept s t \<Longrightarrow> l \<le> length xs \<Longrightarrow> either_copyin ap user src ksrc l t = Ok (0, take l xs) t"
  using src_ok_def [of ap user src ksrc xs s, THEN iffD1, rule_format, of t 0 l] by simp

lemma writei_loop_spec:
  fixes s :: "'a fs_st_scheme"
  assumes "ftx p (i_dev (inodes s ip)) Map.empty B V s" "file_ok (sb s) (log_area (lg_start s)) V (inodes s ip)"
    and "bitmap_ok (sb s) (log_area (lg_start s)) V" "tot \<le> n" "unat off + unat (n - tot) \<le> MAXFILE * BSIZE"
    and "length xs = unat (n - tot)" "src_ok ap user src ksrc xs s" "card B + 6 * nblk (unat off) (unat (n - tot)) < LOGSIZE - 1"
  shows "runs (writei_loop ap ip user src ksrc off n tot s) (\<lambda>(tot', off') t. \<exists>d B' W y. d \<le> length xs \<and>
    unat tot' = unat tot + d \<and> unat off' = unat off + d \<and> wrote p ip (unat off) (take d xs) V s t B' W y \<and>
    card B' \<le> card B + 6 * nblk (unat off) (unat (n - tot)) \<and>
    (d < length xs \<longrightarrow> (\<forall>m<fs_size (sb s). used (sb s) W m)))"
  using assms
proof (induction "unat (n - tot)" arbitrary: tot off src ksrc xs s B V rule: less_induct)
  case less
  let ?x = "inodes s ip" and ?b = "sb s" and ?A = "log_area (lg_start s)"
  show ?case
  proof (cases "tot < n")
    case False
    then have "tot = n" using less.prems(4) by simp
    then show ?thesis using less.prems(6) wrote_nothing [OF less.prems(1-3), of "unat off"]
      by (subst writei_loop.simps) (auto intro!: exI [of _ 0] exI [of _ B] exI [of _ V])
  next
    case True
    define m where "m = block_chunk off (n - tot)"
    note c = chunk_round [OF True less.prems(5), folded m_def]
    let ?k = "unat off div BSIZE"
    note bn = block_number [OF c(6)]
    have mm: "unat m = min (unat (n - tot)) (BSIZE - unat off mod BSIZE)" by (simp add: m_def unat_block_chunk)
    have nb: "nblk (unat off + unat m) (unat (n - tot) - unat m) + 1 = nblk (unat off) (unat (n - tot))"
      using c(1,2) mm by (intro nblk_step) linarith+
    have cB: "card B < LOGSIZE - 6" using less.prems(8) nb by linarith
    obtain r t B1 W1 y where t: "bmap ip (off div of_nat BSIZE) s = Ok r t" "bmapped p ip ?k B V s r t B1 W1 y"
      using bmap_spec [OF less.prems(1,3,2) cB bn(2)] unfolding bn(1) by (auto simp: runs_iff)
    note w1 = bmapped_wrote [OF less.prems(2) t(2) bn(2), of "unat off"]
    note bm = t(2) [unfolded bmapped_def Let_def]
    show ?thesis
    proof (cases "r = 0")
      case r0: True
      have "writei_loop ap ip user src ksrc off n tot s = Ok (tot, off) t" using True r0 t(1) by (subst writei_loop.simps) simp
      then show ?thesis using w1 bm r0 nb by (auto intro!: exI [of _ 0] exI [of _ B1] exI [of _ W1] exI [of _ y])
    next
      case r: False
      have ty: "inodes t ip = y" "i_dev y = i_dev ?x" "sb t = ?b" "lg_start t = lg_start s" "ikept s t" "file_ok ?b ?A W1 y" "bitmap_ok ?b ?A W1"
        "faddr W1 y ?k = r" "card B1 \<le> card B + 5" "ftx p (i_dev ?x) Map.empty B1 W1 t"
        using bm ikeptD(3,4) [of s t] growsD(1) bn(2) by auto
      have h: "r \<notin> ran Map.empty" "card B1 + card (dom (Map.empty :: nat \<rightharpoonup> u32)) < NBUF" using ty(9) less.prems(8) nb by simp_all
      obtain j u where u: "bread (i_dev ?x) r t = Ok j u" "j \<notin> dom (Map.empty :: nat \<rightharpoonup> u32)" "buf_data j u = W1 r"
        "ftx p (i_dev ?x) (Map.empty(j \<mapsto> r)) B1 W1 u" "fkept t u" using lb.take [OF ty(10) h] by (auto simp: runs_iff)
      have su: "ikept s u" by (rule ikept_trans [OF ty(5) fkept_ikept [OF u(5)]])
      have ml: "unat m \<le> length xs" using c(2) less.prems(6) by simp
      define ys where "ys = take (unat m) xs"
      have cp: "either_copyin ap user src ksrc (unat m) u = Ok (0, ys) u" unfolding ys_def by (rule src_ok_at [OF less.prems(7) su ml])
      define X where "X = W1(r := put_bytes (unat off mod BSIZE) ys (W1 r))"
      have al: "r \<notin> log_area (lg_start u)" "card B1 < LOGSIZE - 1"
        using file_okD(3) [OF ty(6) bn(2)] ty(4,8,9) r fkeptD(3) [OF u(5)] less.prems(8) nb by (auto simp: owned_def)
      have lw: "runs (log_write j (set_data j (put_bytes (unat off mod BSIZE) ys (buf_data j u)) u)) (\<lambda>_ v. runs (brelse j v) (\<lambda>_ v.
          ftx p (i_dev ?x) Map.empty (insert r B1) X v \<and> fkept u v))"
        using lb.store(2) [where H = Map.empty, OF u(4,2) al] unfolding u(3) X_def by simp
      then obtain v0 v where v: "log_write j (set_data j (put_bytes (unat off mod BSIZE) ys (buf_data j u)) u) = Ok () v0" "brelse j v0 = Ok () v"
        "ftx p (i_dev ?x) Map.empty (insert r B1) X v" "fkept u v" by (auto simp: runs_iff)
      have tv: "fkept t v" by (rule fkept_trans [OF u(5) v(4)])
      have code: "writei_loop ap ip user src ksrc off n tot s =
          writei_loop ap ip user (src + ucast m) (drop (unat m) ksrc) (off + m) n (tot + m) v"
        using True r t(1) u(1) cp v(1,2) ty(1,2) by (subst writei_loop.simps) (simp add: m_def [symmetric] Let_def)
      have w2: "wrote p ip (unat off) ys W1 t v (insert r B1) X (inodes t ip)"
        unfolding X_def by (rule wrote_data) (use ty bn(2) r c(3) ml v(3) tv in \<open>simp_all add: ys_def X_def\<close>)
      have w: "wrote p ip (unat off) ys V s v (insert r B1) X y" using wrote_trans [OF w1, of ys v "insert r B1" X y] w2 ty(1) by simp
      note wv = w [unfolded wrote_def Let_def]
      have kv: "sb v = ?b" "lg_start v = lg_start s" "inodes v ip = y" "bitmap_ok ?b ?A X" using wv ikeptD(3,4) [of s v] growsD(1) by auto
      have cv: "card (insert r B1) \<le> card B + 6" using card_insert_Suc [of r B1] ty(9) by linarith
      have um: "(ucast m :: u64) = of_nat (unat m)" by simp
      have sv: "src_ok ap user (src + ucast m) (drop (unat m) ksrc) (drop (unat m) xs) v"
        unfolding um using wv by (intro src_ok_step [OF less.prems(7) _ ml]) blast
      have ih: "runs (writei_loop ap ip user (src + ucast m) (drop (unat m) ksrc) (off + m) n (tot + m) v) (\<lambda>(tot', off') t. \<exists>d B' W z.
          d \<le> length (drop (unat m) xs) \<and> unat tot' = unat (tot + m) + d \<and> unat off' = unat (off + m) + d \<and>
          wrote p ip (unat (off + m)) (take d (drop (unat m) xs)) X v t B' W z \<and>
          card B' \<le> card (insert r B1) + 6 * nblk (unat (off + m)) (unat (n - (tot + m))) \<and>
          (d < length (drop (unat m) xs) \<longrightarrow> (\<forall>m<fs_size (sb v). used (sb v) W m)))"
        by (rule less.hyps) (use c v(3) ty(2) wv kv less.prems(5,6,8) sv cv nb in simp_all)
      show ?thesis unfolding code
      proof (rule runs_mono [OF ih], clarify)
        fix tot' off' z and d B' W q
        assume d: "d \<le> length (drop (unat m) xs)" "unat tot' = unat (tot + m) + d" "unat off' = unat (off + m) + d"
          "wrote p ip (unat (off + m)) (take d (drop (unat m) xs)) X v z B' W q"
          "card B' \<le> card (insert r B1) + 6 * nblk (unat (off + m)) (unat (n - (tot + m)))"
          "d < length (drop (unat m) xs) \<longrightarrow> (\<forall>m<fs_size (sb v). used (sb v) W m)"
        have "length ys = unat m" using ml by (simp add: ys_def)
        then have "wrote p ip (unat off) (ys @ take d (drop (unat m) xs)) V s z B' W q"
          using wrote_trans [OF w, of "take d (drop (unat m) xs)" z B' W q] d(4) c(4) by simp
        moreover have "ys @ take d (drop (unat m) xs) = take (unat m + d) xs" by (simp add: ys_def take_add)
        ultimately show "\<exists>d B' W y. d \<le> length xs \<and> unat tot' = unat tot + d \<and> unat off' = unat off + d \<and>
            wrote p ip (unat off) (take d xs) V s z B' W y \<and> card B' \<le> card B + 6 * nblk (unat off) (unat (n - tot)) \<and>
            (d < length xs \<longrightarrow> (\<forall>m<fs_size ?b. used ?b W m))"
          using d c(4,5,8) cv nb kv(1) ml by (intro exI [of _ "unat m + d"] exI [of _ B'] exI [of _ W] exI [of _ q]) auto
      qed
    qed
  qed
qed

section \<open>Files as byte lists\<close>

text \<open>
  A file of the file system: its blocks are its own, all bytes up to its size have one, and the block
  of the disk with its inode belongs to none of its data.
\<close>

definition file_inv :: "superblock \<Rightarrow> u32 set \<Rightarrow> (u32 \<Rightarrow> u8 list) \<Rightarrow> inode \<Rightarrow> bool" where
  "file_inv b A V x \<longleftrightarrow> file_ok b A V x \<and> bitmap_ok b A V \<and> unat (i_size x) \<le> MAXFILE * BSIZE \<and> backed V x 0 (unat (i_size x)) \<and>
     owned b A V (IBLOCK (i_inum x) b) \<and> IBLOCK (i_inum x) b \<notin> insert 0 (fblocks V x)"

lemma file_invD:
  assumes "file_inv b A V x"
  shows "file_ok b A V x" "bitmap_ok b A V" "unat (i_size x) \<le> MAXFILE * BSIZE" "backed V x 0 (unat (i_size x))"
    "owned b A V (IBLOCK (i_inum x) b)" "IBLOCK (i_inum x) b \<notin> fblocks V x" "IBLOCK (i_inum x) b \<noteq> 0"
  using assms by (simp_all add: file_inv_def)

definition contents :: "(u32 \<Rightarrow> u8 list) \<Rightarrow> inode \<Rightarrow> u8 list" where
  "contents V x = fbytes V x 0 (unat (i_size x))"

definition overwrite :: "nat \<Rightarrow> u8 list \<Rightarrow> u8 list \<Rightarrow> u8 list" where
  "overwrite off ys xs = take off xs @ ys @ drop (off + length ys) xs"

lemma overwrite_nth:
  assumes "off \<le> length xs"
  shows "length (overwrite off ys xs) = max (length xs) (off + length ys)"
    "i < max (length xs) (off + length ys) \<Longrightarrow> overwrite off ys xs ! i = (if off \<le> i \<and> i < off + length ys then ys ! (i - off) else xs ! i)"
  using assms by (auto simp: overwrite_def nth_append)

lemma overwrite_window: "off \<le> length xs \<Longrightarrow> take (length ys) (drop off (overwrite off ys xs)) = ys"
  by (simp add: overwrite_def)

lemma wrote_contents:
  assumes w: "wrote p ip off ys V s t B' W y" and x: "x = inodes s ip" and off: "off \<le> unat (i_size x)" "unat (i_size x) \<le> MAXFILE * BSIZE"
    and M: "off + length ys \<le> MAXFILE * BSIZE" and b: "backed V x 0 (unat (i_size x))"
  shows "fbytes W y 0 (max (unat (i_size x)) (off + length ys)) = overwrite off ys (contents V x)"
    "backed W y 0 (max (unat (i_size x)) (off + length ys))"
proof -
  let ?n = "max (unat (i_size x)) (off + length ys)"
  have a: "if off \<le> i \<and> i < off + length ys then faddr W y (i div BSIZE) \<noteq> 0 \<and> fbyte W y i = ys ! (i - off)
      else faddr W y (i div BSIZE) \<noteq> 0 \<and> fbyte W y i = fbyte V x i" if i: "i < ?n" for i
  proof -
    have "i < MAXFILE * BSIZE" using i off(2) M by simp
    moreover have "faddr V x (i div BSIZE) \<noteq> 0" if "\<not> (off \<le> i \<and> i < off + length ys)"
      using b that i off(1) by (auto simp: backed_def)
    ultimately show ?thesis using w unfolding wrote_def Let_def x [symmetric] by presburger
  qed
  have "faddr W y (i div BSIZE) \<noteq> 0" if "i < ?n" for i using a [OF that] by presburger
  then show "backed W y 0 ?n" by (simp add: backed_def)
  have l: "length (contents V x) = unat (i_size x)" by (simp add: contents_def fbytes_def)
  show "fbytes W y 0 ?n = overwrite off ys (contents V x)"
  proof (rule nth_equalityI)
    show "length (fbytes W y 0 ?n) = length (overwrite off ys (contents V x))"
      using off(1) l by (simp add: fbytes_def overwrite_nth)
    show "fbytes W y 0 ?n ! i = overwrite off ys (contents V x) ! i" if "i < length (fbytes W y 0 ?n)" for i
    proof -
      have i: "i < ?n" using that by (simp add: fbytes_def)
      have "contents V x ! i = fbyte V x i" if "\<not> (off \<le> i \<and> i < off + length ys)"
        using that i off(1) unfolding contents_def fbytes_def by (subst nth_map_upt) auto
      then show ?thesis using a [OF i] overwrite_nth(2) [of off "contents V x" i ys] i off(1) l by (auto simp: fbytes_def split: if_splits)
    qed
  qed
qed

text \<open>A block that is not one of the file can be written without the file changing.\<close>

lemma file_ok_apart:
  assumes "file_ok b A W y" "a \<notin> fblocks W y" "a \<noteq> 0" "a \<notin> bitmap_blocks b" "length d = BSIZE"
  shows "faddr (W(a := d)) y k = faddr W y k" "file_ok b A (W(a := d)) y" "k < MAXFILE * BSIZE \<Longrightarrow> fbyte (W(a := d)) y k = fbyte W y k"
    "fblocks (W(a := d)) y = fblocks W y"
proof -
  have i: "a \<noteq> i_addrs y ! NDIRECT" using assms(2,3) by (auto simp: fblocks_def)
  show fa: "faddr (W(a := d)) y k = faddr W y k" for k using i by (auto simp: faddr_def)
  have ow: "owned b A (W(a := d)) c" if "owned b A W c" for c
    using that assms(4,5) used_other [OF assms(4)] unfolding owned_def by auto
  show "file_ok b A (W(a := d)) y" by (rule file_okI) (use file_okD [OF assms(1)] ow fa in auto)
  show "fbyte (W(a := d)) y k = fbyte W y k" if "k < MAXFILE * BSIZE"
  proof -
    have "k div BSIZE < MAXFILE" using that by (rule less_mult_imp_div_less)
    then have "faddr W y (k div BSIZE) \<noteq> a" using assms(2,3) by (auto simp: fblocks_def)
    then show ?thesis by (simp add: fbyte_def fa)
  qed
  show "fblocks (W(a := d)) y = fblocks W y" by (simp add: fblocks_def fa)
qed

section \<open>\<open>writei\<close>\<close>

text \<open>The bytes that a write stores: of the user's memory or of the kernel's.\<close>

definition source :: "nat \<Rightarrow> bool \<Rightarrow> u64 \<Rightarrow> u8 list \<Rightarrow> nat \<Rightarrow> 'a mem_st_scheme \<Rightarrow> u8 list" where
  "source p user src ksrc n s = (if user then ubytes (mem s) (p_pagetable (procs s p)) src n else take n ksrc)"

definition source_ok :: "nat \<Rightarrow> bool \<Rightarrow> u64 \<Rightarrow> u8 list \<Rightarrow> nat \<Rightarrow> 'a mem_st_scheme \<Rightarrow> bool" where
  "source_ok p user src ksrc n s \<longleftrightarrow>
     (if user then \<forall>i<n. umapped (mem s) (p_pagetable (procs s p)) (src + of_nat i) else n \<le> length ksrc)"

lemma length_source: "source_ok p user src ksrc n s \<Longrightarrow> length (source p user src ksrc n s) = n"
  by (simp add: source_def source_ok_def ubytes_def)

lemma ikept_quiet: "ikept s t \<Longrightarrow> quiet p s \<Longrightarrow> quiet p t"
  using quiet_cong [of t s p] fkeptD(9-11) [of "s\<lparr>inodes := inodes t\<rparr>" t] by (simp add: ikept_def)

lemma source_src_ok:
  fixes s :: "'a fs_st_scheme"
  assumes "ftx p D H B V s" "source_ok p user src ksrc n s"
  shows "src_ok ap user src ksrc (source p user src ksrc n s) s"
  unfolding src_ok_def
proof (intro allI impI, elim conjE)
  fix t :: "'a fs_st_scheme" and i l assume t: "ikept s t" "i + l \<le> length (source p user src ksrc n s)"
  have q: "quiet p t" by (rule ikept_quiet [OF t(1) ftx_quiet [OF assms(1)]])
  obtain st where st: "procs t p = (procs s p)\<lparr>p_state := st\<rparr>" using ikeptD(7) [OF t(1)] by blast
  have n: "i + l \<le> n" using t(2) length_source [OF assms(2)] by simp
  have u: "ulen (mem s) (p_pagetable (procs s p)) (src + of_nat i) l = l" if user
    unfolding ulen_all
  proof (intro allI impI)
    fix j assume "j < l"
    then have "i + j < n" using n by simp
    then have "umapped (mem s) (p_pagetable (procs s p)) (src + of_nat (i + j))" using assms(2) that unfolding source_ok_def by presburger
    then show "umapped (mem s) (p_pagetable (procs s p)) (src + of_nat i + of_nat j)" by (simp add: add.assoc)
  qed
  have b: "take l (drop i (ubytes (mem s) (p_pagetable (procs s p)) src n)) = ubytes (mem s) (p_pagetable (procs s p)) (src + of_nat i) l"
    using n by (intro nth_equalityI) (auto simp: ubytes_def add.assoc)
  show "either_copyin ap user (src + of_nat i) (drop i ksrc) l t = Ok (0, take l (drop i (source p user src ksrc n s))) t"
    using n by (cases user) (simp_all add: either_copyin_def this_proc_settled quietD [OF q] copyin_eq ikeptD(5) [OF t(1)] st u b source_def
      drop_take min_def)
qed

text \<open>
  What a write of the bytes \<open>ys\<close> at offset \<open>off\<close> leaves: the contents of the file are overwrited, the inode on
  disk is that of the table, the file is well-formed, and all other files and inodes are the same.
\<close>

definition stored :: "nat \<Rightarrow> nat \<Rightarrow> nat \<Rightarrow> u8 list \<Rightarrow> (u32 \<Rightarrow> u8 list) \<Rightarrow> 'a fs_st_scheme \<Rightarrow> 'a fs_st_scheme \<Rightarrow>
    u32 set \<Rightarrow> (u32 \<Rightarrow> u8 list) \<Rightarrow> bool" where
  "stored p ip off ys V s t B' W \<longleftrightarrow> (let x = inodes s ip; y = inodes t ip; b = sb s; A = log_area (lg_start s); c = IBLOCK (i_inum x) b in
     ftx p (i_dev x) Map.empty B' W t \<and> ikept s t \<and> inodes t = (inodes s)(ip := x\<lparr>i_addrs := i_addrs y, i_size := i_size y\<rparr>) \<and>
     file_inv b A W y \<and> contents W y = overwrite off ys (contents V x) \<and>
     read_dinode (W c) (dinode_off (i_inum x)) y = y \<and>
     (\<forall>n z. n \<noteq> i_inum x \<and> IBLOCK n b = c \<longrightarrow> read_dinode (W c) (dinode_off n) z = read_dinode (V c) (dinode_off n) z) \<and>
     (\<forall>z. file_inv b A V z \<and> fblocks V z \<inter> insert c (fblocks V x) = {} \<longrightarrow> contents W z = contents V z) \<and>
     (\<forall>a. live b V a \<and> a \<notin> insert c (fblocks V x) \<longrightarrow> W a = V a))"

lemma contents_other:
  assumes "file_ok b A V z" "unat (i_size z) \<le> MAXFILE * BSIZE" "backed V z 0 (unat (i_size z))" "\<And>a. a \<in> fblocks V z \<Longrightarrow> W a = V a"
  shows "contents W z = contents V z"
proof -
  have f: "faddr W z k = faddr V z k" for k using assms(4) by (auto simp: faddr_def fblocks_def)
  have "fbyte W z i = fbyte V z i" if "i < unat (i_size z)" for i
  proof -
    have "i div BSIZE < MAXFILE" using that assms(2) by (intro less_mult_imp_div_less) simp
    moreover have "faddr V z (i div BSIZE) \<noteq> 0" using assms(3) that by (simp add: backed_def)
    ultimately have "faddr V z (i div BSIZE) \<in> fblocks V z" by (auto simp: fblocks_def)
    then show ?thesis using assms(4) by (simp add: fbyte_def f)
  qed
  then show ?thesis by (simp add: contents_def fbytes_def)
qed

lemma stored_inode:
  fixes s :: "'a fs_st_scheme"
  assumes w: "wrote p ip (unat off) ys V s t B' W y" and inv: "file_inv (sb s) (log_area (lg_start s)) V (inodes s ip)"
    and off: "off \<le> i_size (inodes s ip)" "unat off + length ys \<le> MAXFILE * BSIZE"
    and sz: "unat sz = max (unat (i_size (inodes s ip))) (unat off + length ys)" and c: "c = IBLOCK (i_inum (inodes s ip)) (sb s)"
    and X: "X = W(c := write_dinode (y\<lparr>i_size := sz\<rparr>) (dinode_off (i_inum y)) (W c))"
    and u: "fkept (set_inode ip (\<lambda>x. x\<lparr>i_size := sz\<rparr>) t) u" "ftx p (i_dev (inodes s ip)) Map.empty B'' X u"
  shows "stored p ip (unat off) ys V s u B'' X"
proof -
  let ?x = "inodes s ip" and ?b = "sb s" and ?A = "log_area (lg_start s)"
  note a = w [unfolded wrote_def Let_def] and v = file_invD [OF inv, folded c]
  obtain as where y: "y = ?x\<lparr>i_addrs := as\<rparr>" using a by blast
  let ?y = "y\<lparr>i_size := sz\<rparr>"
  have ty: "inodes t = (inodes s)(ip := y)" using a by blast
  have iu: "inodes u = (inodes s)(ip := ?y)" using fkept_fs(2) [OF u(1)] ty by (simp add: set_inode_def)
  have k: "ikept s u" using a ikept_trans [OF ikept_trans [OF _ ikept_set_inode] fkept_ikept [OF u(1)]] by blast
  have lc: "live ?b V c" "c \<notin> bitmap_blocks ?b" by (rule owned_live [OF v(5)]) (use v(5) in \<open>simp add: owned_def\<close>)
  have g: "grows ?b ?A (fblocks V ?x) V W" using a by blast
  have Wc: "W c = V c" by (rule growsD(3) [OF g lc(1) v(6)])
  have nc: "c \<notin> fblocks W y" using a lc(1) v(6) by blast
  have pos: "dinode_off (i_inum y) + 64 \<le> length (W c)" using dinode_off_bound v(5) Wc by (simp add: owned_def)
  have ly: "length (i_addrs ?y) = 13" using a file_okD(1) by auto
  have len: "length (write_dinode ?y (dinode_off (i_inum y)) (W c)) = BSIZE" 
    using v(5) pos unfolding write_dinode_bytes [OF ly pos] by (simp add: owned_def length_dinode_bytes [OF ly] Wc)
  have fo: "file_ok ?b ?A W y" using a by blast
  note ap = file_ok_apart [OF fo nc v(7) lc(2) len, folded X]
  have ad: "faddr X ?y = faddr X y" "fbyte X ?y = fbyte X y" "fblocks X ?y = fblocks X y" "file_ok ?b ?A X ?y = file_ok ?b ?A X y"
    by (simp_all add: fun_eq_iff faddr_def fbyte_def fblocks_def file_ok_def)
  have gX: "grows ?b ?A {c} W X" unfolding X by (rule grows_write [OF growsD(1) [OF g] lc(2)])
  have M: "unat sz \<le> MAXFILE * BSIZE" using sz off(2) v(3) by simp
  note wc = wrote_contents [OF w refl _ v(3) off(2) v(4), folded sz] 
  have le: "unat off \<le> unat (i_size ?x)" using off(1) by (simp add: word_le_nat_alt)
  have oc: "owned ?b ?A X c" using v(5) growsD(2) [OF g] growsD(2) [OF gX] len unfolding owned_def X by auto
  have iy: "IBLOCK (i_inum ?y) ?b = c" using y c by simp
  have inX: "file_inv ?b ?A X ?y"
    using ap(2) growsD(1) [OF gX] M wc(2) [OF le] oc nc v(7) iy unfolding file_inv_def by (simp add: ad backed_def ap)
  have fb: "map (fbyte X y) [0..<unat sz] = map (fbyte W y) [0..<unat sz]" by (rule map_cong) (use M in \<open>simp_all add: ap(3)\<close>)
  have cX: "contents X ?y = overwrite (unat off) ys (contents V ?x)"
    using wc(1) [OF le] fb by (simp add: contents_def fbytes_def ad)
  have self: "read_dinode (X c) (dinode_off (i_inum ?x)) ?y = ?y"
  proof -
    have "read_dinode (X c) (dinode_off (i_inum y)) ?y = ?y" unfolding X fun_upd_same read_write_dinode [OF ly pos] by simp
    then show ?thesis using y by simp
  qed
  have other: "read_dinode (X c) (dinode_off n) z = read_dinode (V c) (dinode_off n) z" if "n \<noteq> i_inum ?x" "IBLOCK n ?b = c" for n z
  proof -
    have "IBLOCK n ?b = IBLOCK (i_inum y) ?b" "n \<noteq> i_inum y" using that y c by simp_all
    then have "read_dinode (X c) (dinode_off n) z = read_dinode (W c) (dinode_off n) z"
      using read_dinode_other [OF ly pos dinode_off_apart] by (simp add: X)
    then show ?thesis unfolding Wc .
  qed
  have fr: "X d = V d" if "live ?b V d" "d \<notin> insert c (fblocks V ?x)" for d using that growsD(3) [OF g, of d] by (simp add: X)
  have "contents X z = contents V z" if "file_inv ?b ?A V z" "fblocks V z \<inter> insert c (fblocks V ?x) = {}" for z
  proof (rule contents_other [OF file_invD(1,3,4) [OF that(1)]])
    fix d assume d: "d \<in> fblocks V z"
    then have "owned ?b ?A V d" using file_okD(2,3) [OF file_invD(1) [OF that(1)]] by (auto simp: fblocks_def)
    then show "X d = V d" using fr [OF owned_live] d that(2) by blast
  qed
  then show ?thesis unfolding stored_def Let_def c [symmetric]
    using u(2) k iu inX cX self other fr y by simp
qed

lemma writei_spec:
  fixes s :: "'a fs_st_scheme"
  assumes ftx: "ftx p (i_dev (inodes s ip)) Map.empty B V s" and inv: "file_inv (sb s) (log_area (lg_start s)) V (inodes s ip)"
    and src: "source_ok p user src ksrc (unat n) s" and cap: "card B + 6 * nblk (unat off) (unat n) < LOGSIZE - 2"
    and off: "unat off \<le> unat (i_size (inodes s ip))" "unat off + unat n \<le> MAXFILE * BSIZE"
  shows "runs (writei ap ip user src ksrc off n s) (\<lambda>r t. \<exists>d B' W. r = int d \<and> d \<le> unat n \<and>
    (d < unat n \<longrightarrow> (\<forall>m<fs_size (sb s). used (sb s) W m)) \<and> card B' \<le> Suc (card B + 6 * nblk (unat off) (unat n)) \<and>
    stored p ip (unat off) (take d (source p user src ksrc (unat n) s)) V s t B' W)"
proof -
  let ?x = "inodes s ip" and ?b = "sb s" and ?A = "log_area (lg_start s)" and ?xs = "source p user src ksrc (unat n) s"
  note v = file_invD [OF inv]
  have M: "MAXFILE * BSIZE < 2 ^ 31" by (simp add: MAXFILE_def NDIRECT_def NINDIRECT_def)
  have ov: "unat (off + n) = unat off + unat n" using off(2) M by (simp add: unat_word_ariths)
  have uM: "unat (of_nat (MAXFILE * BSIZE) :: u32) = MAXFILE * BSIZE" by (simp add: MAXFILE_def NDIRECT_def NINDIRECT_def)
  have g: "\<not> (off > i_size ?x \<or> off + n < off)" "\<not> off + n > of_nat (MAXFILE * BSIZE)"
    using off ov uM by (simp_all add: word_less_nat_alt)
  have lp: "runs (writei_loop ap ip user src ksrc off n 0 s) (\<lambda>(tot', off') t. \<exists>d B' W y. d \<le> length ?xs \<and>
    unat tot' = unat (0 :: u32) + d \<and> unat off' = unat off + d \<and> wrote p ip (unat off) (take d ?xs) V s t B' W y \<and>
    card B' \<le> card B + 6 * nblk (unat off) (unat (n - 0)) \<and> (d < length ?xs \<longrightarrow> (\<forall>m<fs_size ?b. used ?b W m)))"
    by (rule writei_loop_spec) (use ftx v(1,2) off(2) cap length_source [OF src] source_src_ok [OF ftx src] in simp_all)
  define Q where "Q = (\<lambda>r t. \<exists>d B' W. r = int d \<and> d \<le> unat n \<and> (d < unat n \<longrightarrow> (\<forall>m<fs_size ?b. used ?b W m)) \<and>
    card B' \<le> Suc (card B + 6 * nblk (unat off) (unat n)) \<and> stored p ip (unat off) (take d ?xs) V s t B' W)"
  have fin: "runs (let s = if off' > i_size (inodes t ip) then set_inode ip (\<lambda>x. x\<lparr>i_size := off'\<rparr>) t else t
        in bnd (iupdate ip s) (\<lambda>_ s. Ok (sint tot) s)) Q"
    if d: "unat tot \<le> unat n" "unat off' = unat off + unat tot" and w: "wrote p ip (unat off) (take (unat tot) ?xs) V s t B' W y"
      and B': "card B' \<le> card B + 6 * nblk (unat off) (unat n)" and full: "unat tot < unat n \<longrightarrow> (\<forall>m<fs_size ?b. used ?b W m)"
    for tot off' :: u32 and t B' W y
  proof -
    let ?d = "unat tot"
    note a = w [unfolded wrote_def Let_def]
    define sz where "sz = (if off' > i_size ?x then off' else i_size ?x)"
    let ?t = "set_inode ip (\<lambda>x. x\<lparr>i_size := sz\<rparr>) t" and ?c = "IBLOCK (i_inum ?x) ?b"
    have y: "i_size y = i_size ?x" "i_dev y = i_dev ?x" "i_inum y = i_inum ?x" "inodes t ip = y" "sb t = ?b" "lg_start t = lg_start s"
      using a ikeptD(3,4) [of s t] by auto
    have st: "(if off' > i_size (inodes t ip) then set_inode ip (\<lambda>x. x\<lparr>i_size := off'\<rparr>) t else t) = ?t"
      using y(1,4) by (simp add: sz_def set_inode_def fun_upd_idem)
    let ?X = "W(?c := write_dinode (y\<lparr>i_size := sz\<rparr>) (dinode_off (i_inum y)) (W ?c))"
    have up: "runs (iupdate ip ?t) (\<lambda>_ u. fkept ?t u \<and> ftx p (i_dev ?x) Map.empty (insert ?c B') ?X u)"
      using iupdate_spec [of p ?t ip B' W] a y v(5) B' cap by (simp add: set_inode_def owned_def)
    have sz: "unat sz = max (unat (i_size ?x)) (unat off + length (take ?d ?xs))"
      using d length_source [OF src] by (auto simp: sz_def word_less_nat_alt)
    have si: "sint tot = int ?d" using d(1) off(2) M by (intro sint_small) linarith
    have "Q (sint tot) u" if u: "fkept ?t u \<and> ftx p (i_dev ?x) Map.empty (insert ?c B') ?X u" for u unfolding Q_def
    proof (intro exI conjI)
      show "stored p ip (unat off) (take ?d ?xs) V s u (insert ?c B') ?X"
        by (rule stored_inode [OF w inv _ _ sz refl refl]) (use u off d(1) length_source [OF src] in \<open>simp_all add: word_le_nat_alt\<close>)
      show "?d < unat n \<longrightarrow> (\<forall>m<fs_size ?b. used ?b ?X m)" using full used_other v(5) by (auto simp: owned_def)
      show "card (insert ?c B') \<le> Suc (card B + 6 * nblk (unat off) (unat n))" using card_insert_Suc [of ?c B'] B' by linarith
    qed (use si d(1) in simp_all)
    then show ?thesis unfolding st Let_def runs_bnd by (intro runs_mono [OF up]) simp
  qed
  show ?thesis unfolding writei_def if_not_P [OF g(1)] if_not_P [OF g(2)] runs_bnd Q_def [symmetric]
    by (rule runs_mono [OF lp]) (use fin in \<open>auto simp: length_source [OF src]\<close>)
qed

lemma readi_inside:
  assumes "ftx p (i_dev (inodes s ip)) Map.empty B V s" "file_inv (sb s) (log_area (lg_start s)) V (inodes s ip)" "card B < NBUF"
    and le: "unat off + unat n \<le> unat (i_size (inodes s ip))"
    and d: "dest_ok (mem s) (p_pagetable (procs s p)) user dst (unat n) (mem s)" "dst_room (mem s) (p_pagetable (procs s p)) user dst (unat n) = unat n"
  shows "runs (readi ap ip user dst km off n s) (\<lambda>(r, km') t. r = int (unat n) \<and>
    received (mem s) (p_pagetable (procs s p)) user dst (take (unat n) (drop (unat off) (contents V (inodes s ip)))) (mem s) km (mem t) km')"
proof -
  let ?x = "inodes s ip"
  note v = file_invD [OF assms(2)]
  have M: "MAXFILE * BSIZE < 2 ^ 31" by (simp add: MAXFILE_def NDIRECT_def NINDIRECT_def)
  have ov: "unat (off + n) = unat off + unat n" using le v(3) M by (simp add: unat_word_ariths)
  then have g: "\<not> (off > i_size ?x \<or> off + n < off)" "\<not> off + n > i_size ?x" using le by (simp_all add: word_less_nat_alt)
  have sm: "sint n = int (unat n)" using le v(3) M by (intro sint_small) linarith
  have b: "backed V ?x (unat off) (unat n)" using v(4) le unfolding backed_def by simp
  have c: "take (unat n) (drop (unat off) (contents V ?x)) = fbytes V ?x (unat off) (unat n)"
    using le by (simp add: contents_def fbytes_def drop_map take_map take_upt)
  have l: "length (fbytes V ?x (unat off) (unat n)) = unat n" by (simp add: fbytes_def)
  have "readi ap ip user dst km off n s = readi_loop ap ip user dst km off n 0 s"
    using g by (simp add: readi_def Let_def)
  then show ?thesis using readi_loop_spec [of p s ip B V 0 n off "mem s" user dst ap km] assms(1,3) v(1,3) le b d
    by (auto simp: sm c read_end_def Let_def l elim!: runs_mono)
qed

text \<open>
  C4. Seen as a list of bytes, a file is overwritten by \<open>writei\<close>: a write that starts beyond the end or
  ends beyond the largest file is refused with nothing changed; any other puts a prefix of the source at
  the offset, extends the file if needed and returns its length, which is that of the whole source
  unless no block is free. Inode and disk agree on the new size and blocks, the file stays well-formed,
  and the contents of every other file are the same. The source is in kernel memory or in mapped pages
  of the process, and the log has room for six blocks per block of the range and one more.
\<close>

theorem writei_overwrites:
  fixes s :: "'a fs_st_scheme" and ip :: nat
  defines "x \<equiv> inodes s ip"
  assumes ftx: "ftx p (i_dev x) Map.empty B V s" and inv: "file_inv (sb s) (log_area (lg_start s)) V x"
    and src: "source_ok p user src ksrc (unat n) s" and cap: "card B + 6 * nblk (unat off) (unat n) < LOGSIZE - 2"
  shows "if off > i_size x \<or> unat off + unat n > MAXFILE * BSIZE then writei ap ip user src ksrc off n s = Ok (- 1) s
    else runs (writei ap ip user src ksrc off n s) (\<lambda>r t. \<exists>d B' W. r = int d \<and> d \<le> unat n \<and>
      (d < unat n \<longrightarrow> (\<forall>m<fs_size (sb s). used (sb s) W m)) \<and>
      stored p ip (unat off) (take d (source p user src ksrc (unat n) s)) V s t B' W)"
proof (cases "off > i_size x \<or> unat off + unat n > MAXFILE * BSIZE")
  case True
  have "off > i_size x \<or> off + n < off \<or> off + n > of_nat (MAXFILE * BSIZE)"
  proof (cases "unat off + unat n < 2 ^ 32")
    case a: True
    then have "unat (off + n) = unat off + unat n" by (simp add: unat_word_ariths)
    moreover have "unat (of_nat (MAXFILE * BSIZE) :: u32) = MAXFILE * BSIZE" by (simp add: MAXFILE_def NDIRECT_def NINDIRECT_def)
    ultimately show ?thesis using True by (auto simp: word_less_nat_alt)
  next
    case False
    then have "\<not> off \<le> off + n" using no_olen_add_nat [of off n] by simp
    then show ?thesis by (simp add: not_le)
  qed
  then show ?thesis using True by (auto simp: writei_def x_def)
next
  case False
  then show ?thesis using writei_spec [of p s ip B V user src ksrc n off ap] ftx inv src cap
    by (auto simp: x_def word_less_nat_alt not_less elim!: runs_mono)
qed

text \<open>
  C7. What \<open>writei\<close> has put into a file \<open>readi\<close> gets back: a read of as many bytes as were written, at the
  same offset, stores exactly the bytes of the source at the destination, and changes no other byte of
  memory. Source and destination are each in kernel memory or in mapped pages of the process.
\<close>

theorem writei_readi_roundtrip:
  fixes s :: "'a fs_st_scheme" and ip p :: nat
  defines "x \<equiv> inodes s ip" and "pt \<equiv> p_pagetable (procs s p)"
  assumes ftx: "ftx p (i_dev x) Map.empty B V s" and inv: "file_inv (sb s) (log_area (lg_start s)) V x"
    and src: "source_ok p user src ksrc (unat n) s" and cap: "card B + 6 * nblk (unat off) (unat n) < LOGSIZE - 2"
    and off: "unat off \<le> unat (i_size x)" "unat off + unat n \<le> MAXFILE * BSIZE"
    and dst: "user_dst \<Longrightarrow> pt_safe (mem s) pt dst (unat n) \<and> (\<forall>i<unat n. umapped (mem s) pt (dst + of_nat i))"
  shows "runs (bnd (writei ap ip user src ksrc off n s) (\<lambda>w t. bnd (readi ap ip user_dst dst km off (of_int w) t) (\<lambda>r u. Ok (w, r) u)))
    (\<lambda>(w, r, km') u. 0 \<le> w \<and> nat w \<le> unat n \<and> r = w \<and>
      received (mem s) pt user_dst dst (take (nat w) (source p user src ksrc (unat n) s)) (mem s) km (mem u) km')"
  unfolding runs_bnd
proof (rule runs_mono [OF writei_spec [OF ftx [unfolded x_def] inv [unfolded x_def] src cap off [unfolded x_def]]], elim exE conjE)
  fix w and t :: "'a fs_st_scheme" and d B' W
  let ?y = "inodes t ip" and ?ys = "take d (source p user src ksrc (unat n) s)"
  assume d: "w = int d" "d \<le> unat n" "card B' \<le> Suc (card B + 6 * nblk (unat off) (unat n))" and st: "stored p ip (unat off) ?ys V s t B' W"
  note a = st [unfolded stored_def Let_def]
  have "inodes t = (inodes s)(ip := x\<lparr>i_addrs := i_addrs ?y, i_size := i_size ?y\<rparr>)" using a by (simp add: x_def)
  from fun_cong [OF this, of ip] have "?y = x\<lparr>i_addrs := i_addrs ?y, i_size := i_size ?y\<rparr>" by simp
  from arg_cong [OF this, of i_dev] have k: "i_dev ?y = i_dev x" "sb t = sb s" "lg_start t = lg_start s" using a ikeptD(3,4) [of s t] by simp_all
  have l: "length (contents V x) = unat (i_size x)" "length (contents W ?y) = unat (i_size ?y)" by (simp_all add: contents_def fbytes_def)
  have co: "contents W ?y = overwrite (unat off) ?ys (contents V x)" using a by (simp add: x_def)
  have ly: "length ?ys = d" using d(2) length_source [OF src] by simp
  have sz: "unat off + d \<le> unat (i_size ?y)" using l off(1) co ly by (simp add: overwrite_nth)
  have "unat n < 2 ^ LENGTH(32)" by (rule unsigned_less)
  then have ud: "unat (of_nat d :: u32) = d" using d(2) by (simp add: unat_of_nat)
  have m: "mem t = mem s" "p_pagetable (procs t p) = pt" using a ikeptD(5) [of s t] ikeptD(7) [of s t p] by (auto simp: pt_def)
  have dt: "dest_ok (mem t) (p_pagetable (procs t p)) user_dst dst (unat (of_nat d :: u32)) (mem t)"
    "dst_room (mem t) (p_pagetable (procs t p)) user_dst dst (unat (of_nat d :: u32)) = unat (of_nat d :: u32)"
    unfolding m ud using dst d(2) pt_safe_mono [of "mem s" pt dst "unat n" d] by (auto simp: dest_ok_def dst_room_def ulen_all)
  have "runs (readi ap ip user_dst dst km off (of_int w) t) (\<lambda>(r, km') u. r = int (unat (of_nat d :: u32)) \<and>
      received (mem t) (p_pagetable (procs t p)) user_dst dst (take (unat (of_nat d :: u32)) (drop (unat off) (contents W ?y))) (mem t) km (mem u) km')"
    unfolding d(1) of_int_of_nat_eq by (rule readi_inside [where B = B', OF _ _ _ _ dt]) (use a k d(3) cap sz ud in \<open>simp_all add: x_def\<close>)
  then show "runs (readi ap ip user_dst dst km off (of_int w) t) (\<lambda>r u. runs (Ok (w, r) u)
      (\<lambda>(w, r, km') u. 0 \<le> w \<and> nat w \<le> unat n \<and> r = w \<and>
        received (mem s) pt user_dst dst (take (nat w) (source p user src ksrc (unat n) s)) (mem s) km (mem u) km'))"
    unfolding m
    using overwrite_window [of "unat off" "contents V x" ?ys] off(1) l(1) ly d(1,2)
    by (auto simp: ud co elim!: runs_mono)
qed

section \<open>Witnesses\<close>

lemma small_file_inv: "file_inv small_sb (log_area 2) small_disk small_file"
proof -
  have "(34 :: u32) \<notin> log_area 2" by (rule outside_log) simp
  then have "owned small_sb (log_area 2) small_disk 34"
    using small_disk_used [of 34] by (auto simp: owned_def small_disk_def intro!: exI [of _ 34])
  moreover have "(34 :: u32) \<notin> fblocks small_disk small_file"
    by (auto simp: fblocks_def small_file_addr) (simp add: small_file_def NDIRECT_def)
  moreover have "i_size small_file = 5" "IBLOCK (i_inum small_file) small_sb = 34" "5 \<le> MAXFILE * BSIZE"
    by (simp_all add: small_file_def IBLOCK_def IPB_def small_sb_def MAXFILE_def NDIRECT_def)
  ultimately show ?thesis using small_file_ok small_disk_ok small_file_backed [of 5] by (simp add: file_inv_def)
qed

lemma small_write:
  "i_dev (inodes file_machine 3) = 1" "i_size (inodes file_machine 3) = 5" "nblk (unat (2 :: u32)) (unat (4 :: u32)) = 1"
  "source_ok 0 False 0 [1, 2, 3, 4] (unat (4 :: u32)) file_machine" "source 0 False 0 [1, 2, 3, 4] (unat (4 :: u32)) file_machine = [1, 2, 3, 4]"
  by (simp_all add: small_file_def nblk_def source_ok_def source_def)

theorem writei_overwrites_witness:
  "runs (writei (\<lambda>_ s. Ok 0 s) 3 False 0 [1, 2, 3, 4] 2 4 file_machine) (\<lambda>r t. \<exists>d B' W. r = int d \<and> d \<le> 4 \<and>
    (d = 4 \<longrightarrow> contents W (inodes t 3) = [104, 101, 1, 2, 3, 4]))"
proof -
  have M: "unat (2 :: u32) + unat (4 :: u32) \<le> MAXFILE * BSIZE" "(0 :: nat) < MAXFILE" by (simp_all add: MAXFILE_def NDIRECT_def)
  have c: "contents small_disk small_file = [104, 101, 108, 108, 111]"
    using M(2) by (simp add: contents_def fbytes_def fbyte_def small_file_addr small_disk_def upt_rec nth_append) (simp add: small_file_def)
  have "runs (writei (\<lambda>_ s. Ok 0 s) 3 False 0 [1, 2, 3, 4] 2 4 file_machine) (\<lambda>r t. \<exists>d B' W. r = int d \<and> d \<le> unat (4 :: u32) \<and>
      (d < unat (4 :: u32) \<longrightarrow> (\<forall>m<fs_size (sb file_machine). used (sb file_machine) W m)) \<and>
      stored 0 3 (unat (2 :: u32)) (take d [1, 2, 3, 4]) small_disk file_machine t B' W)"
    using writei_overwrites [of 0 file_machine 3 "{}" small_disk False 0 "[1, 2, 3, 4]" 4 2 "\<lambda>_ s. Ok 0 s"] small_write
      file_machine_ftx small_file_inv M(1) by simp
  moreover have "contents W (inodes t 3) = [104, 101, 1, 2, 3, 4]" if "stored 0 3 2 [1, 2, 3, 4] small_disk file_machine t B' W" for t B' W
    using that by (simp add: stored_def Let_def c overwrite_def)
  ultimately show ?thesis by (elim runs_mono) (fastforce simp del: One_nat_def)
qed

theorem writei_readi_roundtrip_witness:
  "runs (bnd (writei (\<lambda>_ s. Ok 0 s) 3 False 0 [1, 2, 3, 4] 2 4 user_machine)
      (\<lambda>w t. bnd (readi (\<lambda>_ s. Ok 0 s) 3 True 0xFFE (\<lambda>_. 0) 2 (of_int w) t) (\<lambda>r u. Ok (w, r) u)))
    (\<lambda>(w, r, _) u. w \<le> 4 \<and> r = w \<and> mem u = ustore (mem two_pages) 0x1000 0xFFE (take (nat w) [1, 2, 3, 4]) (mem two_pages))"
proof -
  have M: "unat (2 :: u32) + unat (4 :: u32) \<le> MAXFILE * BSIZE" by (simp add: MAXFILE_def NDIRECT_def)
  have e: "i_dev small_file = 1" "i_size small_file = 5" by (simp_all add: small_file_def)
  have s: "source_ok 0 False 0 [1, 2, 3, 4] (unat (4 :: u32)) user_machine" "source 0 False 0 [1, 2, 3, 4] (unat (4 :: u32)) user_machine = [1, 2, 3, 4]"
    by (simp_all add: source_ok_def source_def)
  show ?thesis
    using writei_readi_roundtrip [where s = user_machine and ip = 3 and p = 0 and V = small_disk and B = "{}" and user = False and src = 0
        and ksrc = "[1, 2, 3, 4]" and n = 4 and off = 2 and user_dst = True and dst = "0xFFE" and ap = "\<lambda>_ s. Ok 0 s" and km = "\<lambda>_. 0",
        unfolded user_machine_simps e]
      small_write(3) s user_machine_ftx small_file_inv M two_pages_safe(1) two_pages_range(3) by (auto simp: received_def elim!: runs_mono)
qed

end
