(* ===== verification/Byte_Ring.thy ===== *)
theory Byte_Ring
  imports Prelude
begin

text \<open>
  The buffers of pipes, of the console and of the serial port have one layout: an array whose size is
  a power of two, and two counters of all items ever taken and stored, which wrap around at their
  word size and index the array by their remainder. \<open>ring_queue\<close> is the queue such a buffer stands
  for; the locale \<open>bounded_queue\<close> is what its users rely on.
\<close>

section \<open>Counters and remainders\<close>

definition ring_queue :: "'b list \<Rightarrow> 'l::len word \<Rightarrow> 'l word \<Rightarrow> 'b list" where
  "ring_queue xs r w = map (\<lambda>k. xs ! (unat (r + of_nat k) mod length xs)) [0..<unat (w - r)]"

definition ring_ok :: "'b list \<Rightarrow> 'l::len word \<Rightarrow> 'l word \<Rightarrow> bool" where
  "ring_ok xs r w \<longleftrightarrow> (\<exists>k < LENGTH('l). length xs = 2 ^ k) \<and> unat (w - r) \<le> length xs"

lemma length_ring_queue: "length (ring_queue xs r w) = unat (w - r)"
  by (simp add: ring_queue_def)

lemma ring_queue_nil: "ring_queue xs r w = [] \<longleftrightarrow> w = r"
  by (simp add: ring_queue_def unat_eq_zero)

lemma unat_pow2_mod:
  fixes r :: "'l::len word"
  assumes "k \<le> LENGTH('l)"
  shows "unat (r + of_nat n) mod 2 ^ k = (unat r + n) mod 2 ^ k"
  using assms by (simp add: unat_word_ariths unsigned_of_nat take_bit_eq_mod mod_mod_cancel le_imp_power_dvd mod_add_right_eq)

lemma diff_next:
  fixes r w :: "'l::len word"
  assumes "w \<noteq> r"
  shows "unat (w - r) = Suc (unat (w - (r + 1)))"
  using assms unat_minus_one [of "w - r"] unat_gt_0 [of "w - r"] by (simp add: diff_diff_eq)

lemma ring_queue_get:
  fixes r w :: "'l::len word"
  assumes "w \<noteq> r"
  shows "ring_queue xs r w = xs ! (unat r mod length xs) # ring_queue xs (r + 1) w"
  unfolding ring_queue_def diff_next [OF assms] map_upt_Suc by (simp add: add.assoc)

lemma ring_ok_get: "ring_ok xs r w \<Longrightarrow> w \<noteq> r \<Longrightarrow> ring_ok xs (r + 1) w"
  by (auto simp: ring_ok_def dest: diff_next)

lemma diff_put:
  fixes r w :: "'l::len word"
  assumes "ring_ok xs r w" "unat (w - r) < length xs"
  shows "unat (w + 1 - r) = Suc (unat (w - r))"
proof -
  obtain k where "k < LENGTH('l)" "length xs = 2 ^ k" using assms(1) by (auto simp: ring_ok_def)
  moreover have "(2 :: nat) ^ k < 2 ^ LENGTH('l)" using \<open>k < LENGTH('l)\<close> by simp
  ultimately have "Suc (unat (w - r)) < 2 ^ LENGTH('l)" using assms(2) by linarith
  then have "unat (w - r + 1) = unat (w - r) + 1" using unat_add_lem [of "w - r" 1] by simp
  then show ?thesis by (simp add: algebra_simps)
qed

lemma mod_add_left_cancel:
  assumes "i < n" "j < n"
  shows "(a + i) mod n = (a + j) mod n \<longleftrightarrow> i = (j :: nat)"
proof
  assume e: "(a + i) mod n = (a + j) mod n"
  have c: "(n - a mod n + (a + i)) mod n = i mod n" for i
  proof -
    have u: "n - a mod n + (a + i) = n + n * (a div n) + i"
      using assms(1) mult_div_mod_eq [of n a] mod_less_divisor [of n a] by linarith
    show ?thesis unfolding u by (simp only: add.assoc mod_add_self1 mod_mult_self4)
  qed
  have "(n - a mod n + (a + i)) mod n = (n - a mod n + (a + j)) mod n" using e by (metis mod_add_right_eq)
  then show "i = j" unfolding c using assms by simp
qed simp

lemma ring_slots:
  fixes r w :: "'l::len word"
  assumes "ring_ok xs r w" "j < length xs" "unat (w - r) < length xs"
  shows "unat (r + of_nat j) mod length xs = unat w mod length xs \<longleftrightarrow> j = unat (w - r)"
proof -
  obtain k where k: "k < LENGTH('l)" "length xs = 2 ^ k" using assms(1) by (auto simp: ring_ok_def)
  have "w = r + of_nat (unat (w - r))" by simp
  then have "unat w mod length xs = (unat r + unat (w - r)) mod length xs" using unat_pow2_mod [of k r "unat (w - r)"] k by simp
  moreover have "unat (r + of_nat j) mod length xs = (unat r + j) mod length xs" using unat_pow2_mod [of k r j] k by simp
  ultimately show ?thesis using assms(2,3) by (simp add: mod_add_left_cancel)
qed

lemma ring_queue_put:
  fixes r w :: "'l::len word"
  assumes "ring_ok xs r w" "unat (w - r) < length xs"
  shows "ring_queue (xs[unat w mod length xs := c]) r (w + 1) = ring_queue xs r w @ [c]"
proof (rule nth_equalityI)
  fix j assume "j < length (ring_queue (xs[unat w mod length xs := c]) r (w + 1))"
  then have j: "j \<le> unat (w - r)" by (simp add: length_ring_queue diff_put [OF assms])
  have "unat w mod length xs < length xs" using assms(2) by (intro mod_less_divisor) linarith
  then show "ring_queue (xs[unat w mod length xs := c]) r (w + 1) ! j = (ring_queue xs r w @ [c]) ! j"
    using assms j ring_slots [OF assms(1) _ assms(2), of j]
    by (auto simp: ring_queue_def diff_put [OF assms] nth_append nth_list_update simp del: upt_Suc)
qed (simp add: length_ring_queue diff_put [OF assms])

lemma ring_ok_put: "ring_ok xs r w \<Longrightarrow> unat (w - r) < length xs \<Longrightarrow> ring_ok (xs[i := c]) r (w + 1)"
  using diff_put [of xs r w] by (auto simp: ring_ok_def)

text \<open>Taking the newest item back.\<close>

lemma ring_queue_unput:
  fixes r w :: "'l::len word"
  assumes "w \<noteq> r"
  shows "ring_queue xs r (w - 1) = butlast (ring_queue xs r w)"
proof -
  have "unat (w - r) = Suc (unat (w - 1 - r))" using diff_next [OF assms] by (simp add: algebra_simps)
  then show ?thesis by (simp add: ring_queue_def map_butlast)
qed

lemma ring_full:
  fixes r w :: "'l::len word"
  assumes "ring_ok xs r w"
  shows "w = r + of_nat (length xs) \<longleftrightarrow> unat (w - r) = length xs"
proof -
  obtain k where "k < LENGTH('l)" "length xs = 2 ^ k" using assms by (auto simp: ring_ok_def)
  then have l: "length xs < 2 ^ LENGTH('l)" by simp
  have "w = r + of_nat (length xs) \<longleftrightarrow> w - r = of_nat (length xs)" by (auto simp: algebra_simps)
  also have "\<dots> \<longleftrightarrow> unat (w - r) = length xs" using l by (simp add: word_unat_eq_iff unsigned_of_nat take_bit_nat_eq_self)
  finally show ?thesis .
qed

section \<open>Bounded queues\<close>

locale bounded_queue =
  fixes ok :: "'s \<Rightarrow> bool"
    and contents :: "'s \<Rightarrow> 'b list"
    and capacity :: nat
    and put :: "'b \<Rightarrow> 's \<Rightarrow> 's"
    and get :: "'s \<Rightarrow> 'b \<times> 's"
  assumes put_law: "ok s \<Longrightarrow> length (contents s) < capacity \<Longrightarrow> ok (put b s) \<and> contents (put b s) = contents s @ [b]"
    and get_law: "ok s \<Longrightarrow> contents s \<noteq> [] \<Longrightarrow> ok (snd (get s)) \<and> contents s = fst (get s) # contents (snd (get s))"
begin

lemma puts: "ok s \<Longrightarrow> length (contents s) + length bs \<le> capacity \<Longrightarrow> ok (fold put bs s) \<and> contents (fold put bs s) = contents s @ bs"
proof (induction bs arbitrary: s)
  case (Cons b bs)
  then show ?case using put_law [of s b] Cons.IH [of "put b s"] by simp
qed simp

lemma gets: "ok s \<Longrightarrow> n \<le> length (contents s) \<Longrightarrow> ok (((\<lambda>a. snd (get a)) ^^ n) s) \<and> contents (((\<lambda>a. snd (get a)) ^^ n) s) = drop n (contents s)"
proof (induction n)
  case (Suc n)
  let ?t = "((\<lambda>a. snd (get a)) ^^ n) s"
  have t: "ok ?t" "contents ?t = drop n (contents s)" using Suc by simp_all
  then have "contents ?t \<noteq> []" using Suc.prems(2) by simp
  then have "ok (snd (get ?t))" "contents ?t = fst (get ?t) # contents (snd (get ?t))" using get_law [OF t(1)] by simp_all
  then show ?case using t(2) by (simp add: drop_Suc drop_tl)
qed simp

end

end
