(* ===== verification/Pipe.thy ===== *)
theory Pipe
  imports File Uaccess Byte_Ring
begin

text \<open>
  The pipes of \<open>kernel/pipe.c\<close> as bounded queues of bytes: what \<open>pipewrite\<close> and \<open>piperead\<close> do to
  the queue and to user memory.
\<close>

section \<open>The queue of a pipe\<close>

definition pipe_queue :: "pipe \<Rightarrow> u8 list" where
  "pipe_queue x = ring_queue (pi_data x) (pi_nread x) (pi_nwrite x)"

definition pipe_ok :: "pipe \<Rightarrow> bool" where
  "pipe_ok x \<longleftrightarrow> length (pi_data x) = PIPESIZE \<and> unat (pi_nwrite x - pi_nread x) \<le> PIPESIZE"

definition pipe_get :: "pipe \<Rightarrow> u8 \<times> pipe" where
  "pipe_get x = (pi_data x ! (unat (pi_nread x) mod PIPESIZE), x\<lparr>pi_nread := pi_nread x + 1\<rparr>)"

lemma pipe_ring: "pipe_ok x \<longleftrightarrow> ring_ok (pi_data x) (pi_nread x) (pi_nwrite x) \<and> length (pi_data x) = PIPESIZE"
  by (auto simp: pipe_ok_def ring_ok_def intro!: exI [of _ 9])

interpretation pipe_bytes: bounded_queue pipe_ok pipe_queue PIPESIZE pipe_put pipe_get
proof unfold_locales
  fix x :: pipe and b
  assume x: "pipe_ok x" "length (pipe_queue x) < PIPESIZE"
  then have l: "length (pi_data x) = 512" "ring_ok (pi_data x) (pi_nread x) (pi_nwrite x)"
    "unat (pi_nwrite x - pi_nread x) < length (pi_data x)"
    by (simp_all add: pipe_ring pipe_queue_def length_ring_queue)
  show "pipe_ok (pipe_put b x) \<and> pipe_queue (pipe_put b x) = pipe_queue x @ [b]"
    using ring_queue_put [OF l(2,3), of b] ring_ok_put [OF l(2,3), of "unat (pi_nwrite x) mod 512" b] l(1)
    by (simp add: pipe_ring pipe_queue_def pipe_put_def)
next
  fix x :: pipe
  assume x: "pipe_ok x" "pipe_queue x \<noteq> []"
  then have l: "length (pi_data x) = 512" "ring_ok (pi_data x) (pi_nread x) (pi_nwrite x)" "pi_nwrite x \<noteq> pi_nread x"
    by (simp_all add: pipe_ring pipe_queue_def ring_queue_nil)
  show "pipe_ok (snd (pipe_get x)) \<and> pipe_queue x = fst (pipe_get x) # pipe_queue (snd (pipe_get x))"
    using ring_queue_get [OF l(3), of "pi_data x"] ring_ok_get [OF l(2,3)] l(1)
    by (simp add: pipe_ring pipe_queue_def pipe_get_def)
qed

lemma pipe_empty: "pi_nread x = pi_nwrite x \<longleftrightarrow> pipe_queue x = []"
  by (auto simp: pipe_queue_def ring_queue_nil)

lemma pipe_full: "pipe_ok x \<Longrightarrow> pi_nwrite x = pi_nread x + 512 \<longleftrightarrow> length (pipe_queue x) = PIPESIZE"
  using ring_full [of "pi_data x" "pi_nread x" "pi_nwrite x"] by (simp add: pipe_ring pipe_queue_def length_ring_queue)

section \<open>Writing\<close>

definition can_write :: "nat \<Rightarrow> u64 \<Rightarrow> 'a file_st_scheme \<Rightarrow> bool" where
  "can_write p pi s \<longleftrightarrow> settled s \<and> lock_free (ProcLock p) s \<and> \<not> p_killed (procs s p) \<and> pi_readopen (pipes s pi)"

lemma set_pipe_simps [simp]:
  "mem (set_pipe pi f s) = mem s" "procs (set_pipe pi f s) = procs s" "tp (set_pipe pi f s) = tp s"
  "cpus (set_pipe pi f s) = cpus s" "locks (set_pipe pi f s) = locks s"
  "pipes (set_pipe pi f s) pi = f (pipes s pi)" "settled (set_pipe pi f s) = settled s"
  "lock_free L (set_pipe pi f s) = lock_free L s"
  by (simp_all add: set_pipe_def settled_def cpu_ok_def machine_defs lock_free_def)

lemma set_pipe_set_pipe: "set_pipe pi f (set_pipe pi g s) = set_pipe pi (f \<circ> g) s"
  by (simp add: set_pipe_def)

lemma set_pipe_id: "set_pipe pi (\<lambda>x. x) s = s"
  by (simp add: set_pipe_def)

lemma pipewrite_loop_room:
  assumes "can_write p pi s" "pipe_ok (pipes s pi)" "length (pipe_queue (pipes s pi)) + n \<le> PIPESIZE"
    "p_pagetable (procs s p) = pt"
  shows "pipewrite_loop ap pi p va n i s = Ok (Some (i + int (ulen (mem s) pt va n)))
    (set_pipe pi (fold pipe_put (ubytes (mem s) pt va (ulen (mem s) pt va n))) s)"
  using assms
proof (induction n arbitrary: va i s)
  case 0
  then show ?case by (simp add: set_pipe_id id_def)
next
  case (Suc n)
  let ?q = "pipe_queue (pipes s pi)" and ?s = "set_pipe pi (pipe_put (mem s (uaddr (mem s) pt va))) s"
  have k: "killed p s = Ok False s" using Suc.prems(1) by (simp add: can_write_def killed_settled)
  have f: "pi_nwrite (pipes s pi) \<noteq> pi_nread (pipes s pi) + 512" using Suc.prems(2,3) by (simp add: pipe_full)
  have p: "pipe_ok (pipe_put b (pipes s pi)) \<and> pipe_queue (pipe_put b (pipes s pi)) = ?q @ [b]" for b
    using pipe_bytes.put_law [OF Suc.prems(2)] Suc.prems(3) by simp
  have "can_write p pi ?s" using Suc.prems(1) by (simp add: can_write_def pipe_put_def)
  then have "pipewrite_loop ap pi p (va + 1) n (i + 1) ?s = Ok (Some (i + 1 + int (ulen (mem s) pt (va + 1) n)))
      (set_pipe pi (fold pipe_put (ubytes (mem s) pt (va + 1) (ulen (mem s) pt (va + 1) n))) ?s)"
    using Suc.IH [of ?s "va + 1" "i + 1"] Suc.prems p by simp
  then show ?case using k f Suc.prems(1,4)
    by (simp add: can_write_def copyin_1 [unfolded One_nat_def] ulen_Suc ubytes_Suc set_pipe_set_pipe set_pipe_id id_def comp_def)
qed

lemma set_pipe_enter: "set_pipe pi f (enter L s) = enter L (set_pipe pi f s)"
  by (simp add: set_pipe_def enter_def push_off_eq machine_defs)

lemma enter_file_simps [simp]: "pipes (enter L s) = pipes s" "files (enter L s) = files s"
  by (simp_all add: enter_def push_off_eq machine_defs)

text \<open>The sleepers on a channel, woken by process \<open>p\<close>.\<close>

definition waking :: "chan \<Rightarrow> nat \<Rightarrow> 'a proc_st_scheme \<Rightarrow> 'a proc_st_scheme" where
  "waking ch p s = s\<lparr>procs := woken {..<NPROC} (Some ch) (Some p) (procs s)\<rparr>"

lemma wakeup_release:
  assumes "quiet p s" "\<And>i. L \<noteq> ProcLock i"
  shows "bnd (wakeup (Some ch) (enter L s)) (\<lambda>_ s. bnd (release L s) (\<lambda>_ s. Ok r s)) = Ok r (waking ch p s)"
proof -
  have q: "settled s" "lock_free L s" "c_proc (cpus s (tp s)) = Some p" "table_free s" using quietD [OF assms(1)] by blast+
  have "table_free (enter L s)" using q(4) assms(2) [symmetric] by (simp add: table_free_def)
  then show ?thesis using q by (simp add: wakeup_woken bracket_procs waking_def)
qed

lemma quiet_set_pipe [simp]: "quiet p (set_pipe pi f s) = quiet p s"
  by (rule quiet_cong) simp_all

lemma waking_simps [simp]:
  "quiet q (waking ch p s) = quiet q s" "pipes (waking ch p s) = pipes s" "mem (waking ch p s) = mem s"
  "procs (waking ch p s) = woken {..<NPROC} (Some ch) (Some p) (procs s)"
  by (rule quiet_cong) (simp_all add: waking_def)

lemma pipewrite_room:
  assumes "quiet p s" "\<not> p_killed (procs s p)" "pi_readopen (pipes s pi)" "pipe_ok (pipes s pi)"
    "length (pipe_queue (pipes s pi)) + n \<le> PIPESIZE" "p_pagetable (procs s p) = pt" "m = ulen (mem s) pt va n"
  shows "pipewrite ap pi va (int n) s = Ok (int m) (waking (ChanPipeRead pi) p (set_pipe pi (fold pipe_put (ubytes (mem s) pt va m)) s))"
proof -
  have "can_write p pi (enter (PipeLock pi) s)" using assms quietD [OF assms(1)] by (simp add: can_write_def)
  then show ?thesis
    using assms quietD [OF assms(1)]
    by (simp add: pipewrite_def this_proc_deref_settled acquire_free pipewrite_loop_room set_pipe_enter wakeup_release)
qed

text \<open>A pipe without room for all bytes: the writer fills it, wakes the readers and sleeps.\<close>

lemma pipewrite_loop_full:
  assumes "can_write p pi s" "table_free s" "pipe_ok (pipes s pi)" "length (pipe_queue (pipes s pi)) + n > PIPESIZE"
    "p_pagetable (procs s p) = pt" "\<And>i. i < n \<Longrightarrow> umapped (mem s) pt (va + of_nat i)"
  shows "pipewrite_loop ap pi p va n i s = Block"
  using assms
proof (induction n arbitrary: va i s)
  case 0
  then show ?case by (simp add: pipe_ok_def pipe_queue_def length_ring_queue)
next
  case (Suc n)
  let ?q = "pipe_queue (pipes s pi)"
  have k: "killed p s = Ok False s" using Suc.prems(1) by (simp add: can_write_def killed_settled)
  have u: "umapped (mem s) pt va" using Suc.prems(6) [of 0] by simp
  show ?case
  proof (cases "length ?q = PIPESIZE")
    case True
    then show ?thesis using k Suc.prems(1,2,3) by (simp add: can_write_def pipe_full wakeup_woken)
  next
    case False
    let ?s = "set_pipe pi (pipe_put (mem s (uaddr (mem s) pt va))) s"
    have "length ?q < PIPESIZE" using False Suc.prems(3) by (simp add: pipe_ok_def pipe_queue_def length_ring_queue)
    then have p: "pipe_ok (pipe_put b (pipes s pi)) \<and> pipe_queue (pipe_put b (pipes s pi)) = ?q @ [b]" for b
      using pipe_bytes.put_law [OF Suc.prems(3)] by simp
    have "pipewrite_loop ap pi p (va + 1) n (i + 1) ?s = Block"
      using Suc.prems p Suc.prems(6) [of "Suc _"]
      by (intro Suc.IH) (simp_all add: can_write_def pipe_put_def table_free_def add.assoc)
    then show ?thesis using k u False Suc.prems(1,3,5)
      by (simp add: can_write_def pipe_full copyin_1 [unfolded One_nat_def])
  qed
qed

text \<open>
  C14. \<open>pipewrite\<close> refines appending to a bounded queue. For a live writer on a pipe that is open for
  reading: when the queue has room for all \<open>n\<close> bytes, the call returns the number of bytes before
  the first unmapped page, appends exactly these bytes to the queue in order, and wakes the
  sleeping readers. Without enough room it waits. With the read end closed, or the writer killed,
  it returns \<open>-1\<close> and leaves the pipe as it was.
\<close>

theorem pipewrite_refines_queue:
  assumes "quiet p s" "pipe_ok (pipes s pi)" "pt = p_pagetable (procs s p)" "m = ulen (mem s) pt va n"
  shows "(\<not> p_killed (procs s p) \<and> pi_readopen (pipes s pi) \<and> length (pipe_queue (pipes s pi)) + n \<le> PIPESIZE \<longrightarrow>
      runs (pipewrite ap pi va (int n) s) (\<lambda>r t. r = int m \<and> pipe_ok (pipes t pi) \<and>
        pipe_queue (pipes t pi) = pipe_queue (pipes s pi) @ ubytes (mem s) pt va m \<and>
        procs t = woken {..<NPROC} (Some (ChanPipeRead pi)) (Some p) (procs s) \<and> quiet p t)) \<and>
    (\<not> p_killed (procs s p) \<and> pi_readopen (pipes s pi) \<and> length (pipe_queue (pipes s pi)) + n > PIPESIZE \<and> m = n \<longrightarrow>
      pipewrite ap pi va (int n) s = Block) \<and>
    (0 < n \<and> (p_killed (procs s p) \<or> \<not> pi_readopen (pipes s pi)) \<longrightarrow> pipewrite ap pi va (int n) s = Ok (- 1) s)"
proof (intro conjI impI; (elim conjE)?)
  note q = quietD [OF assms(1)]
  let ?L = "PipeLock pi" let ?u = "enter ?L s"
  have pr: "pipewrite ap pi va (int n) s = bnd (pipewrite_loop ap pi p va n 0 ?u) (\<lambda>r s. case r of None \<Rightarrow> Ok (- 1) s
      | Some i \<Rightarrow> bnd (wakeup (Some (ChanPipeRead pi)) s) (\<lambda>_ s. bnd (release ?L s) (\<lambda>_ s. Ok i s)))"
    using q by (simp add: pipewrite_def this_proc_deref_settled acquire_free)
  have e: "settled ?u" "lock_free (ProcLock i) ?u" "table_free ?u" for i using q by (simp_all add: table_free_def)
  { assume a: "\<not> p_killed (procs s p)" "pi_readopen (pipes s pi)" "length (pipe_queue (pipes s pi)) + n \<le> PIPESIZE"
    have b: "length (ubytes (mem s) pt va m) \<le> n" using ulen_le [of "mem s" pt va n] assms(4) by (simp add: ubytes_def)
    show "runs (pipewrite ap pi va (int n) s) (\<lambda>r t. r = int m \<and> pipe_ok (pipes t pi) \<and>
        pipe_queue (pipes t pi) = pipe_queue (pipes s pi) @ ubytes (mem s) pt va m \<and>
        procs t = woken {..<NPROC} (Some (ChanPipeRead pi)) (Some p) (procs s) \<and> quiet p t)"
      using pipewrite_room [OF assms(1) a(1,2) assms(2) a(3) assms(3) [symmetric] assms(4)]
        pipe_bytes.puts [OF assms(2), of "ubytes (mem s) pt va m"] a(3) b assms(1) by simp }
  { assume a: "\<not> p_killed (procs s p)" "pi_readopen (pipes s pi)" "length (pipe_queue (pipes s pi)) + n > PIPESIZE" "m = n"
    have "\<forall>i<n. umapped (mem s) pt (va + of_nat i)" using a(4) assms(4) ulen_all by metis
    then have "pipewrite_loop ap pi p va n 0 ?u = Block" using a assms(2,3) e
      by (intro pipewrite_loop_full [where pt = pt]) (simp_all add: can_write_def)
    then show "pipewrite ap pi va (int n) s = Block" by (simp add: pr) }
  { assume a: "0 < n" "p_killed (procs s p) \<or> \<not> pi_readopen (pipes s pi)"
    obtain k where "n = Suc k" using a(1) by (cases n) auto
    then show "pipewrite ap pi va (int n) s = Ok (- 1) s" unfolding pr
      using a(2) e q killed_settled [OF e(1,2)] by (auto simp: bracket_same) }
qed

section \<open>Reading\<close>

abbreviation (input) taken :: "nat \<Rightarrow> pipe \<Rightarrow> pipe" where
  "taken n \<equiv> (\<lambda>x. snd (pipe_get x)) ^^ n"

lemma set_pipe_mem: "(set_pipe pi f s)\<lparr>mem := m\<rparr> = set_pipe pi f (s\<lparr>mem := m\<rparr>)"
  by (simp add: set_pipe_def)

lemma taken_Suc:
  "set_pipe pi (taken n) ((set_pipe pi (\<lambda>x. x\<lparr>pi_nread := pi_nread x + 1\<rparr>) s)\<lparr>mem := m, mem := m'\<rparr>) =
    set_pipe pi (taken (Suc n)) (s\<lparr>mem := m'\<rparr>)"
proof -
  have "(\<lambda>x. x\<lparr>pi_nread := pi_nread x + 1\<rparr>) = (\<lambda>x. snd (pipe_get x))" by (simp add: pipe_get_def)
  then show ?thesis by (simp add: set_pipe_mem set_pipe_set_pipe funpow_Suc_right del: funpow.simps)
qed

lemma piperead_loop_queue:
  assumes "pipe_ok (pipes s pi)" "p_pagetable (procs s p) = pt" "pt_safe m0 pt va n"
    and "\<And>j b. j < n \<Longrightarrow> b \<in> pt_cells m0 (PGROUNDDOWN (va + of_nat j)) 3 pt \<Longrightarrow> mem s b = m0 b"
    and "k = min n (length (pipe_queue (pipes s pi)))" "m = ulen m0 pt va k"
  shows "piperead_loop ap pi p va n i s = Ok (i + int m)
    (set_pipe pi (taken (if m < k then Suc m else m)) (s\<lparr>mem := ustore m0 pt va (take m (pipe_queue (pipes s pi))) (mem s)\<rparr>))"
  using assms
proof (induction n arbitrary: va i s k m)
  case 0
  then show ?case by (simp add: set_pipe_id id_def ustore_def)
next
  case (Suc n)
  show ?case
  proof (cases "pipe_queue (pipes s pi)")
    case Nil
    then show ?thesis using Suc.prems(5,6) by (simp add: pipe_empty set_pipe_id id_def ustore_def)
  next
    case (Cons c q)
    let ?x = "pipes s pi"
    let ?s = "set_pipe pi (\<lambda>x. x\<lparr>pi_nread := pi_nread x + 1\<rparr>) s"
    have g: "pipe_ok (snd (pipe_get ?x))" "fst (pipe_get ?x) = c" "pipe_queue (snd (pipe_get ?x)) = q"
      using pipe_bytes.get_law [OF Suc.prems(1)] Cons by simp_all
    have c: "copyout ap pt va [c] ?s = (if umapped m0 pt va then Ok 0 (?s\<lparr>mem := (mem s)(uaddr m0 pt va := c)\<rparr>) else Ok (- 1) ?s)"
      using copyout_1 [OF Suc.prems(3), of ?s ap c] Suc.prems(4) [of 0] by simp
    let ?t = "?s\<lparr>mem := (mem s)(uaddr m0 pt va := c)\<rparr>" let ?k = "min n (length q)"
    let ?j = "ulen m0 pt (va + 1) ?k"
    have ag: "mem ?t b = m0 b" if "j < n" "b \<in> pt_cells m0 (PGROUNDDOWN (va + 1 + of_nat j)) 3 pt" for j b
      using pt_safe_Suc(2) [OF Suc.prems(3), of j] Suc.prems(4) [of "Suc j" b] that by (auto simp: add.assoc)
    have qt: "pipe_queue (pipes ?t pi) = q" "pipe_ok (pipes ?t pi)" "p_pagetable (procs ?t p) = pt"
      using g Suc.prems(2) by (simp_all add: pipe_get_def)
    have ih: "piperead_loop ap pi p (va + 1) n (i + 1) ?t = Ok (i + 1 + int ?j)
      (set_pipe pi (taken (if ?j < ?k then Suc ?j else ?j)) (?t\<lparr>mem := ustore m0 pt (va + 1) (take ?j q) (mem ?t)\<rparr>))"
      by (rule Suc.IH [of ?t "va + 1", OF qt(2,3) pt_safe_Suc(1) [OF Suc.prems(3)] ag refl refl, unfolded qt(1)])
    have k: "k = Suc ?k" "m = (if umapped m0 pt va then Suc (ulen m0 pt (va + 1) ?k) else 0)"
      using Suc.prems(5,6) Cons by (simp_all add: ulen_Suc)
    have l: "piperead_loop ap pi p va (Suc n) i s =
        (if umapped m0 pt va then piperead_loop ap pi p (va + 1) n (i + 1) ?t else Ok i ?s)"
      using c g(2) Cons Suc.prems(2) by (simp add: pipe_empty pipe_get_def)
    show ?thesis
    proof (cases "umapped m0 pt va")
      case True
      then show ?thesis unfolding l k ih Cons taken_Suc by (simp add: ustore_Cons del: funpow.simps)
    next
      case False
      then show ?thesis unfolding l k Cons by (simp add: ustore_def pipe_get_def)
    qed
  qed
qed

text \<open>
  C15. \<open>piperead\<close> refines removal from a bounded queue. When the pipe has bytes, or its write end is
  closed: the call copies bytes from the front of the queue to user memory, in order, up to \<open>n\<close>, to
  the end of the queue or to the first unmapped page, returns their number, and wakes the sleeping
  writers; in the last case the byte that could not be stored is lost. On an empty pipe that is
  open for writing it waits, or returns \<open>-1\<close> when the reader has been killed.
\<close>

theorem piperead_refines_queue:
  assumes "quiet p s" "pipe_ok (pipes s pi)" "pt = p_pagetable (procs s p)" "pt_safe (mem s) pt va n"
    and "inj_on (\<lambda>i. uaddr (mem s) pt (va + of_nat i)) {..<n}"
    and "q = pipe_queue (pipes s pi)" "k = min n (length q)" "m = ulen (mem s) pt va k"
  shows "(q \<noteq> [] \<or> \<not> pi_writeopen (pipes s pi) \<longrightarrow>
      runs (piperead ap pi va (int n) s) (\<lambda>r t. r = int m \<and> pipe_ok (pipes t pi) \<and>
        pipe_queue (pipes t pi) = drop (if m < k then Suc m else m) q \<and>
        (\<forall>i<m. mem t (uaddr (mem s) pt (va + of_nat i)) = q ! i) \<and>
        (\<forall>b. b \<notin> (\<lambda>i. uaddr (mem s) pt (va + of_nat i)) ` {..<m} \<longrightarrow> mem t b = mem s b) \<and>
        procs t = woken {..<NPROC} (Some (ChanPipeWrite pi)) (Some p) (procs s) \<and> quiet p t)) \<and>
    (q = [] \<and> pi_writeopen (pipes s pi) \<longrightarrow> piperead ap pi va (int n) s = (if p_killed (procs s p) then Ok (- 1) s else Block))"
proof (intro conjI impI; (elim conjE)?)
  note q = quietD [OF assms(1)]
  let ?L = "PipeLock pi" let ?u = "enter ?L s"
  have pr: "piperead ap pi va (int n) s = (if q = [] \<and> pi_writeopen (pipes s pi)
      then bnd (killed p ?u) (\<lambda>k s. if k then bnd (release ?L s) (\<lambda>_ s. Ok (- 1) s) else Block)
      else bnd (piperead_loop ap pi p va n 0 ?u) (\<lambda>i s.
        bnd (wakeup (Some (ChanPipeWrite pi)) s) (\<lambda>_ s. bnd (release ?L s) (\<lambda>_ s. Ok i s))))"
    using q assms(6) by (simp add: piperead_def this_proc_deref_settled acquire_free pipe_empty)
  show "piperead ap pi va (int n) s = (if p_killed (procs s p) then Ok (- 1) s else Block)" if "q = []" "pi_writeopen (pipes s pi)"
    using that q unfolding pr by (simp add: killed_settled bracket_same)
  let ?d = "if m < k then Suc m else m" and ?m = "ustore (mem s) pt va (take m q) (mem s)"
  have mk: "m \<le> k" "k \<le> length q" "k \<le> n" using ulen_le [of "mem s" pt va k] assms(7,8) by simp_all
  have l: "piperead_loop ap pi p va n 0 ?u = Ok (0 + int m) (set_pipe pi (taken ?d) (?u\<lparr>mem := ?m\<rparr>))"
    using piperead_loop_queue [of ?u pi p pt "mem s" va n k m ap 0] assms(2-8) by simp
  have e: "set_pipe pi (taken ?d) (?u\<lparr>mem := ?m\<rparr>) = enter ?L (set_pipe pi (taken ?d) (s\<lparr>mem := ?m\<rparr>))"
    by (simp add: set_pipe_def enter_def push_off_eq machine_defs)
  have qt: "quiet p (set_pipe pi (taken ?d) (s\<lparr>mem := ?m\<rparr>))" using assms(1) by (subst quiet_cong [of _ s]) simp_all
  have g: "pipe_ok (taken ?d (pipes s pi)) \<and> pipe_queue (taken ?d (pipes s pi)) = drop ?d q"
    using pipe_bytes.gets [OF assms(2), of ?d] mk assms(6) by auto
  have b: "inj_on (\<lambda>i. uaddr (mem s) pt (va + of_nat i)) {..<length (take m q)}"
    using mk by (intro inj_on_subset [OF assms(5)]) auto
  have "?m (uaddr (mem s) pt (va + of_nat i)) = q ! i" if "i < m" for i
    using that mk store_at_nth [OF b, of i] by (simp add: ustore_def)
  moreover have "?m x = mem s x" if "x \<notin> (\<lambda>i. uaddr (mem s) pt (va + of_nat i)) ` {..<m}" for x
    unfolding ustore_def by (rule store_at_other) (use that mk in auto)
  moreover assume "q \<noteq> [] \<or> \<not> pi_writeopen (pipes s pi)"
  then have "piperead ap pi va (int n) s = Ok (int m) (waking (ChanPipeWrite pi) p (set_pipe pi (taken ?d) (s\<lparr>mem := ?m\<rparr>)))"
    unfolding pr l e using wakeup_release [OF qt, of ?L] by auto
  ultimately show "runs (piperead ap pi va (int n) s) (\<lambda>r t. r = int m \<and> pipe_ok (pipes t pi) \<and>
        pipe_queue (pipes t pi) = drop ?d q \<and>
        (\<forall>i<m. mem t (uaddr (mem s) pt (va + of_nat i)) = q ! i) \<and>
        (\<forall>b. b \<notin> (\<lambda>i. uaddr (mem s) pt (va + of_nat i)) ` {..<m} \<longrightarrow> mem t b = mem s b) \<and>
        procs t = woken {..<NPROC} (Some (ChanPipeWrite pi)) (Some p) (procs s) \<and> quiet p t)"
    using g qt by simp
qed

section \<open>Witnesses\<close>

text \<open>Process 0 runs with the two pages of \<open>two_pages\<close>; the pipe at \<open>0x9000\<close> holds two bytes.\<close>

definition two_bytes :: pipe where
  "two_bytes = \<lparr>pi_data = (replicate 512 0)[511 := 1, 0 := 2], pi_nread = 0xFFFFFFFF, pi_nwrite = 1, pi_readopen = True, pi_writeopen = True\<rparr>"

definition pipe_machine :: file_st where
  "pipe_machine = log_st.extend (log_machine\<lparr>mem := mem two_pages, procs := \<lambda>i. (procs log_machine i)\<lparr>p_pagetable := 0x1000, p_killed := False\<rparr>\<rparr>)
     \<lparr>sb = \<lparr>sb_magic = 0, sb_size = 0, sb_nblocks = 0, sb_ninodes = 0, sb_nlog = 0, sb_logstart = 0, sb_inodestart = 0, sb_bmapstart = 0\<rparr>,
      inodes = (\<lambda>_. \<lparr>i_dev = 0, i_inum = 0, i_ref = 0, i_valid = False, i_type = 0, i_major = 0, i_minor = 0, i_nlink = 0, i_size = 0, i_addrs = []\<rparr>),
      pr_locking = True, panicked = False, uart_tx_buf = replicate 32 0, uart_tx_w = 0, uart_tx_r = 0, uart_lsr = [], uart_rhr = [], uart_out = [],
      cons_buf = replicate 128 0, cons_r = 0, cons_w = 0, cons_e = 0, pipes = (\<lambda>_. two_bytes),
      files = (\<lambda>_. \<lparr>f_type = FD_NONE, f_ref = 0, f_readable = False, f_writable = False, f_pipe = 0, f_ip = None, f_off = 0, f_major = 0\<rparr>),
      devsw_read = (\<lambda>_. None), devsw_write = (\<lambda>_. None)\<rparr>"

lemma pipe_machine_simps [simp]: "mem pipe_machine = mem two_pages" "p_pagetable (procs pipe_machine i) = 0x1000"
  "\<not> p_killed (procs pipe_machine i)" "pipes pipe_machine pi = two_bytes"
  by (simp_all add: pipe_machine_def log_st.defs)

lemma two_bytes_queue: "pipe_ok two_bytes" "pipe_queue two_bytes = [1, 2]" "pi_readopen two_bytes"
  by (simp_all add: pipe_ok_def pipe_queue_def two_bytes_def ring_queue_def upt_rec)

lemma pipe_machine_quiet: "quiet 0 pipe_machine"
  by (simp add: quiet_def settled_def cpu_ok_def machine_defs lock_free_def pipe_machine_def log_machine_def bio_machine_def
      small_machine_def mem_st.defs bio_st.defs log_st.defs)

theorem pipewrite_refines_queue_witness:
  "runs (pipewrite (\<lambda>_. Ok 0) 0x9000 0xFFE 4 pipe_machine) (\<lambda>r t. r = 4 \<and> pipe_queue (pipes t 0x9000) = [1, 2, 0, 7, 9, 0])"
proof -
  have m: "ulen (mem two_pages) 0x1000 0xFFE 4 = 4" using two_pages_range(3) by (simp add: ulen_all)
  show ?thesis
    by (rule runs_mono [OF conjunct1 [OF pipewrite_refines_queue [where p = 0 and s = pipe_machine and n = 4 and m = 4 and va = "0xFFE" and
      pt = "0x1000" and pi = "0x9000"], THEN mp, simplified]])
      (simp_all add: pipe_machine_quiet two_bytes_queue m two_pages_bytes)
qed

theorem piperead_refines_queue_witness:
  "runs (piperead (\<lambda>_. Ok 0) 0x9000 0xFFE 4 pipe_machine) (\<lambda>r t. r = 2 \<and> pipe_queue (pipes t 0x9000) = [] \<and>
     mem t 0x5FFE = 1 \<and> mem t 0x5FFF = 2)"
proof -
  have m: "ulen (mem two_pages) 0x1000 0xFFE 2 = 2" using two_pages_range(3) by (simp add: ulen_all)
  show ?thesis
    by (rule runs_mono [OF conjunct1 [OF piperead_refines_queue [where p = 0 and s = pipe_machine and n = 4 and m = 2 and va = "0xFFE" and
      pt = "0x1000" and pi = "0x9000" and q = "[1, 2]" and k = 2], THEN mp, simplified]])
      (use two_pages_range(2) [of 0] two_pages_range(2) [of 1] in
        \<open>simp_all add: pipe_machine_quiet two_bytes_queue m [unfolded numeral_2_eq_2] two_pages_safe numeral_2_eq_2 All_less_Suc\<close>)
qed

end
