(* ===== verification/Printk.thy ===== *)
theory Printk
  imports Vsprintf
begin

text \<open>
  \<open>printk\<close> and \<open>panic\<close> of \<open>kernel/printk/printk.c\<close> over a state in which the console is the list of the
  bytes it has received.
\<close>

section \<open>printk and panic\<close>

text \<open>
  \<open>con_out\<close> is what has been sent to the console; \<open>uartputc_sync\<close> hangs once
  \<open>panicked\<close> is set.
\<close>

record printk_st = machine +
  pr_locking :: bool
  panicked :: bool
  con_out :: "u8 list"

definition printk_init :: "'a printk_st_scheme \<Rightarrow> 'a printk_st_scheme" where
  "printk_init s = (initlock PrLock ''pr'' s)\<lparr>pr_locking := True\<rparr>"

definition console_emit :: "u8 list \<Rightarrow> 'a printk_st_scheme \<Rightarrow> (unit, 'a printk_st_scheme) outcome" where
  "console_emit cs s =
     (if panicked s \<and> cs \<noteq> [] then Block else Ok () (s\<lparr>con_out := con_out s @ cs\<rparr>))"

definition printk :: "(u64 \<Rightarrow> u8 list) \<Rightarrow> ring_buf \<Rightarrow> u64 \<Rightarrow> string option \<Rightarrow> u64 list \<Rightarrow>
    'a printk_st_scheme \<Rightarrow> (int, 'a printk_st_scheme) outcome" where
  "printk str junk u0 fmt ap s = printk_via console_emit (pr_locking s) str junk u0 fmt ap s"

text \<open>\<open>panic\<close> never returns; the model gives the state in which it starts to loop.\<close>

definition panic :: "(u64 \<Rightarrow> u8 list) \<Rightarrow> ring_buf \<Rightarrow> u64 \<Rightarrow> string \<Rightarrow>
    'a printk_st_scheme \<Rightarrow> (unit, 'a printk_st_scheme) outcome" where
  "panic str junk u0 msg s =
     bnd (printk str junk u0 (Some ''panic: '') [] (s\<lparr>pr_locking := False\<rparr>)) (\<lambda>_ s.
     bnd (printk str junk u0 (Some msg) [] s) (\<lambda>_ s.
     bnd (printk str junk u0 (Some [CHR 0x0A]) [] s) (\<lambda>_ s.
     Ok () (s\<lparr>panicked := True\<rparr>))))"

section \<open>Properties\<close>

text \<open>
  C35. \<open>printk\<close> of a plain message, under its lock: the console receives the message with
  newlines expanded and the terminating zero, the lock is free again and the interrupt state is
  back, and the number of characters of the message is returned. If the bytes number 64, 80, 96,
  and so on, the ring buffer is exactly full when \<open>printk\<close> flushes it, and the last 64 bytes
  are lost.
\<close>

theorem printk_literal:
  assumes "CHR ''%'' \<notin> set f" "length (rb_buffer junk) = 64" "pr_locking s" "\<not> panicked s"
    and "lock_free PrLock s" "cpu_ok s"
  shows "printk str junk u0 (Some f) ap s =
    Ok (int (length f)) ((calm s)\<lparr>con_out := con_out s @ surviving (literal_bytes f @ [0])\<rparr>)"
proof -
  let ?t = "(enter PrLock s)\<lparr>con_out := con_out s @ surviving (literal_bytes f @ [0])\<rparr>"
  have e: "panicked (enter PrLock s) = panicked s" "con_out (enter PrLock s) = con_out s"
    by (simp_all add: enter_def set_lock_def push_off_eq)
  have "release PrLock ?t = Ok () (?t\<lparr>cpus := cpus (calm s), locks := locks s\<rparr>)"
    using assms(5,6) by (intro release_bracket) (simp_all add: enter_def set_lock_def push_off_eq)
  also have "?t\<lparr>cpus := cpus (calm s), locks := locks s\<rparr> =
      (calm s)\<lparr>con_out := con_out s @ surviving (literal_bytes f @ [0])\<rparr>"
    by (cases s) (simp add: enter_def set_lock_def push_off_eq calm_def set_this_cpu_def)
  finally show ?thesis
    using assms e
    by (simp add: printk_def printk_via_def Let_def acquire_free vsprintf_literal console_emit_def flush_surviving
        del: ring_puts_snoc)
qed

text \<open>A message of 63 characters and the terminating zero fill the buffer: nothing is printed.\<close>

definition quiet_printk :: printk_st where
  "quiet_printk = \<lparr>tp = 0, cpus = (\<lambda>_. \<lparr>c_proc = None, c_noff = 0, c_intena = False, c_sie = False\<rparr>),
     locks = (\<lambda>_. \<lparr>lk_locked = False, lk_name = [], lk_cpu = None\<rparr>), klog = [],
     pr_locking = True, panicked = False, con_out = []\<rparr>"

theorem printk_literal_witness:
  "let f = replicate 63 CHR ''A'';
       junk = \<lparr>rb_buffer = replicate 64 0, rb_head = 9, rb_tail = 9, rb_full = False, rb_out = []\<rparr>
   in runs (printk (\<lambda>_. []) junk 0 (Some f) [] quiet_printk) (\<lambda>n t. n = 63 \<and> con_out t = []) \<and>
      runs (printk (\<lambda>_. []) junk 0 (Some (CHR ''A'' # f)) [] quiet_printk)
        (\<lambda>n t. n = 64 \<and> con_out t = replicate 64 65 @ [0])"
proof -
  let ?f = "replicate 63 CHR ''A''"
  let ?j = "\<lparr>rb_buffer = replicate 64 0, rb_head = 9, rb_tail = 9, rb_full = False, rb_out = []\<rparr>"
  have l: "literal_bytes (replicate n CHR ''A'') = replicate n 65" for n
    by (induction n) (simp_all add: literal_bytes_def)
  have c: "CHR ''A'' # ?f = replicate 64 CHR ''A''" by (simp add: replicate_Suc [symmetric])
  have q: "lock_free PrLock quiet_printk" "cpu_ok quiet_printk" "pr_locking quiet_printk"
      "\<not> panicked quiet_printk" "con_out quiet_printk = []"
    by (simp_all add: quiet_printk_def lock_free_def cpu_ok_def machine_defs)
  have "surviving (replicate 63 65 @ [0]) = []" "surviving (replicate 64 65 @ [0]) = replicate 64 65 @ [0]"
    by (simp_all add: surviving_def)
  then show ?thesis
    unfolding Let_def c
    using printk_literal [of ?f ?j quiet_printk "\<lambda>_. []" 0 "[]"]
      printk_literal [of "replicate 64 CHR ''A''" ?j quiet_printk "\<lambda>_. []" 0 "[]"] q
    by (simp add: l)
qed

end
