(* ===== verification/Syscall.thy ===== *)
theory Syscall
  imports Virtio
begin

text \<open>
  Arguments of system calls, \<open>kernel/syscall.c\<close> up to \<open>argstr\<close>, and the system calls of
  \<open>kernel/sysproc.c\<close>. Integer arguments are the signed value of the low 32 bits of a register;
  strings are the bytes before their final zero. A system call that does not come back, because the
  process has exited, has the result \<open>None\<close>.
\<close>

section \<open>Arguments\<close>

record sys_st = vio_st +
  ticks :: u32

definition fetchaddr :: "('a sys_st_scheme) page_source \<Rightarrow> u64 \<Rightarrow> 'a sys_st_scheme \<Rightarrow> (u64 option, 'a sys_st_scheme) outcome" where
  "fetchaddr ap addr s =
     bnd (this_proc_deref s) (\<lambda>p s.
     if addr \<ge> p_sz (procs s p) \<or> addr + 8 > p_sz (procs s p) then Ok None s
     else bnd (copyin ap (p_pagetable (procs s p)) addr 8 s) (\<lambda>(r, xs) s.
       Ok (if r \<noteq> 0 then None else Some (word_of_bytes xs)) s))"

definition fetchstr :: "('a sys_st_scheme) page_source \<Rightarrow> u64 \<Rightarrow> nat \<Rightarrow> 'a sys_st_scheme \<Rightarrow>
    (u8 list option, 'a sys_st_scheme) outcome" where
  "fetchstr ap addr mx s =
     bnd (this_proc_deref s) (\<lambda>p s. copyinstr ap (p_pagetable (procs s p)) addr mx s)"

definition argraw :: "nat \<Rightarrow> 'a sys_st_scheme \<Rightarrow> (u64, 'a sys_st_scheme) outcome" where
  "argraw n s =
     bnd (this_proc_deref s) (\<lambda>p s.
     if n = 0 then Ok (tf_get 112 p s) s
     else if n = 1 then Ok (tf_get 120 p s) s
     else if n = 2 then Ok (tf_get 128 p s) s
     else if n = 3 then Ok (tf_get 136 p s) s
     else if n = 4 then Ok (tf_get 144 p s) s
     else if n = 5 then Ok (tf_get 152 p s) s
     else Panic ''argraw'')"

definition argint :: "nat \<Rightarrow> 'a sys_st_scheme \<Rightarrow> (int, 'a sys_st_scheme) outcome" where
  "argint n s = bnd (argraw n s) (\<lambda>v s. Ok (sint (ucast v :: u32)) s)"

definition argaddr :: "nat \<Rightarrow> 'a sys_st_scheme \<Rightarrow> (u64, 'a sys_st_scheme) outcome" where
  "argaddr n s = argraw n s"

definition argstr :: "('a sys_st_scheme) page_source \<Rightarrow> nat \<Rightarrow> nat \<Rightarrow> 'a sys_st_scheme \<Rightarrow>
    (u8 list option, 'a sys_st_scheme) outcome" where
  "argstr ap n mx s = bnd (argaddr n s) (\<lambda>addr s. fetchstr ap addr mx s)"

section \<open>Processes and time\<close>

text \<open>The value of a system call, as it is stored in the register.\<close>

definition ret :: "(int, 's) outcome \<Rightarrow> (u64 option, 's) outcome" where
  "ret r = bnd r (\<lambda>v s. Ok (Some (word_of_int v)) s)"

definition sys_exit :: "'a sys_st_scheme \<Rightarrow> (u64 option, 'a sys_st_scheme) outcome" where
  "sys_exit s = bnd (argint 0 s) (\<lambda>n s. bnd (exit (word_of_int n) s) (\<lambda>_ s. Ok None s))"

definition sys_getpid :: "'a sys_st_scheme \<Rightarrow> (u64 option, 'a sys_st_scheme) outcome" where
  "sys_getpid s = ret (bnd (this_proc_deref s) (\<lambda>p s. Ok (p_pid (procs s p)) s))"

definition sys_fork :: "('a sys_st_scheme) page_source \<Rightarrow> image \<Rightarrow> 'a sys_st_scheme \<Rightarrow> (u64 option, 'a sys_st_scheme) outcome" where
  "sys_fork ap im s = ret (fork ap im s)"

definition sys_wait :: "('a sys_st_scheme) page_source \<Rightarrow> 'a sys_st_scheme \<Rightarrow> (u64 option, 'a sys_st_scheme) outcome" where
  "sys_wait ap s = ret (bnd (argaddr 0 s) (\<lambda>p s. wait ap p s))"

definition sys_sbrk :: "('a sys_st_scheme) page_source \<Rightarrow> 'a sys_st_scheme \<Rightarrow> (u64 option, 'a sys_st_scheme) outcome" where
  "sys_sbrk ap s =
     bnd (argint 0 s) (\<lambda>n s.
     bnd (this_proc_deref s) (\<lambda>p s.
     let addr = p_sz (procs s p)
     in bnd (growproc ap n s) (\<lambda>r s. Ok (Some (if r < 0 then - 1 else addr)) s)))"

text \<open>
  The loop of \<open>sys_sleep\<close>, with the lock held; it is entered again, with the same \<open>ticks0\<close>, when the
  process wakes up. The comparison is one of unsigned numbers.
\<close>

definition sys_sleep_loop :: "int \<Rightarrow> u32 \<Rightarrow> 'a sys_st_scheme \<Rightarrow> (u64 option, 'a sys_st_scheme) outcome" where
  "sys_sleep_loop n ticks0 s =
     (if ticks s - ticks0 < word_of_int n then
        bnd (this_proc_deref s) (\<lambda>p s.
        bnd (killed p s) (\<lambda>k s.
        if k then bnd (release TicksLock s) (\<lambda>_ s. Ok (Some (- 1)) s) else Block))
      else bnd (release TicksLock s) (\<lambda>_ s. Ok (Some 0) s))"

definition sys_sleep :: "'a sys_st_scheme \<Rightarrow> (u64 option, 'a sys_st_scheme) outcome" where
  "sys_sleep s =
     bnd (argint 0 s) (\<lambda>n s.
     bnd (acquire TicksLock s) (\<lambda>_ s.
     sys_sleep_loop n (ticks s) s))"

definition sys_kill :: "'a sys_st_scheme \<Rightarrow> (u64 option, 'a sys_st_scheme) outcome" where
  "sys_kill s = ret (bnd (argint 0 s) (\<lambda>pid s. kill pid s))"

definition sys_uptime :: "'a sys_st_scheme \<Rightarrow> (u64 option, 'a sys_st_scheme) outcome" where
  "sys_uptime s =
     bnd (acquire TicksLock s) (\<lambda>_ s.
     let xticks = ticks s
     in bnd (release TicksLock s) (\<lambda>_ s. Ok (Some (ucast xticks)) s))"

end
