(* ===== verification/Sysfile.thy ===== *)
theory Sysfile
  imports Syscall
begin

text \<open>
  The system calls on files, \<open>kernel/sysfile.c\<close>, and the dispatch of system calls, \<open>syscall\<close> of
  \<open>kernel/syscall.c\<close>. Buffers on the stack whose contents are not defined are zeros.
\<close>

section \<open>Descriptors\<close>

definition O_RDONLY :: u32 where "O_RDONLY = 0"
definition O_WRONLY :: u32 where "O_WRONLY = 1"
definition O_RDWR :: u32 where "O_RDWR = 2"
definition O_CREATE :: u32 where "O_CREATE = 0x200"
definition O_TRUNC :: u32 where "O_TRUNC = 0x400"

definition argfd :: "nat \<Rightarrow> 'a sys_st_scheme \<Rightarrow> ((nat \<times> nat) option, 'a sys_st_scheme) outcome" where
  "argfd n s =
     bnd (argint n s) (\<lambda>fd s.
     if fd < 0 \<or> fd \<ge> int NOFILE then Ok None s
     else bnd (this_proc_deref s) (\<lambda>p s.
       Ok (map_option (\<lambda>f. (nat fd, f)) (p_ofile (procs s p) (nat fd))) s))"

definition set_ofile :: "nat \<Rightarrow> nat \<Rightarrow> nat option \<Rightarrow> 'a sys_st_scheme \<Rightarrow> 'a sys_st_scheme" where
  "set_ofile p fd f = set_proc p (\<lambda>x. x\<lparr>p_ofile := (p_ofile x)(fd := f)\<rparr>)"

definition fdalloc :: "nat \<Rightarrow> 'a sys_st_scheme \<Rightarrow> (nat option, 'a sys_st_scheme) outcome" where
  "fdalloc f s =
     bnd (this_proc_deref s) (\<lambda>p s.
     case find (\<lambda>fd. p_ofile (procs s p) fd = None) [0..<NOFILE] of
       Some fd \<Rightarrow> Ok (Some fd) (set_ofile p fd (Some f) s)
     | None \<Rightarrow> Ok None s)"

definition sys_dup :: "'a sys_st_scheme \<Rightarrow> (int, 'a sys_st_scheme) outcome" where
  "sys_dup s =
     bnd (argfd 0 s) (\<lambda>r s.
     case r of None \<Rightarrow> Ok (- 1) s
     | Some (_, f) \<Rightarrow>
       bnd (fdalloc f s) (\<lambda>r s.
       case r of None \<Rightarrow> Ok (- 1) s
       | Some fd \<Rightarrow> bnd (filedup f s) (\<lambda>_ s. Ok (int fd) s)))"

definition sys_read :: "('a sys_st_scheme) page_source \<Rightarrow> 'a sys_st_scheme \<Rightarrow> (int, 'a sys_st_scheme) outcome" where
  "sys_read ap s =
     bnd (argaddr 1 s) (\<lambda>p s.
     bnd (argint 2 s) (\<lambda>n s.
     bnd (argfd 0 s) (\<lambda>r s.
     case r of None \<Rightarrow> Ok (- 1) s | Some (_, f) \<Rightarrow> fileread ap f p n s)))"

definition sys_write :: "('a sys_st_scheme) page_source \<Rightarrow> 'a sys_st_scheme \<Rightarrow> (int, 'a sys_st_scheme) outcome" where
  "sys_write ap s =
     bnd (argaddr 1 s) (\<lambda>p s.
     bnd (argint 2 s) (\<lambda>n s.
     bnd (argfd 0 s) (\<lambda>r s.
     case r of None \<Rightarrow> Ok (- 1) s | Some (_, f) \<Rightarrow> filewrite ap f p n s)))"

definition sys_close :: "'a sys_st_scheme \<Rightarrow> (int, 'a sys_st_scheme) outcome" where
  "sys_close s =
     bnd (argfd 0 s) (\<lambda>r s.
     case r of None \<Rightarrow> Ok (- 1) s
     | Some (fd, f) \<Rightarrow>
       bnd (this_proc_deref s) (\<lambda>p s.
       bnd (fileclose f (set_ofile p fd None s)) (\<lambda>_ s. Ok 0 s)))"

definition sys_fstat :: "('a sys_st_scheme) page_source \<Rightarrow> 'a sys_st_scheme \<Rightarrow> (int, 'a sys_st_scheme) outcome" where
  "sys_fstat ap s =
     bnd (argaddr 1 s) (\<lambda>st s.
     bnd (argfd 0 s) (\<lambda>r s.
     case r of None \<Rightarrow> Ok (- 1) s | Some (_, f) \<Rightarrow> filestat ap f st s))"

section \<open>Links\<close>

text \<open>Leaving the transaction with the value \<open>r\<close>.\<close>

definition end_with :: "int \<Rightarrow> 'a sys_st_scheme \<Rightarrow> (int, 'a sys_st_scheme) outcome" where
  "end_with r s = bnd (end_op s) (\<lambda>_ s. Ok r s)"

definition put_end :: "nat \<Rightarrow> int \<Rightarrow> 'a sys_st_scheme \<Rightarrow> (int, 'a sys_st_scheme) outcome" where
  "put_end ip r s = bnd (iunlockput ip s) (\<lambda>_ s. end_with r s)"

definition link_bad :: "nat \<Rightarrow> 'a sys_st_scheme \<Rightarrow> (int, 'a sys_st_scheme) outcome" where
  "link_bad ip s =
     bnd (ilock (Some ip) s) (\<lambda>_ s.
     bnd (iupdate ip (set_inode ip (\<lambda>x. x\<lparr>i_nlink := i_nlink x - 1\<rparr>) s)) (\<lambda>_ s.
     put_end ip (- 1) s))"

definition sys_link :: "('a sys_st_scheme) page_source \<Rightarrow> 'a sys_st_scheme \<Rightarrow> (int, 'a sys_st_scheme) outcome" where
  "sys_link ap s =
     bnd (argstr ap 0 MAXPATH s) (\<lambda>r s.
     case r of None \<Rightarrow> Ok (- 1) s | Some old \<Rightarrow>
     bnd (argstr ap 1 MAXPATH s) (\<lambda>r s.
     case r of None \<Rightarrow> Ok (- 1) s | Some new \<Rightarrow>
     bnd (begin_op s) (\<lambda>_ s.
     bnd (namei ap old s) (\<lambda>r s.
     case r of None \<Rightarrow> end_with (- 1) s | Some ip \<Rightarrow>
     bnd (ilock (Some ip) s) (\<lambda>_ s.
     if i_type (inodes s ip) = T_DIR then put_end ip (- 1) s
     else
     bnd (iupdate ip (set_inode ip (\<lambda>x. x\<lparr>i_nlink := i_nlink x + 1\<rparr>) s)) (\<lambda>_ s.
     bnd (iunlock (Some ip) s) (\<lambda>_ s.
     bnd (nameiparent ap new (replicate DIRSIZ 0) s) (\<lambda>(r, name) s.
     case r of None \<Rightarrow> link_bad ip s | Some dp \<Rightarrow>
     bnd (ilock (Some dp) s) (\<lambda>_ s.
     bnd (if i_dev (inodes s dp) \<noteq> i_dev (inodes s ip) then Ok (- 1) s
          else dirlink ap dp name (i_inum (inodes s ip)) s) (\<lambda>r s.
     if r < 0 then bnd (iunlockput dp s) (\<lambda>_ s. link_bad ip s)
     else bnd (iunlockput dp s) (\<lambda>_ s.
       bnd (iput ip s) (\<lambda>_ s. end_with 0 s))))))))))))"

fun isdirempty_loop :: "('a sys_st_scheme) page_source \<Rightarrow> nat \<Rightarrow> u32 list \<Rightarrow> 'a sys_st_scheme \<Rightarrow>
    (bool, 'a sys_st_scheme) outcome" where
  "isdirempty_loop ap dp [] s = Ok True s"
| "isdirempty_loop ap dp (off # offs) s =
     bnd (readi ap dp False 0 auto_object off 16 s) (\<lambda>(r, km) s.
     let de = load_bytes km 0 16 in
     if r \<noteq> 16 then Panic ''isdirempty: readi''
     else if de_inum de \<noteq> 0 then Ok False s
     else isdirempty_loop ap dp offs s)"

definition isdirempty :: "('a sys_st_scheme) page_source \<Rightarrow> nat \<Rightarrow> 'a sys_st_scheme \<Rightarrow> (bool, 'a sys_st_scheme) outcome" where
  "isdirempty ap dp s = isdirempty_loop ap dp (drop 2 (dirent_offs dp s)) s"

text \<open>From the point where the entry \<open>ip\<close> of \<open>dp\<close> at offset \<open>off\<close> has been found.\<close>

definition unlink_entry :: "('a sys_st_scheme) page_source \<Rightarrow> nat \<Rightarrow> nat \<Rightarrow> u32 \<Rightarrow> 'a sys_st_scheme \<Rightarrow>
    (int, 'a sys_st_scheme) outcome" where
  "unlink_entry ap dp ip off s =
     bnd (ilock (Some ip) s) (\<lambda>_ s.
     if sint (i_nlink (inodes s ip)) < 1 then Panic ''unlink: nlink < 1''
     else bnd (if i_type (inodes s ip) = T_DIR then isdirempty ap ip s else Ok True s) (\<lambda>empty s.
       if \<not> empty then bnd (iunlockput ip s) (\<lambda>_ s. put_end dp (- 1) s)
       else bnd (writei ap dp False 0 (replicate 16 0) off 16 s) (\<lambda>r s.
         if r \<noteq> 16 then Panic ''unlink: writei''
         else bnd (if i_type (inodes s ip) = T_DIR
                   then iupdate dp (set_inode dp (\<lambda>x. x\<lparr>i_nlink := i_nlink x - 1\<rparr>) s) else Ok () s) (\<lambda>_ s.
           bnd (iunlockput dp s) (\<lambda>_ s.
           bnd (iupdate ip (set_inode ip (\<lambda>x. x\<lparr>i_nlink := i_nlink x - 1\<rparr>) s)) (\<lambda>_ s.
           put_end ip 0 s))))))"

definition sys_unlink :: "('a sys_st_scheme) page_source \<Rightarrow> 'a sys_st_scheme \<Rightarrow> (int, 'a sys_st_scheme) outcome" where
  "sys_unlink ap s =
     bnd (argstr ap 0 MAXPATH s) (\<lambda>r s.
     case r of None \<Rightarrow> Ok (- 1) s | Some path \<Rightarrow>
     bnd (begin_op s) (\<lambda>_ s.
     bnd (nameiparent ap path (replicate DIRSIZ 0) s) (\<lambda>(r, name) s.
     case r of None \<Rightarrow> end_with (- 1) s | Some dp \<Rightarrow>
     bnd (ilock (Some dp) s) (\<lambda>_ s.
     if namecmp name (cstr ''.'') = 0 \<or> namecmp name (cstr ''..'') = 0 then put_end dp (- 1) s
     else bnd (dirlookup ap dp name s) (\<lambda>r s.
       case r of None \<Rightarrow> put_end dp (- 1) s
       | Some (ip, off) \<Rightarrow> unlink_entry ap dp ip off s)))))"

section \<open>Creating and opening\<close>

text \<open>The label \<open>fail\<close> of \<open>create\<close>.\<close>

definition create_fail :: "nat \<Rightarrow> nat \<Rightarrow> 'a sys_st_scheme \<Rightarrow> (nat option, 'a sys_st_scheme) outcome" where
  "create_fail dp ip s =
     bnd (iupdate ip (set_inode ip (\<lambda>x. x\<lparr>i_nlink := 0\<rparr>) s)) (\<lambda>_ s.
     bnd (iunlockput ip s) (\<lambda>_ s.
     bnd (iunlockput dp s) (\<lambda>_ s. Ok None s)))"

definition create_new :: "('a sys_st_scheme) page_source \<Rightarrow> nat \<Rightarrow> u8 list \<Rightarrow> u16 \<Rightarrow> u16 \<Rightarrow> u16 \<Rightarrow> 'a sys_st_scheme \<Rightarrow>
    (nat option, 'a sys_st_scheme) outcome" where
  "create_new ap dp name type major minor s =
     bnd (ialloc (i_dev (inodes s dp)) type s) (\<lambda>r s.
     case r of None \<Rightarrow> bnd (iunlockput dp s) (\<lambda>_ s. Ok None s) | Some ip \<Rightarrow>
     bnd (ilock (Some ip) s) (\<lambda>_ s.
     bnd (iupdate ip (set_inode ip (\<lambda>x. x\<lparr>i_major := major, i_minor := minor, i_nlink := 1\<rparr>) s)) (\<lambda>_ s.
     bnd (if type = T_DIR then
            bnd (dirlink ap ip (cstr ''.'') (i_inum (inodes s ip)) s) (\<lambda>r s.
            if r < 0 then Ok False s
            else bnd (dirlink ap ip (cstr ''..'') (i_inum (inodes s dp)) s) (\<lambda>r s. Ok (r \<ge> 0) s))
          else Ok True s) (\<lambda>ok s.
     if \<not> ok then create_fail dp ip s
     else bnd (dirlink ap dp name (i_inum (inodes s ip)) s) (\<lambda>r s.
       if r < 0 then create_fail dp ip s
       else bnd (if type = T_DIR then iupdate dp (set_inode dp (\<lambda>x. x\<lparr>i_nlink := i_nlink x + 1\<rparr>) s) else Ok () s) (\<lambda>_ s.
         bnd (iunlockput dp s) (\<lambda>_ s. Ok (Some ip) s)))))))"

definition create :: "('a sys_st_scheme) page_source \<Rightarrow> u8 list \<Rightarrow> u16 \<Rightarrow> u16 \<Rightarrow> u16 \<Rightarrow> 'a sys_st_scheme \<Rightarrow>
    (nat option, 'a sys_st_scheme) outcome" where
  "create ap path type major minor s =
     bnd (nameiparent ap path (replicate DIRSIZ 0) s) (\<lambda>(r, name) s.
     case r of None \<Rightarrow> Ok None s | Some dp \<Rightarrow>
     bnd (ilock (Some dp) s) (\<lambda>_ s.
     bnd (dirlookup ap dp name s) (\<lambda>r s.
     case r of
       Some (ip, _) \<Rightarrow>
         bnd (iunlockput dp s) (\<lambda>_ s.
         bnd (ilock (Some ip) s) (\<lambda>_ s.
         if type = T_FILE \<and> (i_type (inodes s ip) = T_FILE \<or> i_type (inodes s ip) = T_DEVICE) then Ok (Some ip) s
         else bnd (iunlockput ip s) (\<lambda>_ s. Ok None s)))
     | None \<Rightarrow> create_new ap dp name type major minor s)))"

text \<open>\<open>sys_open\<close> after the inode has been found and locked.\<close>

definition open_inode :: "nat \<Rightarrow> u32 \<Rightarrow> 'a sys_st_scheme \<Rightarrow> (int, 'a sys_st_scheme) outcome" where
  "open_inode ip omode s =
     (if i_type (inodes s ip) = T_DEVICE \<and> (sint (i_major (inodes s ip)) < 0 \<or> sint (i_major (inodes s ip)) \<ge> int NDEV)
      then put_end ip (- 1) s
      else bnd (filealloc s) (\<lambda>r s.
        case r of None \<Rightarrow> put_end ip (- 1) s
        | Some f \<Rightarrow>
          bnd (fdalloc f s) (\<lambda>r s.
          case r of None \<Rightarrow> bnd (fileclose f s) (\<lambda>_ s. put_end ip (- 1) s)
          | Some fd \<Rightarrow>
            let s = (if i_type (inodes s ip) = T_DEVICE
                     then set_file f (\<lambda>x. x\<lparr>f_type := FD_DEVICE, f_major := i_major (inodes s ip)\<rparr>) s
                     else set_file f (\<lambda>x. x\<lparr>f_type := FD_INODE, f_off := 0\<rparr>) s);
                s = set_file f (\<lambda>x. x\<lparr>f_ip := Some ip, f_readable := (omode AND O_WRONLY = 0),
                      f_writable := (omode AND O_WRONLY \<noteq> 0 \<or> omode AND O_RDWR \<noteq> 0)\<rparr>) s
            in bnd (if omode AND O_TRUNC \<noteq> 0 \<and> i_type (inodes s ip) = T_FILE then itrunc ip s else Ok () s) (\<lambda>_ s.
               bnd (iunlock (Some ip) s) (\<lambda>_ s. end_with (int fd) s)))))"

definition sys_open :: "('a sys_st_scheme) page_source \<Rightarrow> 'a sys_st_scheme \<Rightarrow> (int, 'a sys_st_scheme) outcome" where
  "sys_open ap s =
     bnd (argint 1 s) (\<lambda>n s.
     let omode = word_of_int n
     in bnd (argstr ap 0 MAXPATH s) (\<lambda>r s.
        case r of None \<Rightarrow> Ok (- 1) s | Some path \<Rightarrow>
        bnd (begin_op s) (\<lambda>_ s.
        if omode AND O_CREATE \<noteq> 0 then
          bnd (create ap path T_FILE 0 0 s) (\<lambda>r s.
          case r of None \<Rightarrow> end_with (- 1) s | Some ip \<Rightarrow> open_inode ip omode s)
        else
          bnd (namei ap path s) (\<lambda>r s.
          case r of None \<Rightarrow> end_with (- 1) s | Some ip \<Rightarrow>
          bnd (ilock (Some ip) s) (\<lambda>_ s.
          if i_type (inodes s ip) = T_DIR \<and> omode \<noteq> O_RDONLY then put_end ip (- 1) s
          else open_inode ip omode s)))))"

definition sys_mkdir :: "('a sys_st_scheme) page_source \<Rightarrow> 'a sys_st_scheme \<Rightarrow> (int, 'a sys_st_scheme) outcome" where
  "sys_mkdir ap s =
     bnd (begin_op s) (\<lambda>_ s.
     bnd (argstr ap 0 MAXPATH s) (\<lambda>r s.
     case r of None \<Rightarrow> end_with (- 1) s | Some path \<Rightarrow>
     bnd (create ap path T_DIR 0 0 s) (\<lambda>r s.
     case r of None \<Rightarrow> end_with (- 1) s | Some ip \<Rightarrow> put_end ip 0 s)))"

definition sys_mknod :: "('a sys_st_scheme) page_source \<Rightarrow> 'a sys_st_scheme \<Rightarrow> (int, 'a sys_st_scheme) outcome" where
  "sys_mknod ap s =
     bnd (begin_op s) (\<lambda>_ s.
     bnd (argint 1 s) (\<lambda>major s.
     bnd (argint 2 s) (\<lambda>minor s.
     bnd (argstr ap 0 MAXPATH s) (\<lambda>r s.
     case r of None \<Rightarrow> end_with (- 1) s | Some path \<Rightarrow>
     bnd (create ap path T_DEVICE (word_of_int major) (word_of_int minor) s) (\<lambda>r s.
     case r of None \<Rightarrow> end_with (- 1) s | Some ip \<Rightarrow> put_end ip 0 s)))))"

definition sys_chdir :: "('a sys_st_scheme) page_source \<Rightarrow> 'a sys_st_scheme \<Rightarrow> (int, 'a sys_st_scheme) outcome" where
  "sys_chdir ap s =
     bnd (this_proc_deref s) (\<lambda>p s.
     bnd (begin_op s) (\<lambda>_ s.
     bnd (argstr ap 0 MAXPATH s) (\<lambda>r s.
     case r of None \<Rightarrow> end_with (- 1) s | Some path \<Rightarrow>
     bnd (namei ap path s) (\<lambda>r s.
     case r of None \<Rightarrow> end_with (- 1) s | Some ip \<Rightarrow>
     bnd (ilock (Some ip) s) (\<lambda>_ s.
     if i_type (inodes s ip) \<noteq> T_DIR then put_end ip (- 1) s
     else bnd (iunlock (Some ip) s) (\<lambda>_ s.
       bnd (deref (p_cwd (procs s p)) (\<lambda>cwd. iput cwd s)) (\<lambda>_ s.
       bnd (end_op s) (\<lambda>_ s.
       Ok 0 (set_proc p (\<lambda>x. x\<lparr>p_cwd := Some ip\<rparr>) s))))))))) "

section \<open>Exec and pipe\<close>

fun kfree_all :: "u64 list \<Rightarrow> 'a sys_st_scheme \<Rightarrow> (unit, 'a sys_st_scheme) outcome" where
  "kfree_all [] s = Ok () s"
| "kfree_all (a # as) s = bnd (kfree a s) (\<lambda>_ s. kfree_all as s)"

text \<open>
  The loop that copies the arguments: the pages used, with the strings in them, and whether the null
  pointer at the end was reached.
\<close>

fun exec_args :: "('a sys_st_scheme) page_source \<Rightarrow> u64 \<Rightarrow> nat list \<Rightarrow> (u64 \<times> u8 list) list \<Rightarrow> 'a sys_st_scheme \<Rightarrow>
    ((u64 \<times> u8 list) list \<times> bool, 'a sys_st_scheme) outcome" where
  "exec_args ap uargv [] argv s = Ok (argv, False) s"
| "exec_args ap uargv (i # is) argv s =
     bnd (fetchaddr ap (uargv + of_nat (8 * i)) s) (\<lambda>r s.
     case r of None \<Rightarrow> Ok (argv, False) s | Some uarg \<Rightarrow>
     if uarg = 0 then Ok (argv, True) s
     else bnd (kalloc s) (\<lambda>pa s.
       if pa = 0 then Ok (argv, False) s
       else bnd (fetchstr ap uarg (unat PGSIZE) s) (\<lambda>r s.
         case r of None \<Rightarrow> Ok (argv @ [(pa, [])], False) s
         | Some xs \<Rightarrow> exec_args ap uargv is (argv @ [(pa, xs)]) (s\<lparr>mem := store_bytes pa (xs @ [0]) (mem s)\<rparr>))))"

definition sys_exec :: "('a sys_st_scheme) page_source \<Rightarrow> image \<Rightarrow> 'a sys_st_scheme \<Rightarrow> (int, 'a sys_st_scheme) outcome" where
  "sys_exec ap im s =
     bnd (argaddr 1 s) (\<lambda>uargv s.
     bnd (argstr ap 0 MAXPATH s) (\<lambda>r s.
     case r of None \<Rightarrow> Ok (- 1) s | Some path \<Rightarrow>
     bnd (exec_args ap uargv [0..<MAXARG] [] s) (\<lambda>(argv, ok) s.
     bnd (if ok then exec ap im path (map snd argv) s else Ok (- 1) s) (\<lambda>r s.
     bnd (kfree_all (map fst argv) s) (\<lambda>_ s. Ok r s)))))"

definition close_both :: "nat \<Rightarrow> nat \<Rightarrow> 'a sys_st_scheme \<Rightarrow> (int, 'a sys_st_scheme) outcome" where
  "close_both rfile wfile s = bnd (fileclose rfile s) (\<lambda>_ s. bnd (fileclose wfile s) (\<lambda>_ s. Ok (- 1) s))"

definition sys_pipe :: "('a sys_st_scheme) page_source \<Rightarrow> 'a sys_st_scheme \<Rightarrow> (int, 'a sys_st_scheme) outcome" where
  "sys_pipe ap s =
     bnd (this_proc_deref s) (\<lambda>p s.
     bnd (argaddr 0 s) (\<lambda>fdarray s.
     bnd (pipealloc s) (\<lambda>r s.
     case r of None \<Rightarrow> Ok (- 1) s | Some (rfile, wfile) \<Rightarrow>
     bnd (fdalloc rfile s) (\<lambda>r s.
     case r of None \<Rightarrow> close_both rfile wfile s | Some fd0 \<Rightarrow>
     bnd (fdalloc wfile s) (\<lambda>r s.
     case r of None \<Rightarrow> close_both rfile wfile (set_ofile p fd0 None s) | Some fd1 \<Rightarrow>
     bnd (copyout ap (p_pagetable (procs s p)) fdarray (bytes_of_word 4 (of_nat fd0 :: u32)) s) (\<lambda>r0 s.
     bnd (if r0 < 0 then Ok r0 s
          else copyout ap (p_pagetable (procs s p)) (fdarray + 4) (bytes_of_word 4 (of_nat fd1 :: u32)) s) (\<lambda>r s.
     if r < 0 then close_both rfile wfile (set_ofile p fd1 None (set_ofile p fd0 None s))
     else Ok 0 s)))))))"

section \<open>Dispatch\<close>

text \<open>The table \<open>syscalls\<close>, with the numbers of \<open>include/syscall.h\<close>.\<close>

definition syscalls :: "('a sys_st_scheme) page_source \<Rightarrow> image \<Rightarrow> int \<Rightarrow>
    ('a sys_st_scheme \<Rightarrow> (u64 option, 'a sys_st_scheme) outcome) option" where
  "syscalls ap im num =
     (if num = 1 then Some (sys_fork ap im)
      else if num = 2 then Some sys_exit
      else if num = 3 then Some (sys_wait ap)
      else if num = 4 then Some (\<lambda>s. ret (sys_pipe ap s))
      else if num = 5 then Some (\<lambda>s. ret (sys_read ap s))
      else if num = 6 then Some sys_kill
      else if num = 7 then Some (\<lambda>s. ret (sys_exec ap im s))
      else if num = 8 then Some (\<lambda>s. ret (sys_fstat ap s))
      else if num = 9 then Some (\<lambda>s. ret (sys_chdir ap s))
      else if num = 10 then Some (\<lambda>s. ret (sys_dup s))
      else if num = 11 then Some sys_getpid
      else if num = 12 then Some (sys_sbrk ap)
      else if num = 13 then Some sys_sleep
      else if num = 14 then Some sys_uptime
      else if num = 15 then Some (\<lambda>s. ret (sys_open ap s))
      else if num = 16 then Some (\<lambda>s. ret (sys_write ap s))
      else if num = 17 then Some (\<lambda>s. ret (sys_mknod ap s))
      else if num = 18 then Some (\<lambda>s. ret (sys_unlink ap s))
      else if num = 19 then Some (\<lambda>s. ret (sys_link ap s))
      else if num = 20 then Some (\<lambda>s. ret (sys_mkdir ap s))
      else if num = 21 then Some (\<lambda>s. ret (sys_close s))
      else None)"

text \<open>The result is whether control comes back to the process.\<close>

definition syscall :: "('a sys_st_scheme) page_source \<Rightarrow> image \<Rightarrow> 'a sys_st_scheme \<Rightarrow> (bool, 'a sys_st_scheme) outcome" where
  "syscall ap im s =
     bnd (this_proc_deref s) (\<lambda>p s.
     let num = sint (ucast (tf_get TF_a7 p s) :: u32)
     in case syscalls ap im num of
          Some f \<Rightarrow> bnd (f s) (\<lambda>r s.
            case r of None \<Rightarrow> Ok False s | Some v \<Rightarrow> Ok True (tf_set TF_a0 p v s))
        | None \<Rightarrow>
            Ok True (tf_set TF_a0 p (- 1) (pr (dec_int (p_pid (procs s p)) @ '' '' @ cstring_chars (p_name (procs s p)) @
              '': unknown sys call '' @ dec_int num) s)))"

end
