(* ===== verification/Trap.thy ===== *)
theory Trap
  imports Sysfile
begin

text \<open>
  Traps and interrupts: \<open>kernel/trap.c\<close>, \<open>kernel/timer.c\<close>, \<open>kernel/plic.c\<close> and \<open>forkret\<close> of
  \<open>kernel/proc.c\<close>. The control registers of a hart are the record \<open>csr\<close>; the bit \<open>SSTATUS_SIE\<close> is
  \<open>c_sie\<close> of the hart. What the interrupt controller and the firmware return is part of the state,
  what is written to them is listed. A routine that calls \<open>yield\<close> is split there.
\<close>

section \<open>State\<close>

record csr =
  stvec :: u64
  sepc :: u64
  scause :: u64
  stval :: u64
  sstatus_spp :: bool
  sstatus_spie :: bool
  sie_bits :: u64

record trap_st = sys_st +
  csrs :: "nat \<Rightarrow> csr"
  rtime :: u64
  timers :: "(nat \<times> u64) list"
  plic_irqs :: "nat \<Rightarrow> u32 list"
  plic_out :: "(u64 \<times> u32) list"
  sbi_chars :: "u8 list"
  first_forkret :: bool

definition this_csr :: "'a trap_st_scheme \<Rightarrow> csr" where
  "this_csr s = csrs s (tp s)"

definition set_csr :: "(csr \<Rightarrow> csr) \<Rightarrow> 'a trap_st_scheme \<Rightarrow> 'a trap_st_scheme" where
  "set_csr f s = s\<lparr>csrs := (csrs s)(tp s := f (csrs s (tp s)))\<rparr>"

definition SCAUSE_INTERRUPT :: u64 where "SCAUSE_INTERRUPT = push_bit 63 1"
definition SCAUSE_SSI :: u64 where "SCAUSE_SSI = SCAUSE_INTERRUPT OR 1"
definition SCAUSE_STI :: u64 where "SCAUSE_STI = SCAUSE_INTERRUPT OR 5"
definition SCAUSE_SEI :: u64 where "SCAUSE_SEI = SCAUSE_INTERRUPT OR 9"

section \<open>The interrupt controller\<close>

definition PLIC :: u64 where "PLIC = 0x0c000000"
definition UART0_IRQ :: u32 where "UART0_IRQ = 10"
definition VIRTIO0_IRQ :: u32 where "VIRTIO0_IRQ = 1"
definition PLIC_SENABLE :: "nat \<Rightarrow> u64" where "PLIC_SENABLE hart = PLIC + 0x2080 + of_nat hart * 0x100"
definition PLIC_SPRIORITY :: "nat \<Rightarrow> u64" where "PLIC_SPRIORITY hart = PLIC + 0x201000 + of_nat hart * 0x2000"
definition PLIC_SCLAIM :: "nat \<Rightarrow> u64" where "PLIC_SCLAIM hart = PLIC + 0x201004 + of_nat hart * 0x2000"

definition plic_write :: "u64 \<Rightarrow> u32 \<Rightarrow> 'a trap_st_scheme \<Rightarrow> 'a trap_st_scheme" where
  "plic_write a v s = s\<lparr>plic_out := plic_out s @ [(a, v)]\<rparr>"

definition plicinit :: "'a trap_st_scheme \<Rightarrow> 'a trap_st_scheme" where
  "plicinit s = plic_write (PLIC + ucast VIRTIO0_IRQ * 4) 1 (plic_write (PLIC + ucast UART0_IRQ * 4) 1 s)"

definition plicinithart :: "'a trap_st_scheme \<Rightarrow> 'a trap_st_scheme" where
  "plicinithart s =
     (let hart = cpu_id s
      in plic_write (PLIC_SPRIORITY hart) 0
        (plic_write (PLIC_SENABLE hart) (push_bit (unat UART0_IRQ) 1 OR push_bit (unat VIRTIO0_IRQ) 1) s))"

text \<open>A read of the claim register takes the next pending interrupt of the hart, 0 if there is none.\<close>

definition plic_claim :: "'a trap_st_scheme \<Rightarrow> u32 \<times> 'a trap_st_scheme" where
  "plic_claim s =
     (let hart = cpu_id s
      in case plic_irqs s hart of
           [] \<Rightarrow> (0, s)
         | irq # irqs \<Rightarrow> (irq, s\<lparr>plic_irqs := (plic_irqs s)(hart := irqs)\<rparr>))"

definition plic_complete :: "u32 \<Rightarrow> 'a trap_st_scheme \<Rightarrow> 'a trap_st_scheme" where
  "plic_complete irq s = plic_write (PLIC_SCLAIM (cpu_id s)) irq s"

section \<open>The timer\<close>

definition INTERVAL :: u64 where "INTERVAL = 390000000 div 200"

definition timerinit :: "'a trap_st_scheme \<Rightarrow> 'a trap_st_scheme" where
  "timerinit s = pr ''timerinit'' (initlock TicksLock ''time'' s)"

definition set_next_timeout :: "'a trap_st_scheme \<Rightarrow> 'a trap_st_scheme" where
  "set_next_timeout s = s\<lparr>timers := timers s @ [(tp s, rtime s + INTERVAL)]\<rparr>"

definition timer_tick :: "'a trap_st_scheme \<Rightarrow> (unit, 'a trap_st_scheme) outcome" where
  "timer_tick s =
     bnd (acquire TicksLock s) (\<lambda>_ s.
     bnd (wakeup (Some ChanTicks) (s\<lparr>ticks := ticks s + 1\<rparr>)) (\<lambda>_ s.
     bnd (release TicksLock s) (\<lambda>_ s.
     Ok () (set_next_timeout s))))"

section \<open>Traps\<close>

definition trapinithart :: "image \<Rightarrow> 'a trap_st_scheme \<Rightarrow> 'a trap_st_scheme" where
  "trapinithart im s =
     (let s = set_csr (\<lambda>c. c\<lparr>stvec := im_kernelvec im\<rparr>) s;
          s = intr_on s;
          s = set_csr (\<lambda>c. c\<lparr>sie_bits := sie_bits c OR push_bit 9 1 OR push_bit 1 1 OR push_bit 5 1\<rparr>) s
      in pr ''trapinithart'' (set_next_timeout s))"

definition sbi_getc :: "'a trap_st_scheme \<Rightarrow> u8 option \<times> 'a trap_st_scheme" where
  "sbi_getc s = (case sbi_chars s of [] \<Rightarrow> (None, s) | c # cs \<Rightarrow> (Some c, s\<lparr>sbi_chars := cs\<rparr>))"

definition external_intr :: "'a trap_st_scheme \<Rightarrow> (unit, 'a trap_st_scheme) outcome" where
  "external_intr s =
     (case plic_claim s of (irq, s) \<Rightarrow>
      bnd (if irq = UART0_IRQ then
             (case sbi_getc s of (c, s) \<Rightarrow> case c of None \<Rightarrow> Ok () s | Some c \<Rightarrow> console_intr c s)
           else if irq = VIRTIO0_IRQ then virtio_disk_intr s
           else if irq \<noteq> 0 then Ok () (pr (''unexpected interrupt irq='' @ dec_int (sint irq)) s)
           else Ok () s) (\<lambda>_ s.
      Ok () (if irq \<noteq> 0 then plic_complete irq s else s)))"

definition devintr :: "'a trap_st_scheme \<Rightarrow> (nat, 'a trap_st_scheme) outcome" where
  "devintr s =
     (let cause = scause (this_csr s)
      in if cause AND SCAUSE_INTERRUPT \<noteq> 0 then
           (if cause = SCAUSE_SSI then Ok 3 s
            else if cause = SCAUSE_STI then bnd (timer_tick s) (\<lambda>_ s. Ok 2 s)
            else if cause = SCAUSE_SEI then bnd (external_intr s) (\<lambda>_ s. Ok 1 s)
            else Ok 0 s)
         else Ok 0 s)"

text \<open>
  How a trap from user space ends: with the exit of the process, in \<open>yield\<close> with the saved
  \<open>intena\<close>, or in the jump to \<open>userret\<close>, with its address and its argument.
\<close>

datatype trap_end = Exited | Yielding bool | ToUser u64 u64

definition usertrapret :: "image \<Rightarrow> 'a trap_st_scheme \<Rightarrow> (trap_end, 'a trap_st_scheme) outcome" where
  "usertrapret im s =
     bnd (this_proc_deref s) (\<lambda>p s.
     let s = intr_off s;
         s = set_csr (\<lambda>c. c\<lparr>stvec := TRAMPOLINE + (im_uservec im - im_trampoline im)\<rparr>) s;
         s = tf_set TF_kernel_satp p (satp s) s;
         s = tf_set TF_kernel_sp p (p_kstack (procs s p) + PGSIZE) s;
         s = tf_set TF_kernel_trap p (im_usertrap im) s;
         s = tf_set TF_kernel_hartid p (of_nat (tp s)) s;
         s = set_csr (\<lambda>c. c\<lparr>sstatus_spp := False, sstatus_spie := True\<rparr>) s;
         s = set_csr (\<lambda>c. c\<lparr>sepc := tf_get TF_epc p s\<rparr>) s
     in Ok (ToUser (TRAMPOLINE + (im_userret im - im_trampoline im)) (MAKE_SATP (p_pagetable (procs s p)))) s)"

definition exit_end :: "'a trap_st_scheme \<Rightarrow> (trap_end, 'a trap_st_scheme) outcome" where
  "exit_end s = bnd (exit (- 1) s) (\<lambda>_ s. Ok Exited s)"

text \<open>\<open>usertrap\<close> from the second check of \<open>killed\<close> on.\<close>

definition usertrap_end :: "image \<Rightarrow> nat \<Rightarrow> nat \<Rightarrow> 'a trap_st_scheme \<Rightarrow> (trap_end, 'a trap_st_scheme) outcome" where
  "usertrap_end im p which_dev s =
     bnd (killed p s) (\<lambda>k s.
     if k then exit_end s
     else if which_dev = 2 then bnd (yield_leave s) (\<lambda>intena s. Ok (Yielding intena) s)
     else usertrapret im s)"

definition usertrap :: "('a trap_st_scheme) page_source \<Rightarrow> image \<Rightarrow> 'a trap_st_scheme \<Rightarrow> (trap_end, 'a trap_st_scheme) outcome" where
  "usertrap ap im s =
     (if sstatus_spp (this_csr s) then Panic ''usertrap: not from user mode''
      else bnd (this_proc_deref (set_csr (\<lambda>c. c\<lparr>stvec := im_kernelvec im\<rparr>) s)) (\<lambda>p s.
        let s = tf_set TF_epc p (sepc (this_csr s)) s
        in if scause (this_csr s) = 8 then
             bnd (killed p s) (\<lambda>k s.
             if k then exit_end s
             else bnd (syscall ap im (intr_on (tf_set TF_epc p (tf_get TF_epc p s + 4) s))) (\<lambda>back s.
               if back then usertrap_end im p 0 s else Ok Exited s))
           else bnd (devintr s) (\<lambda>which_dev s.
             if which_dev \<noteq> 0 then usertrap_end im p which_dev s
             else bnd (setkilled p (pr ''            sepc= stval='' (pr ''usertrap(): unexpected scause'' s))) (\<lambda>_ s.
               usertrap_end im p 0 s))))"

text \<open>Back from \<open>yield\<close>.\<close>

definition usertrap_resume :: "image \<Rightarrow> nat \<Rightarrow> bool \<Rightarrow> 'a trap_st_scheme \<Rightarrow> (trap_end, 'a trap_st_scheme) outcome" where
  "usertrap_resume im p intena s = bnd (yield_return p intena s) (\<lambda>_ s. usertrapret im s)"

text \<open>
  \<open>kerneltrap\<close>, up to \<open>yield\<close> (the result is then the saved \<open>intena\<close>) or to its end, and the part
  after \<open>yield\<close>. The registers saved at entry are \<open>epc\<close> and the bits \<open>spp\<close> and \<open>spie\<close>; the third
  bit, \<open>SSTATUS_SIE\<close>, is known to be clear there.
\<close>

definition kerneltrap_restore :: "u64 \<Rightarrow> bool \<Rightarrow> bool \<Rightarrow> 'a trap_st_scheme \<Rightarrow> 'a trap_st_scheme" where
  "kerneltrap_restore epc spp spie s =
     intr_off (set_csr (\<lambda>c. c\<lparr>sepc := epc, sstatus_spp := spp, sstatus_spie := spie\<rparr>) s)"

definition kerneltrap :: "'a trap_st_scheme \<Rightarrow> (bool option, 'a trap_st_scheme) outcome" where
  "kerneltrap s =
     (let epc = sepc (this_csr s); spp = sstatus_spp (this_csr s); spie = sstatus_spie (this_csr s)
      in if \<not> spp then Panic ''kerneltrap: not from supervisor mode''
         else if intr_get s then Panic ''kerneltrap: interrupts enabled''
         else bnd (devintr s) (\<lambda>which_dev s.
           if which_dev = 0 then Panic ''kerneltrap''
           else bnd (if which_dev = 2
                     then bnd (this_proc s) (\<lambda>r s.
                       case r of None \<Rightarrow> Ok False s
                       | Some _ \<Rightarrow> bnd (this_proc_deref s) (\<lambda>p s. Ok (p_state (procs s p) = RUNNING) s))
                     else Ok False s) (\<lambda>y s.
             if y then bnd (yield_leave s) (\<lambda>intena s. Ok (Some intena) s)
             else Ok None (kerneltrap_restore epc spp spie s))))"

definition kerneltrap_resume :: "u64 \<Rightarrow> bool \<Rightarrow> bool \<Rightarrow> nat \<Rightarrow> bool \<Rightarrow> 'a trap_st_scheme \<Rightarrow> (unit, 'a trap_st_scheme) outcome" where
  "kerneltrap_resume epc spp spie p intena s =
     bnd (yield_return p intena s) (\<lambda>_ s. Ok () (kerneltrap_restore epc spp spie s))"

section \<open>A new process\<close>

definition forkret :: "image \<Rightarrow> 'a trap_st_scheme \<Rightarrow> (trap_end, 'a trap_st_scheme) outcome" where
  "forkret im s =
     bnd (this_proc_deref s) (\<lambda>p s.
     bnd (release (ProcLock p) s) (\<lambda>_ s.
     bnd (if first_forkret s then fsinit ROOTDEV (s\<lparr>first_forkret := False\<rparr>) else Ok () s) (\<lambda>_ s.
     usertrapret im s)))"

end
