(* ===== verification/Tty.thy ===== *)
theory Tty
  imports Console Uaccess Byte_Ring
begin

text \<open>
  The two buffers of the console as queues: the transmit ring of \<open>kernel/uart.c\<close>, and the input ring
  of \<open>kernel/console.c\<close>, whose middle counter \<open>w\<close> separates the lines that a reader may take from
  the line that is being edited.
\<close>

section \<open>Output\<close>

definition tx_queue :: "'a uart_st_scheme \<Rightarrow> u8 list" where
  "tx_queue s = ring_queue (uart_tx_buf s) (uart_tx_r s) (uart_tx_w s)"

definition tx_ok :: "'a uart_st_scheme \<Rightarrow> bool" where
  "tx_ok s \<longleftrightarrow> length (uart_tx_buf s) = UART_TX_BUF_SIZE \<and> unat (uart_tx_w s - uart_tx_r s) \<le> UART_TX_BUF_SIZE"

definition tx_put :: "u8 \<Rightarrow> 'a uart_st_scheme \<Rightarrow> 'a uart_st_scheme" where
  "tx_put c s = s\<lparr>uart_tx_buf := (uart_tx_buf s)[unat (uart_tx_w s) mod UART_TX_BUF_SIZE := c], uart_tx_w := uart_tx_w s + 1\<rparr>"

definition tx_get :: "'a uart_st_scheme \<Rightarrow> u8 \<times> 'a uart_st_scheme" where
  "tx_get s = (uart_tx_buf s ! (unat (uart_tx_r s) mod UART_TX_BUF_SIZE), s\<lparr>uart_tx_r := uart_tx_r s + 1\<rparr>)"

lemma tx_ring: "tx_ok s \<longleftrightarrow> ring_ok (uart_tx_buf s) (uart_tx_r s) (uart_tx_w s) \<and> length (uart_tx_buf s) = UART_TX_BUF_SIZE"
  by (auto simp: tx_ok_def ring_ok_def intro!: exI [of _ 5])

interpretation tx_ring: bounded_queue tx_ok tx_queue UART_TX_BUF_SIZE tx_put tx_get
proof unfold_locales
  fix s :: "'a uart_st_scheme" and b
  assume "tx_ok s" "length (tx_queue s) < UART_TX_BUF_SIZE"
  then have l: "length (uart_tx_buf s) = 32" "ring_ok (uart_tx_buf s) (uart_tx_r s) (uart_tx_w s)"
    "unat (uart_tx_w s - uart_tx_r s) < length (uart_tx_buf s)"
    by (simp_all add: tx_ring tx_queue_def length_ring_queue)
  show "tx_ok (tx_put b s) \<and> tx_queue (tx_put b s) = tx_queue s @ [b]"
    using ring_queue_put [OF l(2,3), of b] ring_ok_put [OF l(2,3), of "unat (uart_tx_w s) mod 32" b] l(1)
    by (simp add: tx_ring tx_queue_def tx_put_def)
next
  fix s :: "'a uart_st_scheme"
  assume "tx_ok s" "tx_queue s \<noteq> []"
  then have l: "length (uart_tx_buf s) = 32" "ring_ok (uart_tx_buf s) (uart_tx_r s) (uart_tx_w s)" "uart_tx_w s \<noteq> uart_tx_r s"
    by (simp_all add: tx_ring tx_queue_def ring_queue_nil)
  show "tx_ok (snd (tx_get s)) \<and> tx_queue s = fst (tx_get s) # tx_queue (snd (tx_get s))"
    using ring_queue_get [OF l(3), of "uart_tx_buf s"] ring_ok_get [OF l(2,3)] l(1)
    by (simp add: tx_ring tx_queue_def tx_get_def)
qed

lemma tx_empty: "uart_tx_w s = uart_tx_r s \<longleftrightarrow> tx_queue s = []"
  by (simp add: tx_queue_def ring_queue_nil)

lemma tx_full: "tx_ok s \<Longrightarrow> uart_tx_w s = uart_tx_r s + 32 \<longleftrightarrow> length (tx_queue s) = UART_TX_BUF_SIZE"
  using ring_full [of "uart_tx_buf s" "uart_tx_r s" "uart_tx_w s"] by (simp add: tx_ring tx_queue_def length_ring_queue)

lemma length_tx_queue: "unat (uart_tx_w s - uart_tx_r s) = length (tx_queue s)"
  by (simp add: tx_queue_def length_ring_queue)

lemma tx_frame [simp]:
  "tx_queue (s\<lparr>uart_lsr := l\<rparr>) = tx_queue s" "tx_ok (s\<lparr>uart_lsr := l\<rparr>) = tx_ok s"
  "tx_queue (s\<lparr>procs := P\<rparr>) = tx_queue s" "tx_ok (s\<lparr>procs := P\<rparr>) = tx_ok s"
  "tx_queue (s\<lparr>uart_out := x\<rparr>) = tx_queue s" "tx_ok (s\<lparr>uart_out := x\<rparr>) = tx_ok s"
  "tx_queue (enter L s) = tx_queue s" "tx_ok (enter L s) = tx_ok s"
  by (simp_all add: tx_queue_def tx_ok_def enter_def push_off_eq machine_defs)

text \<open>The output of the driver: what the device has been given, and what is still to be sent.\<close>

definition tx_stream :: "'a uart_st_scheme \<Rightarrow> (nat \<times> u8) list" where
  "tx_stream s = uart_out s @ map (Pair THR) (tx_queue s)"

definition idle :: "u8 \<Rightarrow> bool" where
  "idle x \<longleftrightarrow> x AND LSR_TX_IDLE \<noteq> 0"

text \<open>How many bytes the device is ready for.\<close>

definition ready :: "'a uart_st_scheme \<Rightarrow> nat" where
  "ready s = length (takeWhile idle (take (length (tx_queue s)) (uart_lsr s)))"

lemma uartstart_loop_sends:
  assumes "settled s" "table_free s" "tx_ok s" "length (tx_queue s) < n"
  shows "runs (uartstart_loop n s) (\<lambda>_ t. tx_ok t \<and> uart_out t = uart_out s @ map (Pair THR) (take (ready s) (tx_queue s)) \<and>
    tx_queue t = drop (ready s) (tx_queue s) \<and>
    procs t = (if ready s = 0 then procs s else woken {..<NPROC} (Some ChanUartTx) (c_proc (cpus s (tp s))) (procs s)) \<and>
    t = s\<lparr>procs := procs t, uart_tx_r := uart_tx_r t, uart_lsr := uart_lsr t, uart_out := uart_out t\<rparr>)"
  using assms
proof (induction n arbitrary: s)
  case (Suc n)
  show ?case
  proof (cases "tx_queue s = [] \<or> uart_lsr s = [] \<or> \<not> idle (hd (uart_lsr s))")
    case True
    then show ?thesis using Suc.prems(3)
      by (cases "uart_lsr s") (auto simp: tx_empty ready_def ReadLSR_def idle_def take_Cons' split: if_splits)
  next
    case False
    then obtain x xs where x: "uart_lsr s = x # xs" "idle x" by (cases "uart_lsr s") auto
    let ?u = "s\<lparr>uart_lsr := xs, uart_tx_r := uart_tx_r s + 1\<rparr>"
    let ?t = "WriteReg THR (fst (tx_get s)) (?u\<lparr>procs := woken {..<NPROC} (Some ChanUartTx) (c_proc (cpus s (tp s))) (procs s)\<rparr>)"
    let ?w = "woken {..<NPROC} (Some ChanUartTx) (c_proc (cpus s (tp s)))"
    have q: "tx_ok (snd (tx_get s))" "tx_queue s = fst (tx_get s) # tx_queue (snd (tx_get s))"
      using tx_ring.get_law [OF Suc.prems(3)] False by auto
    have w: "wakeup (Some ChanUartTx) ?u = Ok () (?u\<lparr>procs := ?w (procs s)\<rparr>)"
      using wakeup_woken [of ?u] Suc.prems(1,2) by (simp add: settled_def cpu_ok_def machine_defs table_free_def lock_free_def)
    have l: "uartstart_loop (Suc n) s = uartstart_loop n ?t"
      using False x w by (simp add: tx_empty ReadLSR_def idle_def tx_get_def)
    have t: "tx_ok ?t" "tx_queue ?t = tx_queue (snd (tx_get s))" "uart_lsr ?t = xs" "uart_out ?t = uart_out s @ [(THR, fst (tx_get s))]"
      "procs ?t = ?w (procs s)" "cpus ?t = cpus s" "tp ?t = tp s"
      using q(1) by (simp_all add: WriteReg_def tx_get_def tx_ok_def tx_queue_def)
    have r: "ready s = Suc (ready ?t)" using x t(2,3) q(2) by (simp add: ready_def)
    have i: "?w (?w (procs s)) = ?w (procs s)" by (auto simp: fun_eq_iff woken_def wakes_def)
    have f: "?t\<lparr>procs := P, uart_tx_r := R, uart_lsr := L, uart_out := U\<rparr> = s\<lparr>procs := P, uart_tx_r := R, uart_lsr := L, uart_out := U\<rparr>"
      for P R L U by (simp add: WriteReg_def)
    have "settled ?t" "table_free ?t" using Suc.prems(1,2)
      by (simp_all add: WriteReg_def settled_def cpu_ok_def machine_defs table_free_def lock_free_def)
    note ih = Suc.IH [OF this t(1), unfolded t f]
    show ?thesis unfolding l r
      by (rule runs_mono [OF ih]) (use Suc.prems(4) q(2) i in \<open>auto split: if_splits\<close>)
  qed
qed simp

text \<open>What one call of \<open>uartstart\<close> does to a state outside the lock.\<close>

definition sent :: "nat \<Rightarrow> 'a uart_st_scheme \<Rightarrow> 'a uart_st_scheme \<Rightarrow> bool" where
  "sent p s t \<longleftrightarrow> quiet p t \<and> tx_ok t \<and> uart_out t = uart_out s @ map (Pair THR) (take (ready s) (tx_queue s)) \<and>
     tx_queue t = drop (ready s) (tx_queue s) \<and>
     procs t = (if ready s = 0 then procs s else woken {..<NPROC} (Some ChanUartTx) (Some p) (procs s)) \<and>
     t = s\<lparr>procs := procs t, uart_tx_r := uart_tx_r t, uart_lsr := uart_lsr t, uart_out := uart_out t\<rparr>"

lemma sent_stream: "sent p s t \<Longrightarrow> tx_stream t = tx_stream s"
  by (simp add: sent_def tx_stream_def flip: map_append)

lemma enter_uart_simps [simp]:
  "uart_out (enter L s) = uart_out s" "uart_lsr (enter L s) = uart_lsr s" "uart_tx_w (enter L s) = uart_tx_w s"
  "uart_tx_r (enter L s) = uart_tx_r s" "uart_tx_buf (enter L s) = uart_tx_buf s" "panicked (enter L s) = panicked s"
  "uart_rhr (enter L s) = uart_rhr s"
  by (simp_all add: enter_def push_off_eq machine_defs)

lemma uartstart_sent:
  assumes "quiet p s" "tx_ok s"
  shows "runs (bnd (uartstart (enter UartTxLock s)) (\<lambda>_ s. release UartTxLock s)) (\<lambda>_ t. sent p s t)"
proof -
  let ?u = "enter UartTxLock s"
  note q = quietD [OF assms(1)]
  have u: "settled ?u" "table_free ?u" "tx_ok ?u" "c_proc (cpus ?u (tp ?u)) = Some p" "ready ?u = ready s"
    using q assms(2) by (simp_all add: table_free_def ready_def)
  have rel: "runs (release UartTxLock t) (\<lambda>_ t. sent p s t)"
    if t: "tx_ok t" "uart_out t = uart_out s @ map (Pair THR) (take (ready s) (tx_queue s))" "tx_queue t = drop (ready s) (tx_queue s)"
      "procs t = (if ready s = 0 then procs s else woken {..<NPROC} (Some ChanUartTx) (Some p) (procs s))"
      "t = ?u\<lparr>procs := procs t, uart_tx_r := uart_tx_r t, uart_lsr := uart_lsr t, uart_out := uart_out t\<rparr>" for t :: "'a uart_st_scheme"
  proof -
    let ?v = "t\<lparr>cpus := cpus s, locks := locks s\<rparr>"
    have c: "cpus t = cpus ?u" "locks t = locks ?u" "tp t = tp s" using arg_cong [OF t(5), of cpus] arg_cong [OF t(5), of locks] arg_cong [OF t(5), of tp] by simp_all
    have "?v = s\<lparr>procs := procs t, uart_tx_r := uart_tx_r t, uart_lsr := uart_lsr t, uart_out := uart_out t\<rparr>"
      by (subst t(5), subst enter_eq) (simp add: locks_idem cpus_idem)
    moreover have "quiet p ?v" using assms(1) c by (subst quiet_cong [of _ s]) simp_all
    moreover have "tx_ok ?v" "tx_queue ?v = tx_queue t" using t(1) by (simp_all add: tx_ok_def tx_queue_def)
    ultimately show ?thesis using release_settled [OF q(1) q(2) [of UartTxLock] c(3,1,2)] t(2-4) by (simp add: sent_def)
  qed
  show ?thesis unfolding runs_bnd uartstart_def length_tx_queue tx_frame
    by (rule runs_mono [OF uartstart_loop_sends [OF u(1-3), of "Suc (length (tx_queue s))", unfolded u(4,5) tx_frame enter_uart_simps enter_proc_simps]])
      (simp, blast intro: rel)
qed

lemma tx_put_enter: "tx_put c (enter L s) = enter L (tx_put c s)"
  by (simp add: tx_put_def enter_def push_off_eq machine_defs)

lemma quiet_tx_put [simp]: "quiet p (tx_put c s) = quiet p s"
  by (rule quiet_cong) (simp_all add: tx_put_def)

lemma uartputc_eq:
  assumes "quiet p s" "tx_ok s" "\<not> panicked s" "length (tx_queue s) < UART_TX_BUF_SIZE"
  shows "runs (uartputc c s) (\<lambda>_ t. sent p (tx_put c s) t)"
proof -
  have "uartputc c s = bnd (uartstart (enter UartTxLock (tx_put c s))) (\<lambda>_ s. release UartTxLock s)"
    using assms quietD [OF assms(1)] tx_full [OF assms(2)]
    by (simp add: uartputc_def acquire_free tx_put_enter [of c UartTxLock s, unfolded tx_put_def enter_uart_simps] tx_put_def)
  then show ?thesis using uartstart_sent [of p "tx_put c s"] tx_ring.put_law [OF assms(2,4), of c] assms(1) by simp
qed

lemma tx_put_stream: "tx_ok s \<Longrightarrow> length (tx_queue s) < UART_TX_BUF_SIZE \<Longrightarrow> tx_stream (tx_put c s) = tx_stream s @ [(THR, c)]"
  using tx_ring.put_law [of s c] by (simp add: tx_stream_def) (simp add: tx_put_def)

text \<open>
  C20. Characters are sent in order. As long as the transmit ring has room, \<open>uartputc\<close> returns and
  appends its character to the output, that is to what the device has been given followed by what
  the ring holds: no character is lost, duplicated or overtaken, however often the device reports
  that it is busy. On a full ring the caller waits.
\<close>

theorem uartputc_appends:
  assumes "quiet p s" "tx_ok s" "\<not> panicked s"
  shows "(length (tx_queue s) < UART_TX_BUF_SIZE \<longrightarrow>
      runs (uartputc c s) (\<lambda>_ t. tx_stream t = tx_stream s @ [(THR, c)] \<and> tx_ok t \<and> quiet p t \<and>
        (\<exists>k. uart_out t = uart_out s @ map (Pair THR) (take k (tx_queue s @ [c]))))) \<and>
    (length (tx_queue s) = UART_TX_BUF_SIZE \<longrightarrow> uartputc c s = Block)"
proof (intro conjI impI)
  assume l: "length (tx_queue s) < UART_TX_BUF_SIZE"
  have u: "uart_out (tx_put c s) = uart_out s" "tx_queue (tx_put c s) = tx_queue s @ [c]"
    using tx_ring.put_law [OF assms(2) l, of c] by (simp_all add: tx_put_def)
  show "runs (uartputc c s) (\<lambda>_ t. tx_stream t = tx_stream s @ [(THR, c)] \<and> tx_ok t \<and> quiet p t \<and>
        (\<exists>k. uart_out t = uart_out s @ map (Pair THR) (take k (tx_queue s @ [c]))))"
  proof (rule runs_mono [OF uartputc_eq [OF assms l, of c]])
    fix t assume t: "sent p (tx_put c s) t"
    then have "uart_out t = uart_out s @ map (Pair THR) (take (ready (tx_put c s)) (tx_queue s @ [c]))" "tx_ok t" "quiet p t"
      using u by (simp_all add: sent_def)
    then show "tx_stream t = tx_stream s @ [(THR, c)] \<and> tx_ok t \<and> quiet p t \<and>
        (\<exists>k. uart_out t = uart_out s @ map (Pair THR) (take k (tx_queue s @ [c])))"
      using sent_stream [OF t] tx_put_stream [OF assms(2) l, of c] by auto
  qed
next
  assume "length (tx_queue s) = UART_TX_BUF_SIZE"
  then show "uartputc c s = Block" using assms quietD [OF assms(1)] by (simp add: uartputc_def acquire_free tx_full)
qed

section \<open>Input\<close>

definition cons_ok :: "'a cons_st_scheme \<Rightarrow> bool" where
  "cons_ok s \<longleftrightarrow> length (cons_buf s) = INPUT_BUF_SIZE \<and> unat (cons_e s - cons_r s) \<le> INPUT_BUF_SIZE \<and>
     unat (cons_w s - cons_r s) \<le> unat (cons_e s - cons_r s)"

text \<open>The input a reader can take, and the line that is being edited.\<close>

definition lines :: "'a cons_st_scheme \<Rightarrow> u8 list" where
  "lines s = ring_queue (cons_buf s) (cons_r s) (cons_w s)"

definition line :: "'a cons_st_scheme \<Rightarrow> u8 list" where
  "line s = ring_queue (cons_buf s) (cons_w s) (cons_e s)"

definition input :: "'a cons_st_scheme \<Rightarrow> u8 list" where
  "input s = ring_queue (cons_buf s) (cons_r s) (cons_e s)"

lemma word_diff_split: "unat (w - r) \<le> unat (e - r) \<Longrightarrow> unat (e - w) = unat (e - r) - unat (w - r)" for e w r :: "'l::len word"
proof -
  assume a: "unat (w - r) \<le> unat (e - r)"
  have e: "e - w = (e - r) - (w - r)" by simp
  show ?thesis unfolding e by (subst unat_sub_if') (simp add: a)
qed

lemma ring_queue_split:
  fixes r w e :: "'l::len word"
  assumes "unat (w - r) \<le> unat (e - r)"
  shows "ring_queue xs r e = ring_queue xs r w @ ring_queue xs w e"
proof (rule nth_equalityI)
  show "length (ring_queue xs r e) = length (ring_queue xs r w @ ring_queue xs w e)"
    using assms by (simp add: length_ring_queue word_diff_split [OF assms])
  have "w + of_nat (i - unat (w - r)) = r + of_nat i" if "unat (w - r) \<le> i" for i
    using that by (simp add: of_nat_diff)
  then show "ring_queue xs r e ! i = (ring_queue xs r w @ ring_queue xs w e) ! i" if "i < length (ring_queue xs r e)" for i
    using that assms by (auto simp: ring_queue_def nth_append word_diff_split [OF assms] add.commute)
qed

lemma input_split: "cons_ok s \<Longrightarrow> input s = lines s @ line s"
  unfolding input_def lines_def line_def by (rule ring_queue_split) (simp add: cons_ok_def)

lemma length_lines: "unat (cons_w s - cons_r s) = length (lines s)" and length_input: "unat (cons_e s - cons_r s) = length (input s)"
  and length_line: "unat (cons_e s - cons_w s) = length (line s)"
  by (simp_all add: lines_def input_def line_def length_ring_queue)

lemma line_empty: "cons_e s = cons_w s \<longleftrightarrow> line s = []"
  by (simp add: line_def ring_queue_nil)

lemma last_ring_queue:
  fixes r w :: "'l::len word"
  assumes "w \<noteq> r"
  shows "xs ! (unat (w - 1) mod length xs) = last (ring_queue xs r w)"
proof -
  have "r + of_nat (unat (w - 1 - r)) = w - 1" by simp
  moreover have "unat (w - r) = Suc (unat (w - 1 - r))" using diff_next [OF assms] by (simp add: algebra_simps)
  ultimately show ?thesis by (simp add: ring_queue_def)
qed

lemma enter_cons_simps [simp]:
  "cons_buf (enter L s) = cons_buf s" "cons_r (enter L s) = cons_r s" "cons_w (enter L s) = cons_w s" "cons_e (enter L s) = cons_e s"
  by (simp_all add: enter_def push_off_eq machine_defs)

text \<open>The listing of the process table that \<open>^P\<close> prints; each piece ends in the zero that \<open>vsprintf\<close> appends.\<close>

definition proc_line :: "proc \<Rightarrow> u8 list" where
  "proc_line p = bytes_of (dec_int (p_pid p)) @ [32] @ bytes_of (state_name (p_state p)) @ [32] @ takeWhile (\<lambda>b. b \<noteq> 0) (p_name p)"

definition dump_proc :: "proc \<Rightarrow> u8 list" where
  "dump_proc p = (if p_state p = UNUSED then [] else proc_line p @ [0] @ [13, 10, 0])"

definition dump :: "(nat \<Rightarrow> proc) \<Rightarrow> u8 list" where
  "dump P = [13, 10, 0] @ concat (map (\<lambda>i. dump_proc (P i)) [0..<NPROC])"

text \<open>The table as the types of the code have it: a pid is an \<open>int\<close>, a name has at most 16 bytes.\<close>

definition listable :: "proc \<Rightarrow> bool" where
  "listable p \<longleftrightarrow> - (2 ^ 31) \<le> p_pid p \<and> p_pid p < 2 ^ 31 \<and> length (p_name p) \<le> 16"

text \<open>What a typed character does to the input, and what it sends to the device.\<close>

fun edit :: "u8 \<Rightarrow> u8 list \<times> u8 list \<Rightarrow> u8 list \<times> u8 list" where
  "edit c (u, l) =
     (if c = CTRL_P then (u, l)
      else if c = CTRL_U then (u, [])
      else if c = CTRL_H \<or> c = 0x7f then (u, butlast l)
      else if c \<noteq> 0 \<and> length u + length l < INPUT_BUF_SIZE then
        (let c = (if c = 13 then NEWLINE else c); l = l @ [c]
         in if c = NEWLINE \<or> c = CTRL_D \<or> length u + length l = INPUT_BUF_SIZE then (u @ l, []) else (u, l))
      else (u, l))"

fun echo :: "(nat \<Rightarrow> proc) \<Rightarrow> u8 \<Rightarrow> u8 list \<times> u8 list \<Rightarrow> u8 list" where
  "echo P c (u, l) =
     (if c = CTRL_P then dump P
      else if c = CTRL_U then concat (replicate (length l) [8, 32, 8])
      else if c = CTRL_H \<or> c = 0x7f then (if l = [] then [] else [8, 32, 8])
      else if c \<noteq> 0 \<and> length u + length l < INPUT_BUF_SIZE then [if c = 13 then NEWLINE else c]
      else [])"

definition idles :: "'a uart_st_scheme \<Rightarrow> nat" where
  "idles s = length (filter idle (uart_lsr s))"

text \<open>Output on a device that is ready in time.\<close>

definition echoed :: "u8 list \<Rightarrow> 'a uart_st_scheme \<Rightarrow> 'a uart_st_scheme \<Rightarrow> bool" where
  "echoed xs s t \<longleftrightarrow> t = s\<lparr>uart_lsr := uart_lsr t, uart_out := uart_out s @ map (Pair THR) xs\<rparr> \<and> idles t + length xs = idles s"

lemma echoed_refl [simp]: "echoed [] s s"
  by (simp add: echoed_def)

lemma echoed_trans: "echoed xs s t \<Longrightarrow> echoed ys t u \<Longrightarrow> echoed (xs @ ys) s u"
proof -
  assume a: "echoed xs s t" "echoed ys t u"
  then have t: "t = s\<lparr>uart_lsr := uart_lsr t, uart_out := uart_out s @ map (Pair THR) xs\<rparr>"
    and u: "u = t\<lparr>uart_lsr := uart_lsr u, uart_out := uart_out t @ map (Pair THR) ys\<rparr>" by (simp_all add: echoed_def)
  have "u = s\<lparr>uart_lsr := uart_lsr u, uart_out := uart_out s @ map (Pair THR) (xs @ ys)\<rparr>" by (subst u, subst (1 2) t) simp
  then show ?thesis using a by (simp add: echoed_def)
qed

lemma echoed_frame:
  assumes "echoed xs s t"
  shows "settled t = settled s" "panicked t = panicked s" "tp t = tp s" "cpus t = cpus s" "locks t = locks s" "procs t = procs s" "uart_out t = uart_out s @ map (Pair THR) xs"
    "idles t + length xs = idles s"
  using assms [unfolded echoed_def]
  by - (elim conjE, erule ssubst, simp add: settled_def cpu_ok_def machine_defs idles_def)+

lemma echoed_cons: "echoed xs s t \<Longrightarrow> cons_buf t = cons_buf s \<and> cons_r t = cons_r s \<and> cons_w t = cons_w s \<and> cons_e t = cons_e s"
  unfolding echoed_def by (elim conjE, erule ssubst) simp

lemma wait_tx_idle_Some: "filter idle xs \<noteq> [] \<Longrightarrow> \<exists>ys. wait_tx_idle xs = Some ys \<and> Suc (length (filter idle ys)) = length (filter idle xs)"
  by (induction xs) (auto simp: idle_def)

lemma uartputc_sync_echoed:
  assumes "settled s" "\<not> panicked s" "0 < idles s"
  shows "runs (uartputc_sync c s) (\<lambda>_ t. echoed [c] s t)"
proof -
  obtain ys where y: "wait_tx_idle (uart_lsr s) = Some ys" "Suc (length (filter idle ys)) = idles s"
    using wait_tx_idle_Some [of "uart_lsr s"] assms(3) by (auto simp: idles_def)
  let ?t = "s\<lparr>uart_lsr := ys, uart_out := uart_out s @ [(THR, c)]\<rparr>"
  have "WriteReg THR c ((push_off s)\<lparr>uart_lsr := ys\<rparr>) = push_off ?t" by (simp add: WriteReg_def push_off_eq)
  moreover have "settled ?t" using assms(1) by (simp add: settled_def cpu_ok_def machine_defs)
  ultimately have "uartputc_sync c s = Ok () ?t"
    using y(1) assms(2) push_pop_settled [of ?t] by (simp add: uartputc_sync_def Let_def push_off_eq)
  then show ?thesis using y(2) by (simp add: echoed_def idles_def)
qed

lemma console_putchar_echoed:
  assumes "settled s" "\<not> panicked s"
  shows "0 < idles s \<Longrightarrow> runs (console_putchar (Some c) s) (\<lambda>_ t. echoed [c] s t)"
    and "3 \<le> idles s \<Longrightarrow> runs (console_putchar None s) (\<lambda>_ t. echoed [8, 32, 8] s t)"
proof -
  show "0 < idles s \<Longrightarrow> runs (console_putchar (Some c) s) (\<lambda>_ t. echoed [c] s t)"
    using uartputc_sync_echoed [OF assms] by simp
  assume i: "3 \<le> idles s"
  show "runs (console_putchar None s) (\<lambda>_ t. echoed [8, 32, 8] s t)"
    unfolding console_putchar.simps
  proof (intro runs_bndI)
    show "runs (uartputc_sync 8 s) (\<lambda>_. echoed [8] s)" using i by (intro uartputc_sync_echoed assms) simp
    fix t assume t: "echoed [8] s t"
    then show "runs (uartputc_sync 32 t) (\<lambda>_. echoed [8, 32] s)"
      using i assms echoed_frame [OF t] echoed_trans [OF t, of "[32]"] by (auto intro!: runs_mono [OF uartputc_sync_echoed])
  next
    fix t assume t: "echoed [8, 32] s t"
    then show "runs (uartputc_sync 8 t) (\<lambda>_. echoed [8, 32, 8] s)"
      using i assms echoed_frame [OF t] echoed_trans [OF t, of "[8]"] by (auto intro!: runs_mono [OF uartputc_sync_echoed])
  qed
qed

text \<open>Erasing the newest character.\<close>

lemma line_erase: "line s \<noteq> [] \<Longrightarrow> line (s\<lparr>cons_e := cons_e s - 1\<rparr>) = butlast (line s)"
  using ring_queue_unput [of "cons_e s" "cons_w s" "cons_buf s"] by (auto simp: line_def ring_queue_nil)

lemma cons_ok_erase:
  assumes "cons_ok s" "line s \<noteq> []"
  shows "cons_ok (s\<lparr>cons_e := cons_e s - 1\<rparr>)"
proof -
  have "cons_e s \<noteq> cons_r s" using assms by (auto simp: cons_ok_def line_def ring_queue_nil unat_eq_zero)
  then have "unat (cons_e s - cons_r s) = Suc (unat (cons_e s - 1 - cons_r s))"
    using diff_next [of "cons_e s" "cons_r s"] by (simp add: algebra_simps)
  moreover have "unat (cons_w s - cons_r s) \<noteq> unat (cons_e s - cons_r s)"
    using assms(2) by (auto simp: line_def ring_queue_nil simp flip: word_unat_eq_iff)
  ultimately show ?thesis using assms(1) by (simp add: cons_ok_def)
qed

lemma cons_at_last: "cons_ok s \<Longrightarrow> line s \<noteq> [] \<Longrightarrow> cons_at (cons_e s - 1) s = last (line s)"
  using last_ring_queue [of "cons_e s" "cons_w s" "cons_buf s"] by (auto simp: cons_at_def line_def cons_ok_def ring_queue_nil)

lemma line_echoed: "echoed xs s t \<Longrightarrow> line t = line s \<and> lines t = lines s \<and> cons_ok t = cons_ok s"
  using echoed_cons [of xs s t] by (simp add: line_def lines_def cons_ok_def)

lemma kill_line_echoed:
  assumes "settled s" "\<not> panicked s" "cons_ok s" "NEWLINE \<notin> set (line s)" "3 * length (line s) \<le> idles s" "length (line s) < n"
  shows "runs (kill_line n s) (\<lambda>_ t. echoed (concat (replicate (length (line s)) [8, 32, 8])) (s\<lparr>cons_e := cons_w s\<rparr>) t)"
  using assms
proof (induction n arbitrary: s)
  case (Suc n)
  show ?case
  proof (cases "line s = []")
    case True
    then have e: "cons_e s = cons_w s" by (simp add: line_def ring_queue_nil)
    then have "s\<lparr>cons_e := cons_w s\<rparr> = s" by (cases s) simp
    then show ?thesis using True e echoed_refl [of s] unfolding kill_line.simps by (simp only: simp_thms if_False runs_simps) simp
  next
    case False
    let ?u = "s\<lparr>cons_e := cons_e s - 1\<rparr>"
    have l: "line ?u = butlast (line s)" "cons_ok ?u" using line_erase [OF False] cons_ok_erase [OF Suc.prems(3) False] by simp_all
    have "cons_at (cons_e s - 1) s \<noteq> NEWLINE" using cons_at_last [OF Suc.prems(3) False] Suc.prems(4) False by (metis last_in_set)
    then have k: "kill_line (Suc n) s = bnd (console_putchar None ?u) (\<lambda>_ s. kill_line n s)" using False by (simp add: line_empty)
    have u: "settled ?u" "\<not> panicked ?u" "3 \<le> idles ?u" using Suc.prems(1,2,5) False
      by (auto simp: settled_def cpu_ok_def machine_defs idles_def Suc_le_eq neq_Nil_conv)
    obtain m where m: "length (line s) = Suc m" using False by (cases "line s") auto
    show ?thesis unfolding k
    proof (rule runs_bndI [OF console_putchar_echoed(2) [OF u]])
      fix t assume t: "echoed [8, 32, 8] ?u t"
      note f = echoed_frame [OF t] line_echoed [OF t] echoed_cons [OF t]
      have "runs (kill_line n t) (\<lambda>_ v. echoed (concat (replicate m [8, 32, 8])) (t\<lparr>cons_e := cons_w t\<rparr>) v)"
        using Suc.IH [of t] Suc.prems u(1,2) f l m in_set_butlastD [of _ "line s"] by (auto simp: idles_def)
      moreover have "echoed [8, 32, 8] (s\<lparr>cons_e := cons_w s\<rparr>) (t\<lparr>cons_e := cons_w t\<rparr>)"
        using t f unfolding echoed_def by (auto simp: idles_def elim!: ssubst)
      ultimately show "runs (kill_line n t) (\<lambda>_ v. echoed (concat (replicate (length (line s)) [8, 32, 8])) (s\<lparr>cons_e := cons_w s\<rparr>) v)"
        unfolding m by (auto elim!: runs_mono dest: echoed_trans)
    qed
  qed
qed simp

text \<open>Printing on the device.\<close>

lemma console_print_echoed:
  assumes "settled s" "\<not> panicked s" "length cs \<le> idles s"
  shows "runs (console_print cs s) (\<lambda>_ t. echoed cs s t)"
  using assms
proof (induction cs arbitrary: s)
  case (Cons c cs)
  have "0 < idles s" using Cons.prems(3) by simp
  from console_putchar_echoed(1) [OF Cons.prems(1,2) this] show ?case unfolding console_print.simps
  proof (rule runs_bndI)
    fix t assume t: "echoed [c] s t"
    then have "runs (console_print cs t) (\<lambda>_ u. echoed cs t u)"
      using echoed_frame [OF t] Cons.prems by (intro Cons.IH) simp_all
    then show "runs (console_print cs t) (\<lambda>_ u. echoed (c # cs) s u)" by (rule runs_mono) (use echoed_trans [OF t] in fastforce)
  qed
qed simp

lemma uart_printk_echoed:
  assumes s: "settled s" "lock_free PrLock s" "\<not> panicked s" "length xs < idles s" "length xs < 63"
    and v: "\<And>r. \<exists>i. vsprintf str (Ring r) f ap 0 = Ok i (Ring (ring_buf_puts r (xs @ [0])))"
  shows "runs (uart_printk str f ap s) (\<lambda>_ t. echoed (xs @ [0]) s t)"
proof -
  let ?j = "\<lparr>rb_buffer = replicate MAX_RING_BUF_SIZE 0, rb_head = 0, rb_tail = 0, rb_full = False, rb_out = []\<rparr>"
  obtain i where i: "vsprintf str (Ring (ring_buf_init ?j)) f ap 0 = Ok i (Ring (ring_buf_puts (ring_buf_init ?j) (xs @ [0])))" using v by blast
  have o: "rb_out (ring_buf_flush (ring_buf_puts (ring_buf_init ?j) (xs @ [0]))) = xs @ [0]"
    by (subst flush_surviving) (use s(5) in \<open>simp_all add: surviving_def\<close>)
  show ?thesis
  proof (cases "pr_locking s")
    case False
    then show ?thesis using console_print_echoed [OF s(1,3), of "xs @ [0]"] s(4) i o
      by (auto simp: uart_printk_def printk_via_def runs_bnd simp del: ring_puts_snoc)
  next
    case True
    let ?u = "enter PrLock s"
    have u: "settled ?u" "\<not> panicked ?u" "length (xs @ [0]) \<le> idles ?u" using s by (simp_all add: idles_def)
    have rel: "runs (release PrLock t) (\<lambda>_ t. echoed (xs @ [0]) s t)" if t: "echoed (xs @ [0]) ?u t" for t
    proof -
      note f = echoed_frame [OF t]
      have e: "t = ?u\<lparr>uart_lsr := uart_lsr t, uart_out := uart_out s @ map (Pair THR) (xs @ [0])\<rparr>" using t by (simp add: echoed_def)
      have "t\<lparr>cpus := cpus s, locks := locks s\<rparr> = s\<lparr>uart_lsr := uart_lsr t, uart_out := uart_out s @ map (Pair THR) (xs @ [0])\<rparr>"
        by (subst e, subst enter_eq) (simp add: locks_idem cpus_idem)
      moreover have "idles (s\<lparr>uart_lsr := uart_lsr t, uart_out := y\<rparr>) + length (xs @ [0]) = idles s" for y using f(8) by (simp add: idles_def)
      ultimately show ?thesis using release_settled [OF s(1,2), of t] f by (simp add: echoed_def)
    qed
    have "runs (console_print (xs @ [0]) ?u) (\<lambda>_ t. runs (release PrLock t) (\<lambda>_ t. echoed (xs @ [0]) s t))"
      by (rule runs_mono [OF console_print_echoed [OF u]]) (rule rel)
    then show ?thesis using True s(2) i o
      by (auto simp: uart_printk_def printk_via_def acquire_free runs_bnd simp del: ring_puts_snoc)
  qed
qed

lemma newline_echoed:
  assumes "settled s" "lock_free PrLock s" "\<not> panicked s" "3 \<le> idles s"
  shows "runs (uart_printk (\<lambda>_. []) [CHR 0x0A] [] s) (\<lambda>_ t. echoed [13, 10, 0] s t)"
  using uart_printk_echoed [of s "[13, 10]" "\<lambda>_. []" "[CHR 0x0A]" "[]"] assms
  by (simp add: vsprintf_literal literal_bytes_def del: ring_puts_snoc)

lemma proc_line_echoed:
  assumes "settled s" "lock_free PrLock s" "\<not> panicked s" "length (proc_line p) < idles s" "listable p"
  shows "runs (uart_printk (\<lambda>a. if a = 1 then bytes_of (state_name (p_state p)) else takeWhile (\<lambda>b. b \<noteq> 0) (p_name p))
    ''%d %s %s'' [of_int (p_pid p), 1, 2] s) (\<lambda>_ t. echoed (proc_line p @ [0]) s t)"
proof (rule uart_printk_echoed [OF assms(1-4)])
  have "nat \<bar>p_pid p\<bar> < 10 ^ Suc 9" using assms(5) unfolding listable_def by (simp add: abs_less_iff) linarith
  from length_dec_nat [OF this] have "length (dec_int (p_pid p)) \<le> 11" by (simp add: dec_int_def abs_if split: if_splits)
  moreover have "length (state_name (p_state p)) \<le> 6" by (cases "p_state p") simp_all
  moreover have "length (takeWhile (\<lambda>b. b \<noteq> 0) (p_name p)) \<le> 16" using length_takeWhile_le [of _ "p_name p"] assms(5) by (meson listable_def le_trans)
  ultimately show "length (proc_line p) < 63" by (simp add: proc_line_def bytes_of_def)
  fix r
  show "\<exists>i. vsprintf (\<lambda>a. if a = 1 then bytes_of (state_name (p_state p)) else takeWhile (\<lambda>b. b \<noteq> 0) (p_name p)) (Ring r)
      ''%d %s %s'' [of_int (p_pid p), 1, 2] 0 = Ok i (Ring (ring_buf_puts r (proc_line p @ [0])))"
    using vsprintf_listing [of "p_pid p" 1 2 "\<lambda>a. if a = 1 then bytes_of (state_name (p_state p)) else takeWhile (\<lambda>b. b \<noteq> 0) (p_name p)" r 0] assms(5)
    unfolding proc_line_def listable_def by (simp del: ring_puts_snoc)
qed

lemma procdump_loop_echoed:
  assumes "settled s" "lock_free PrLock s" "\<not> panicked s" "length (concat (map (\<lambda>i. dump_proc (procs s i)) is)) \<le> idles s"
    "\<forall>i\<in>set is. listable (procs s i)"
  shows "runs (procdump_loop is s) (\<lambda>_ t. echoed (concat (map (\<lambda>i. dump_proc (procs s i)) is)) s t)"
  using assms
proof (induction "is" arbitrary: s)
  case (Cons i "is")
  let ?p = "procs s i" and ?rest = "concat (map (\<lambda>i. dump_proc (procs s i)) is)"
  show ?case
  proof (cases "p_state ?p = UNUSED")
    case True
    then show ?thesis using Cons by (simp add: dump_proc_def)
  next
    case False
    have l: "length (proc_line ?p) < idles s" "length (proc_line ?p) + 4 + length ?rest \<le> idles s" using Cons.prems(4) False by (simp_all add: dump_proc_def)
    show ?thesis using False unfolding procdump_loop.simps Let_def if_not_P [OF False]
    proof (intro runs_bndI)
      show "runs (uart_printk (\<lambda>a. if a = 1 then bytes_of (state_name (p_state ?p)) else takeWhile (\<lambda>b. b \<noteq> 0) (p_name ?p))
        ''%d %s %s'' [of_int (p_pid ?p), 1, 2] s) (\<lambda>_. echoed (proc_line ?p @ [0]) s)"
        using Cons.prems l(1) by (intro proc_line_echoed) simp_all
      fix t assume t: "echoed (proc_line ?p @ [0]) s t"
      note f = echoed_frame [OF t]
      show "runs (uart_printk (\<lambda>_. []) [CHR 0x0A] [] t) (\<lambda>_. echoed (dump_proc ?p) s)"
        using Cons.prems l f lock_free_cong [OF f(5)] echoed_trans [OF t, of "[13, 10, 0]"] False
        by (auto simp: dump_proc_def intro!: runs_mono [OF newline_echoed])
    next
      fix t assume t: "echoed (dump_proc ?p) s t"
      note f = echoed_frame [OF t]
      have "runs (procdump_loop is t) (\<lambda>_ u. echoed ?rest t u)"
        unfolding f(6) [symmetric] using Cons.prems l f lock_free_cong [OF f(5)] False by (intro Cons.IH) (simp_all add: dump_proc_def)
      then show "runs (procdump_loop is t) (\<lambda>_ u. echoed (concat (map (\<lambda>i. dump_proc (procs s i)) (i # is))) s u)"
        by (rule runs_mono) (use echoed_trans [OF t] in simp)
    qed
  qed
qed simp

lemma procdump_echoed:
  assumes "settled s" "lock_free PrLock s" "\<not> panicked s" "length (dump (procs s)) \<le> idles s" "\<forall>i<NPROC. listable (procs s i)"
  shows "runs (procdump s) (\<lambda>_ t. echoed (dump (procs s)) s t)"
proof -
  have l: "length (concat (map (\<lambda>i. dump_proc (procs s i)) [0..<NPROC])) + 3 \<le> idles s" using assms(4) by (simp add: dump_def del: upt_rec_numeral)
  then have "3 \<le> idles s" by simp
  from newline_echoed [OF assms(1-3) this] show ?thesis unfolding procdump_def
  proof (rule runs_bndI)
    fix t assume t: "echoed [13, 10, 0] s t"
    note f = echoed_frame [OF t]
    have "runs (procdump_loop [0..<NPROC] t) (\<lambda>_ u. echoed (concat (map (\<lambda>i. dump_proc (procs t i)) [0..<NPROC])) t u)"
      using assms l f lock_free_cong [OF f(5)] by (intro procdump_loop_echoed) (simp_all del: upt_rec_numeral)
    then show "runs (procdump_loop [0..<NPROC] t) (\<lambda>_ u. echoed (dump (procs s)) s u)"
      by (rule runs_mono) (use echoed_trans [OF t] f(6) in \<open>simp add: dump_def del: upt_rec_numeral\<close>)
  qed
qed

text \<open>Typing a character into a buffer that has room.\<close>

definition type_in :: "u8 \<Rightarrow> 'a cons_st_scheme \<Rightarrow> 'a cons_st_scheme" where
  "type_in c s = s\<lparr>cons_buf := (cons_buf s)[unat (cons_e s) mod INPUT_BUF_SIZE := c], cons_e := cons_e s + 1\<rparr>"

lemma type_in_queue:
  assumes "cons_ok s" "length (input s) < INPUT_BUF_SIZE"
  shows "cons_ok (type_in c s)" "lines (type_in c s) = lines s" "line (type_in c s) = line s @ [c]"
proof -
  let ?t = "type_in c s"
  have o: "ring_ok (cons_buf s) (cons_r s) (cons_e s)" "unat (cons_e s - cons_r s) < length (cons_buf s)"
    using assms by (auto simp: cons_ok_def ring_ok_def length_input intro!: exI [of _ 7])
  have d: "unat (cons_e s + 1 - cons_r s) = Suc (unat (cons_e s - cons_r s))" by (rule diff_put [OF o])
  then show ok: "cons_ok ?t" using assms by (simp add: cons_ok_def type_in_def length_input)
  have i: "input ?t = input s @ [c]" using ring_queue_put [OF o, of c] assms(1) by (simp add: input_def type_in_def cons_ok_def)
  have l: "length (lines ?t) = length (lines s)" by (simp add: lines_def length_ring_queue type_in_def)
  show "lines ?t = lines s" "line ?t = line s @ [c]"
    using i l input_split [OF ok] input_split [OF assms(1)] by simp_all
qed

lemma commit_lines: "cons_ok s \<Longrightarrow> lines (s\<lparr>cons_w := cons_e s\<rparr>) = lines s @ line s \<and> line (s\<lparr>cons_w := cons_e s\<rparr>) = [] \<and>
    cons_ok (s\<lparr>cons_w := cons_e s\<rparr>)"
  using input_split [of s] by (simp add: lines_def line_def input_def cons_ok_def ring_queue_nil)

lemma input_full: "cons_e s - cons_r s = of_nat INPUT_BUF_SIZE \<longleftrightarrow> length (input s) = INPUT_BUF_SIZE"
  "cons_e s - cons_r s < of_nat INPUT_BUF_SIZE \<longleftrightarrow> length (input s) < INPUT_BUF_SIZE"
  unfolding length_input [symmetric] by (simp_all add: word_unat_eq_iff word_less_nat_alt)

lemma type_echoed:
  assumes "settled s" "table_free s" "c_proc (cpus s (tp s)) = Some p" "cons_ok s" "\<not> panicked s" "0 < idles s"
    "length (input s) < INPUT_BUF_SIZE" "fin \<longleftrightarrow> c = NEWLINE \<or> c = CTRL_D \<or> Suc (length (input s)) = INPUT_BUF_SIZE"
  shows "runs (console_store c s)
    (\<lambda>_ t. same_harts s t \<and> cons_ok t \<and> (lines t, line t) = (if fin then (lines s @ line s @ [c], []) else (lines s, line s @ [c])) \<and>
      uart_out t = uart_out s @ [(THR, c)] \<and> procs t = (if fin then woken {..<NPROC} (Some ChanCons) (Some p) (procs s) else procs s))"
  unfolding console_store_def
proof (rule runs_bndI [OF console_putchar_echoed(1) [OF assms(1,5,6)]])
  fix t assume t: "echoed [c] s t"
  note f = echoed_frame [OF t] line_echoed [OF t] echoed_cons [OF t]
  let ?t = "type_in c t"
  have i: "cons_ok t" "length (input t) < INPUT_BUF_SIZE" "input t = input s" using f assms(4,7) by (simp_all add: input_def)
  note q = type_in_queue [OF i(1,2), of c]
  have "length (input ?t) = Suc (length (input s))" using input_split [OF q(1)] input_split [OF i(1)] q(2,3) i(3) by simp
  then have fin: "fin \<longleftrightarrow> c = NEWLINE \<or> c = CTRL_D \<or> cons_e ?t - cons_r ?t = of_nat INPUT_BUF_SIZE"
    unfolding input_full(1) assms(8) by simp
  have h: "same_harts s ?t" "same_harts s (?t\<lparr>cons_w := cons_e ?t\<rparr>)" using f by (simp_all add: same_harts_def type_in_def)
  have w: "wakeup (Some ChanCons) (?t\<lparr>cons_w := cons_e ?t\<rparr>) =
      Ok () (?t\<lparr>cons_w := cons_e ?t, procs := woken {..<NPROC} (Some ChanCons) (Some p) (procs s)\<rparr>)"
    using wakeup_woken [of "?t\<lparr>cons_w := cons_e ?t\<rparr>"] same_harts_cong [OF h(2)] assms(1-3) f by (simp add: type_in_def)
  have fr: "lines (u\<lparr>procs := P\<rparr>) = lines u" "line (u\<lparr>procs := P\<rparr>) = line u" "cons_ok (u\<lparr>procs := P\<rparr>) = cons_ok u" for u :: "'a cons_st_scheme" and P
    by (simp_all add: lines_def line_def cons_ok_def)
  show "runs (let s = t\<lparr>cons_buf := (cons_buf t)[unat (cons_e t) mod INPUT_BUF_SIZE := c], cons_e := cons_e t + 1\<rparr>
      in if c = NEWLINE \<or> c = CTRL_D \<or> cons_e s - cons_r s = of_nat INPUT_BUF_SIZE
         then wakeup (Some ChanCons) (s\<lparr>cons_w := cons_e s\<rparr>) else Ok () s)
    (\<lambda>_ t. same_harts s t \<and> cons_ok t \<and> (lines t, line t) = (if fin then (lines s @ line s @ [c], []) else (lines s, line s @ [c])) \<and>
      uart_out t = uart_out s @ [(THR, c)] \<and> procs t = (if fin then woken {..<NPROC} (Some ChanCons) (Some p) (procs s) else procs s))"
    unfolding Let_def type_in_def [symmetric] fin [symmetric]
    using w q commit_lines [OF q(1)] f h by (cases fin) (auto simp: fr same_harts_def, simp_all add: type_in_def)
qed

definition edited :: "nat \<Rightarrow> u8 \<Rightarrow> 'a cons_st_scheme \<Rightarrow> 'a cons_st_scheme \<Rightarrow> bool" where
  "edited p c s t \<longleftrightarrow> cons_ok t \<and> NEWLINE \<notin> set (line t) \<and>
     (lines t, line t) = edit c (lines s, line s) \<and> uart_out t = uart_out s @ map (Pair THR) (echo (procs s) c (lines s, line s)) \<and>
     procs t = (if lines t = lines s then procs s else woken {..<NPROC} (Some ChanCons) (Some p) (procs s))"

lemma echoed_edited:
  assumes "echoed (echo (procs s) c (lines s, line s)) u t" "same_harts s u" "cons_ok u" "NEWLINE \<notin> set (line u)"
    "lines u = lines s" "(lines u, line u) = edit c (lines s, line s)" "uart_out u = uart_out s" "procs u = procs s"
  shows "same_harts s t \<and> edited p c s t"
  using echoed_frame [OF assms(1)] line_echoed [OF assms(1)] assms(2-) by (simp add: same_harts_def edited_def del: edit.simps echo.simps)

lemma console_key_edited:
  assumes "settled s" "table_free s" "c_proc (cpus s (tp s)) = Some p" "cons_ok s" "NEWLINE \<notin> set (line s)" "\<not> panicked s"
    "length (echo (procs s) c (lines s, line s)) \<le> idles s"
    and dump: "c = CTRL_P \<Longrightarrow> lock_free PrLock s \<and> (\<forall>i<NPROC. listable (procs s i))"
  shows "runs (console_key c s) (\<lambda>_ t. same_harts s t \<and> edited p c s t)"
proof -
  have ctrl: "CTRL_P \<noteq> CTRL_U" "CTRL_U \<noteq> CTRL_H" "CTRL_U \<noteq> 0x7f" "CTRL_H \<noteq> CTRL_P" "0x7f \<noteq> CTRL_P" by (simp_all add: CTRL_P_def CTRL_U_def CTRL_H_def)
  have hs: "same_harts s s" "same_harts s (s\<lparr>cons_e := e\<rparr>)" for e by (simp_all add: same_harts_def)
  consider "c = CTRL_P" | "c = CTRL_U" | "c = CTRL_H \<or> c = 0x7f" "line s = []" | "c = CTRL_H \<or> c = 0x7f" "line s \<noteq> []"
    | "c \<noteq> CTRL_P" "c \<noteq> CTRL_U" "c \<noteq> CTRL_H" "c \<noteq> 0x7f" "c \<noteq> 0" "length (input s) < INPUT_BUF_SIZE"
    | "c \<noteq> CTRL_P" "c \<noteq> CTRL_U" "c \<noteq> CTRL_H" "c \<noteq> 0x7f" "c = 0 \<or> \<not> length (input s) < INPUT_BUF_SIZE" by blast
  then show ?thesis
  proof cases
    case 1
    have e: "echo (procs s) c (lines s, line s) = dump (procs s)" "(lines s, line s) = edit c (lines s, line s)" using 1 by simp_all
    have "runs (procdump s) (\<lambda>_ t. echoed (dump (procs s)) s t)"
      using assms(1,6,7) dump [OF 1] unfolding e(1) by (intro procdump_echoed) simp_all
    then show ?thesis using 1 echoed_edited [OF _ hs(1) assms(4,5) refl e(2) refl refl, unfolded e(1)]
      by (auto simp: console_key_def elim!: runs_mono)
  next
    case 2
    let ?u = "s\<lparr>cons_e := cons_w s\<rparr>"
    have "lines ?u = lines s" "line ?u = []" "cons_ok ?u" using assms(4) by (simp_all add: lines_def line_def cons_ok_def ring_queue_nil)
    moreover have "3 * length (line s) \<le> idles s" using assms(7) 2 ctrl by (simp add: length_concat sum_list_replicate)
    ultimately show ?thesis using 2 ctrl hs runs_mono [OF kill_line_echoed [OF assms(1,6,4,5)]] echoed_edited [of s c ?u]
      by (auto simp: console_key_def length_line simp del: kill_line.simps)
  next
    case 3
    then show ?thesis using ctrl hs assms(4,5) echoed_edited [of s c s s p] by (auto simp: console_key_def line_empty)
  next
    case 4
    let ?u = "s\<lparr>cons_e := cons_e s - 1\<rparr>"
    have "3 \<le> idles s" using assms(7) 4 ctrl by auto
    then have u: "settled ?u" "\<not> panicked ?u" "3 \<le> idles ?u" using assms(1,6)
      by (auto simp: settled_def cpu_ok_def machine_defs idles_def)
    have l: "lines ?u = lines s" "line ?u = butlast (line s)" "cons_ok ?u" "NEWLINE \<notin> set (line ?u)"
      using line_erase [OF 4(2)] cons_ok_erase [OF assms(4) 4(2)] assms(5) by (auto simp: lines_def dest: in_set_butlastD)
    have e: "echo (procs s) c (lines s, line s) = [8, 32, 8]" "(lines ?u, line ?u) = edit c (lines s, line s)" using 4 l ctrl by auto
    have "console_key c s = console_putchar None ?u" using 4 ctrl by (auto simp: console_key_def line_empty simp del: console_putchar.simps)
    then show ?thesis
      using runs_mono [OF console_putchar_echoed(2) [OF u] echoed_edited [OF _ hs(2) l(3,4,1) e(2), unfolded e(1)]]
      by (simp del: console_putchar.simps)
  next
    case 5
    let ?c = "if c = 13 then NEWLINE else c"
    let ?fin = "?c = NEWLINE \<or> ?c = CTRL_D \<or> Suc (length (input s)) = INPUT_BUF_SIZE"
    have b: "edit c (lines s, line s) = (if ?fin then (lines s @ line s @ [?c], []) else (lines s, line s @ [?c]))"
      "echo (procs s) c (lines s, line s) = [?c]" using 5 input_split [OF assms(4)] by (auto simp: Let_def)
    have e: "edited p c s t" if "cons_ok t" "(lines t, line t) = (if ?fin then (lines s @ line s @ [?c], []) else (lines s, line s @ [?c]))"
      "uart_out t = uart_out s @ [(THR, ?c)]" "procs t = (if ?fin then woken {..<NPROC} (Some ChanCons) (Some p) (procs s) else procs s)" for t
      unfolding edited_def b using that assms(5) by (cases ?fin) auto
    have k: "console_key c s = console_store ?c s" using 5 by (simp add: console_key_def input_full [simplified])
    have "0 < idles s" using assms(7) b(2) by simp
    from type_echoed [OF assms(1-4,6) this 5(6) refl, of ?c] show ?thesis
      unfolding k by (rule runs_mono) (use e in blast)
  next
    case 6
    then show ?thesis using hs assms(4,5) echoed_edited [of s c s s p] input_split [OF assms(4)]
      by (auto simp: console_key_def input_full [simplified])
  qed
qed

text \<open>
  C18. The console implements line editing. For every character typed, with a device that takes the
  output in time: the finished lines and the line being edited change as \<open>edit\<close> says, that is
  \<open>^H\<close> and delete erase the last character of the current line if there is one, \<open>^U\<close> erases the
  whole line and nothing before it, a carriage return counts as a newline, and a newline, \<open>^D\<close> or
  the last free place finish the line; a character that does not fit is dropped; the device is sent what \<open>echo\<close>
  says, which for \<open>^P\<close> is the listing of the process table, line by line through \<open>printk\<close>; readers are woken when a line is finished; and the buffer stays well formed.
\<close>

theorem console_intr_edits:
  assumes "quiet p s" "cons_ok s" "NEWLINE \<notin> set (line s)" "\<not> panicked s"
    and "length (echo (procs s) c (lines s, line s)) \<le> idles s" "c = CTRL_P \<Longrightarrow> \<forall>i<NPROC. listable (procs s i)"
  shows "runs (console_intr c s) (\<lambda>_ t. quiet p t \<and> cons_ok t \<and> NEWLINE \<notin> set (line t) \<and>
    (lines t, line t) = edit c (lines s, line s) \<and> uart_out t = uart_out s @ map (Pair THR) (echo (procs s) c (lines s, line s)) \<and>
    procs t = (if lines t = lines s then procs s else woken {..<NPROC} (Some ChanCons) (Some p) (procs s)))"
proof -
  let ?u = "enter ConsLock s"
  note q = quietD [OF assms(1)]
  have u: "lines ?u = lines s" "line ?u = line s" "cons_ok ?u = cons_ok s" "idles ?u = idles s"
    by (simp_all add: lines_def line_def cons_ok_def idles_def)
  have e: "edited p c ?u t = edited p c s t" for t by (simp add: edited_def u del: edit.simps echo.simps)
  have "runs (console_key c ?u) (\<lambda>_ t. same_harts ?u t \<and> edited p c ?u t)"
    using q assms u by (intro console_key_edited) (simp_all add: table_free_def del: edit.simps echo.simps)
  then have "runs (console_intr c s) (\<lambda>_ t. same_harts s t \<and> edited p c s t)" unfolding console_intr_def e
    by (rule critical [OF q(1,2)]) (simp add: edited_def lines_def line_def cons_ok_def del: edit.simps echo.simps)
  then have "runs (console_intr c s) (\<lambda>_ t. quiet p t \<and> edited p c s t)"
    by (rule runs_mono) (use assms(1) quiet_cong in \<open>auto simp: same_harts_def\<close>)
  then show ?thesis unfolding edited_def .
qed

section \<open>Reading lines\<close>

text \<open>
  The bytes a read of at most \<open>n\<close> takes from the finished input, and how many places of the input it
  uses up: to the end of a line, or to a \<open>^D\<close>, which stays when bytes precede it and is used up
  otherwise. \<open>None\<close> when the input ends first, and the reader waits.
\<close>

fun line_read :: "nat \<Rightarrow> bool \<Rightarrow> u8 list \<Rightarrow> (u8 list \<times> nat) option" where
  "line_read 0 first u = Some ([], 0)"
| "line_read (Suc n) first [] = None"
| "line_read (Suc n) first (c # u) =
     (if c = CTRL_D then Some ([], if first then 1 else 0)
      else if c = NEWLINE then Some ([c], 1)
      else map_option (\<lambda>(xs, k). (c # xs, Suc k)) (line_read n False u))"

lemma lines_empty: "cons_r s = cons_w s \<longleftrightarrow> lines s = []"
  by (auto simp: lines_def ring_queue_nil)

lemma lines_next:
  assumes "cons_ok s" "lines s = c # u"
  shows "cons_at (cons_r s) s = c" "lines (s\<lparr>cons_r := cons_r s + 1\<rparr>) = u" "cons_ok (s\<lparr>cons_r := cons_r s + 1\<rparr>)"
    "line (s\<lparr>cons_r := cons_r s + 1\<rparr>) = line s"
proof -
  have n: "cons_w s \<noteq> cons_r s" "cons_e s \<noteq> cons_r s"
    using assms by (auto simp: lines_def ring_queue_def cons_ok_def unat_eq_zero)
  show "cons_at (cons_r s) s = c" "lines (s\<lparr>cons_r := cons_r s + 1\<rparr>) = u"
    using ring_queue_get [OF n(1), of "cons_buf s"] assms by (simp_all add: lines_def cons_at_def cons_ok_def)
  show "cons_ok (s\<lparr>cons_r := cons_r s + 1\<rparr>)" using diff_next [OF n(1)] diff_next [OF n(2)] assms(1) by (simp add: cons_ok_def)
  show "line (s\<lparr>cons_r := cons_r s + 1\<rparr>) = line s" by (simp add: line_def)
qed

lemma lines_mem [simp]: "lines (s\<lparr>mem := m\<rparr>) = lines s" "line (s\<lparr>mem := m\<rparr>) = line s" "cons_ok (s\<lparr>mem := m\<rparr>) = cons_ok s"
  "lines (s\<lparr>mem := m, cons_r := r\<rparr>) = lines (s\<lparr>cons_r := r\<rparr>)" "cons_ok (s\<lparr>mem := m, cons_r := r\<rparr>) = cons_ok (s\<lparr>cons_r := r\<rparr>)"
  by (simp_all add: lines_def line_def cons_ok_def)

definition may_read :: "nat \<Rightarrow> u64 \<Rightarrow> 'a cons_st_scheme \<Rightarrow> bool" where
  "may_read p pt s \<longleftrightarrow> settled s \<and> c_proc (cpus s (tp s)) = Some p \<and> lock_free (ProcLock p) s \<and>
     \<not> p_killed (procs s p) \<and> p_pagetable (procs s p) = pt"

lemma console_read_loop_lines:
  assumes "may_read p pt s" "cons_ok s" "pt_safe m0 pt va n" "\<And>i. i < n \<Longrightarrow> umapped m0 pt (va + of_nat i)"
    and "\<And>j b. j < n \<Longrightarrow> b \<in> pt_cells m0 (PGROUNDDOWN (va + of_nat j)) 3 pt \<Longrightarrow> mem s b = m0 b"
  shows "console_read_loop ap True va n got s = (case line_read n (got = []) (lines s) of None \<Rightarrow> Block
    | Some (xs, k) \<Rightarrow> Ok (Some (got @ xs)) (s\<lparr>mem := ustore m0 pt va xs (mem s), cons_r := cons_r s + of_nat k\<rparr>))"
  using assms
proof (induction n arbitrary: va got s)
  case 0
  then show ?case by (simp add: ustore_def)
next
  case (Suc n)
  show ?case
  proof (cases "lines s")
    case Nil
    then show ?thesis using Suc.prems(1) by (simp add: lines_empty may_read_def this_proc_deref_settled killed_settled)
  next
    case (Cons c u)
    let ?s = "s\<lparr>cons_r := cons_r s + 1\<rparr>" let ?t = "s\<lparr>mem := (mem s)(uaddr m0 pt va := c), cons_r := cons_r s + 1\<rparr>"
    note l = lines_next [OF Suc.prems(2) Cons]
    have m: "settled ?s" "settled ?t" "may_read p pt ?t" "this_proc ?s = Ok (Some p) ?s" "p_pagetable (procs s p) = pt"
      using Suc.prems(1) this_proc_settled [of ?s] by (auto simp: may_read_def settled_def cpu_ok_def machine_defs lock_free_def)
    have "copyout ap pt va [c] ?s = Ok 0 (?s\<lparr>mem := (mem s)(uaddr m0 pt va := c)\<rparr>)"
      using copyout_1 [OF Suc.prems(3), of ?s ap c] Suc.prems(4,5) [of 0] by simp
    then have c: "either_copyout ap True va [c] (\<lambda>_. 0) ?s = Ok (0, \<lambda>_. 0) ?t" using m(4,5) by (simp add: either_copyout_def)
    have ag: "mem ?t b = m0 b" if "j < n" "b \<in> pt_cells m0 (PGROUNDDOWN (va + 1 + of_nat j)) 3 pt" for j b
      using pt_safe_Suc(2) [OF Suc.prems(3), of j] Suc.prems(5) [of "Suc j" b] that by (auto simp: add.assoc)
    have um: "umapped m0 pt (va + 1 + of_nat i)" if "i < n" for i using Suc.prems(4) [of "Suc i"] that by (simp add: add.assoc)
    have ok: "cons_ok ?t" "lines ?t = u" using l by simp_all
    have ih: "console_read_loop ap True (va + 1) n (got @ [c]) ?t = (case line_read n False u of None \<Rightarrow> Block
      | Some (xs, k) \<Rightarrow> Ok (Some ((got @ [c]) @ xs)) (?t\<lparr>mem := ustore m0 pt (va + 1) xs (mem ?t), cons_r := cons_r ?t + of_nat k\<rparr>))"
      unfolding ok(2) [symmetric] by (subst Suc.IH [OF m(3) ok(1) pt_safe_Suc(1) [OF Suc.prems(3)]]) (simp_all only: um ag, simp)
    have "cons_r s \<noteq> cons_w s" using Cons by (simp add: lines_empty)
    then show ?thesis using l(1) c ih Cons
      by (auto simp: ustore_Cons ustore_def add.assoc split: option.split)
  qed
qed

lemma line_read_bounds: "line_read n first u = Some (xs, k) \<Longrightarrow> length xs \<le> n \<and> k \<le> length u"
  by (induction n first u arbitrary: xs k rule: line_read.induct) (auto split: if_splits)

lemma lines_drop: "cons_ok s \<Longrightarrow> k \<le> length (lines s) \<Longrightarrow> lines (s\<lparr>cons_r := cons_r s + of_nat k\<rparr>) = drop k (lines s)"
proof (induction k arbitrary: s)
  case (Suc k)
  then obtain c u where c: "lines s = c # u" by (cases "lines s") auto
  note l = lines_next [OF Suc.prems(1) c]
  show ?case using Suc.IH [OF l(3)] Suc.prems(2) l(2) c by (simp add: add.assoc)
qed simp

lemma release_read:
  assumes "quiet p s"
  shows "release ConsLock ((enter ConsLock s)\<lparr>mem := m, cons_r := r\<rparr>) = Ok () (s\<lparr>mem := m, cons_r := r\<rparr>)"
proof -
  have "((enter ConsLock s)\<lparr>mem := m, cons_r := r\<rparr>)\<lparr>cpus := cpus s, locks := locks s\<rparr> = s\<lparr>mem := m, cons_r := r\<rparr>"
    by (subst enter_eq) (simp add: locks_idem cpus_idem)
  then show ?thesis using release_settled [OF quietD(1,2) [OF assms], of "(enter ConsLock s)\<lparr>mem := m, cons_r := r\<rparr>"] assms by simp
qed

text \<open>
  C19. A read from the console gets a line. For a live reader with room for \<open>n\<close> bytes in user memory:
  \<open>console_read\<close> copies the bytes that \<open>line_read\<close> takes from the finished input to user memory,
  returns their number, and leaves the rest of the input and the line being edited alone: at most
  one line, a \<open>^D\<close> at the start of the input being an empty read and otherwise left for the next
  read. If the finished input has neither enough bytes nor the end of a line it waits, and a killed
  process that finds no input gets \<open>-1\<close>.
\<close>

theorem console_read_line:
  assumes "quiet p s" "cons_ok s" "pt = p_pagetable (procs s p)" "pt_safe (mem s) pt va n"
    and "inj_on (\<lambda>i. uaddr (mem s) pt (va + of_nat i)) {..<n}" "\<forall>i<n. umapped (mem s) pt (va + of_nat i)"
  shows "(\<not> p_killed (procs s p) \<longrightarrow> (case line_read n True (lines s) of
      None \<Rightarrow> console_read ap True va (int n) s = Block
    | Some (xs, k) \<Rightarrow> runs (console_read ap True va (int n) s) (\<lambda>(r, got) t. r = int (length xs) \<and> got = xs \<and>
        (\<forall>i<length xs. mem t (uaddr (mem s) pt (va + of_nat i)) = xs ! i) \<and>
        lines t = drop k (lines s) \<and> line t = line s \<and> quiet p t))) \<and>
    (p_killed (procs s p) \<and> lines s = [] \<and> 0 < n \<longrightarrow> console_read ap True va (int n) s = Ok (- 1, []) s)"
proof (intro conjI impI)
  let ?u = "enter ConsLock s"
  note q = quietD [OF assms(1)]
  have u: "lines ?u = lines s" "cons_ok ?u" using assms(2) by (simp_all add: lines_def cons_ok_def)
  have e: "console_read ap True va (int n) s = bnd (console_read_loop ap True va n [] ?u) (\<lambda>r s. case r of
      None \<Rightarrow> Ok (- 1, []) s | Some got \<Rightarrow> bnd (release ConsLock s) (\<lambda>_ s. Ok (int (length got), got) s))"
    using q(2) by (simp add: console_read_def acquire_free)
  { assume k: "\<not> p_killed (procs s p)"
    have "may_read p pt ?u" using q assms(3) k by (simp add: may_read_def)
    then have l: "console_read_loop ap True va n [] ?u = (case line_read n True (lines s) of None \<Rightarrow> Block
      | Some (xs, k) \<Rightarrow> Ok (Some xs) (?u\<lparr>mem := ustore (mem s) pt va xs (mem s), cons_r := cons_r s + of_nat k\<rparr>))"
      using console_read_loop_lines [of p pt ?u "mem s" va n ap "[]"] u assms(4,6) by (simp split: option.split)
    show "case line_read n True (lines s) of None \<Rightarrow> console_read ap True va (int n) s = Block
      | Some (xs, k) \<Rightarrow> runs (console_read ap True va (int n) s) (\<lambda>(r, got) t. r = int (length xs) \<and> got = xs \<and>
        (\<forall>i<length xs. mem t (uaddr (mem s) pt (va + of_nat i)) = xs ! i) \<and>
        lines t = drop k (lines s) \<and> line t = line s \<and> quiet p t)"
    proof (cases "line_read n True (lines s)")
      case None
      then show ?thesis by (simp add: e l)
    next
      case (Some a)
      then obtain xs k where a: "line_read n True (lines s) = Some (xs, k)" by (cases a) auto
      note b = line_read_bounds [OF a]
      have "quiet p (s\<lparr>mem := m, cons_r := r\<rparr>)" for m r using assms(1) by (subst quiet_cong [of _ s]) simp_all
      moreover have "ustore (mem s) pt va xs (mem s) (uaddr (mem s) pt (va + of_nat i)) = xs ! i" if "i < length xs" for i
        using that b unfolding ustore_def by (intro store_at_nth inj_on_subset [OF assms(5)]) auto
      ultimately show ?thesis using a b lines_drop [OF assms(2), of k] release_read [OF assms(1)] by (simp add: e l) (simp add: line_def)
    qed }
  assume "p_killed (procs s p) \<and> lines s = [] \<and> 0 < n"
  moreover then obtain m where "n = Suc m" by (cases n) auto
  ultimately show "console_read ap True va (int n) s = Ok (- 1, []) s" unfolding e
    using q by (simp add: lines_empty u this_proc_deref_settled killed_settled bracket_same)
qed

section \<open>Witnesses\<close>

text \<open>
  Process 0 with the two pages of \<open>two_pages\<close>, a device that is ready, two characters to send, a
  finished line and the start of another.
\<close>

definition tty :: cons_st where
  "tty = log_st.extend (log_machine\<lparr>mem := mem two_pages, procs := \<lambda>i. (procs log_machine i)\<lparr>p_state := if i = 0 then RUNNING else UNUSED,
       p_pid := 12, p_name := [115, 104, 0], p_pagetable := 0x1000, p_killed := False\<rparr>\<rparr>)
     \<lparr>sb = \<lparr>sb_magic = 0, sb_size = 0, sb_nblocks = 0, sb_ninodes = 0, sb_nlog = 0, sb_logstart = 0, sb_inodestart = 0, sb_bmapstart = 0\<rparr>,
      inodes = (\<lambda>_. \<lparr>i_dev = 0, i_inum = 0, i_ref = 0, i_valid = False, i_type = 0, i_major = 0, i_minor = 0, i_nlink = 0, i_size = 0, i_addrs = []\<rparr>),
      pr_locking = True, panicked = False, uart_tx_buf = (replicate 32 0)[31 := 65, 0 := 66], uart_tx_w = 1, uart_tx_r = 0xFFFFFFFFFFFFFFFF,
      uart_lsr = replicate 80 0x20, uart_rhr = [], uart_out = [],
      cons_buf = (replicate 128 0)[127 := 104, 0 := 10, 1 := 105], cons_r = 0xFFFFFFFF, cons_w = 1, cons_e = 2\<rparr>"

lemma tty_simps [simp]: "mem tty = mem two_pages" "p_pagetable (procs tty i) = 0x1000" "\<not> p_killed (procs tty i)" "\<not> panicked tty"
  "uart_lsr tty = replicate 80 0x20" "uart_out tty = []"
  by (simp_all add: tty_def log_st.defs)

lemma tty_quiet: "quiet 0 tty"
  by (simp add: quiet_def settled_def cpu_ok_def machine_defs lock_free_def tty_def log_machine_def bio_machine_def
      small_machine_def mem_st.defs bio_st.defs log_st.defs)

lemma tty_queues: "tx_ok tty" "tx_queue tty = [65, 66]" "cons_ok tty" "lines tty = [104, 10]" "line tty = [105]"
  by (simp_all add: tx_ok_def tx_queue_def cons_ok_def lines_def line_def tty_def log_st.defs ring_queue_def upt_rec)

theorem uartputc_appends_witness: "runs (uartputc 67 tty) (\<lambda>_ t. tx_stream t = [(0, 65), (0, 66), (0, 67)])"
  using conjunct1 [OF uartputc_appends [OF tty_quiet tty_queues(1), of 67]]
  by (auto simp: tty_queues tx_stream_def THR_def elim!: runs_mono)

lemma tty_dump: "dump (procs tty) = [13, 10, 0, 49, 50, 32, 114, 117, 110, 32, 32, 32, 32, 115, 104, 0, 13, 10, 0]" "listable (procs tty i)"
proof -
  have "dump_proc (procs tty i) = []" if "i \<in> set [1..<NPROC]" for i
    using that by (simp add: dump_proc_def tty_def log_st.defs del: upt_rec_numeral)
  then have "concat (map (\<lambda>i. dump_proc (procs tty i)) [1..<NPROC]) = []" by (simp only: concat_eq_Nil_conv set_map ball_simps image_iff) blast
  moreover have "[0..<NPROC] = 0 # [1..<NPROC]" by (simp add: upt_conv_Cons del: upt_rec_numeral)
  moreover have "dec_int 12 = ''12''" by (simp add: dec_int_def dec_nat.simps [of 12] dec_nat.simps [of "Suc 0"] char_of_def bit_iff_odd)
  then have "dump_proc (procs tty 0) = [49, 50, 32, 114, 117, 110, 32, 32, 32, 32, 115, 104, 0, 13, 10, 0]"
    by (simp add: dump_proc_def proc_line_def bytes_of_def tty_def log_st.defs)
  ultimately show "dump (procs tty) = [13, 10, 0, 49, 50, 32, 114, 117, 110, 32, 32, 32, 32, 115, 104, 0, 13, 10, 0]"
    unfolding dump_def by (simp del: upt_rec_numeral)
  show "listable (procs tty i)" by (simp add: listable_def tty_def log_st.defs)
qed

theorem console_intr_edits_witness:
  "runs (console_intr 8 tty) (\<lambda>_ t. lines t = [104, 10] \<and> line t = [] \<and> uart_out t = [(0, 8), (0, 32), (0, 8)]) \<and>
    runs (console_intr 13 tty) (\<lambda>_ t. lines t = [104, 10, 105, 10] \<and> line t = [] \<and> uart_out t = [(0, 10)]) \<and>
    runs (console_intr 16 tty) (\<lambda>_ t. line t = [105] \<and>
      uart_out t = map (Pair 0) [13, 10, 0, 49, 50, 32, 114, 117, 110, 32, 32, 32, 32, 115, 104, 0, 13, 10, 0])"
proof -
  have p: "NEWLINE \<notin> set (line tty)" "\<not> panicked tty" "idles tty = 80"
    by (simp_all add: tty_queues NEWLINE_def idles_def idle_def LSR_TX_IDLE_def)
  note c = console_intr_edits [OF tty_quiet tty_queues(3) p(1,2)]
  note d = CTRL_P_def CTRL_U_def CTRL_H_def CTRL_D_def NEWLINE_def THR_def
  show ?thesis
    by (intro conjI; rule runs_mono [OF c]) (simp_all add: tty_queues tty_dump p(3) d)
qed

lemma Suc_numeral_4: "(4 :: nat) = Suc (Suc (Suc (Suc 0)))"
  by simp

theorem console_read_line_witness:
  "runs (console_read (\<lambda>_. Ok 0) True 0xFFE 4 tty) (\<lambda>(r, got) t. r = 2 \<and> got = [104, 10] \<and> lines t = [] \<and> line t = [105])"
proof -
  have l: "line_read 4 True (lines tty) = Some ([104, 10], 2)"
    unfolding tty_queues Suc_numeral_4 by (simp add: CTRL_D_def NEWLINE_def)
  have "\<forall>i<4. umapped (mem tty) 0x1000 (0xFFE + of_nat i)" using two_pages_range(3) by simp
  note r = conjunct1 [OF console_read_line [where p = 0 and s = tty and pt = "0x1000" and va = "0xFFE" and n = 4 and ap = "\<lambda>_. Ok 0"]]
  show ?thesis
    using r [OF tty_quiet tty_queues(3) _ _ _ \<open>\<forall>i<4. _\<close>] two_pages_safe unfolding l
    by (auto simp: tty_queues elim!: runs_mono)
qed

end
