(* ===== verification/Spec2Isabelle.thy ===== *)
theory Spec2Isabelle
  imports Disk File_Write Pipe Printk Trap Tty
begin

text \<open>
  A verification of mkros, a small operating system kernel for 64-bit RISC-V with Sv48 paging, as it
  is built by the Makefile of the repository. All paths below are relative to \<open>src/\<close>.

  \<^bold>\<open>The program and its state.\<close> The kernel runs on several harts that share memory. Its
  parts keep their data in global variables, so the state of the model is one record, which the
  theories extend in the order in which the parts use one another: \<open>machine\<close> (harts and spin locks),
  \<open>proc_st\<close> (process table), \<open>sleep_st\<close> (sleep locks), \<open>mem_st\<close> (physical memory and free list),
  \<open>vm_st\<close>, \<open>bio_st\<close> (buffers and disk), \<open>log_st\<close>, \<open>fs_st\<close> (super block and inode table), \<open>uart_st\<close>,
  \<open>cons_st\<close>, \<open>file_st\<close> (files and pipes), \<open>vio_st\<close> (rings of the disk driver), \<open>sys_st\<close>, \<open>trap_st\<close>.
  An operation of a part works on every extension of the record of that part, so the handlers at
  the end of the chain call the operations before them on the whole state.

  An operation takes the state and returns an \<open>outcome\<close>: \<open>Ok\<close> with a value and the next state;
  \<open>Panic\<close> with the message for a call of \<open>panic\<close>; \<open>Block\<close> where the caller goes to sleep, spins on
  a taken lock, or runs out of fuel; \<open>Undef\<close> where the C code has no defined behaviour, such as a
  null pointer that is followed. \<open>bnd\<close> is sequencing; \<open>runs m P\<close> states that \<open>m\<close> returns and \<open>P\<close>
  holds of the result, so it excludes all other outcomes.

  \<^bold>\<open>Theories and source files.\<close>
  \<^item> \<open>Prelude\<close>: machine integers of \<open>include/types.h\<close>, outcomes, reachability and the locale
    \<open>safety\<close> for invariants of step relations.
  \<^item> \<open>Spinlock\<close>: \<open>kernel/spinlock.c\<close> and \<open>kernel/cpu.c\<close>; \<open>push_off\<close> and \<open>pop_off\<close>, \<open>acquire\<close>
    and \<open>release\<close>, and a step relation that interleaves their memory accesses on all harts.
    Shown: mutual exclusion, and that nested sections restore the interrupt state.
  \<^item> \<open>Ring_Buffer\<close>, \<open>Vsprintf\<close>, \<open>Printk\<close>: \<open>kernel/printk/\<close>. Shown: a printed number reads back as its
    value for every width and padding, what \<open>printk\<close> writes for a literal text, and a conversion that
    overruns its buffer.
  \<^item> \<open>List_Head\<close>: \<open>include/list.h\<close> over a heap of links. Shown: the operations implement those of a
    sequence, in both directions.
  \<^item> \<open>Kstring\<close>: \<open>kernel/string.c\<close> and \<open>lib/sbi/sbi_string.c\<close> over byte memory. Shown: copies
    between overlapping regions, termination of copied strings.
  \<^item> \<open>Proc_Table\<close>, \<open>Sched\<close>: the process table and the scheduler of \<open>kernel/proc.c\<close>. \<open>swtch\<close> saves
    one context and loads another, so an operation that calls it is two definitions, up to the
    switch (\<open>sleep_leave\<close>, \<open>yield_leave\<close>, \<open>scheduler_dispatch\<close>) and after it (\<open>sleep_return\<close>,
    \<open>yield_return\<close>, \<open>scheduler_resume\<close>); \<open>Sched\<close> interleaves them on all harts. Shown: no process runs
    on two harts; a sleeper returns from \<open>sleep\<close> after a wakeup.
  \<^item> \<open>Sleeplock\<close>: \<open>kernel/sleeplock.c\<close>.
  \<^item> \<open>Kalloc\<close>: \<open>kernel/kalloc.c\<close>; the free list is threaded through the bytes of free pages. Shown:
    what \<open>kfree\<close> and \<open>kalloc\<close> do to the list, that no page is handed out twice, and the pages that
    \<open>kinit\<close> frees.
  \<^item> \<open>Vm\<close>, \<open>Uaccess\<close>: \<open>kernel/vm.c\<close> and the macros of \<open>include/riscv.h\<close>. Page tables are words in
    memory. Shown: termination of the loops over pages, and what \<open>copyin\<close> and \<open>copyout\<close> do to user
    memory, which read back as written.
  \<^item> \<open>Bio\<close>: \<open>kernel/bio.c\<close>; the locale \<open>block_cache\<close> is what the log relies on. Shown: the cache
    is transparent.
  \<^item> \<open>Log\<close>, \<open>Transaction\<close>: \<open>kernel/log.c\<close>. Shown: a transaction is atomic under a crash at any of
    its disk writes, recovery is idempotent, and which reservations keep concurrent operations
    within the log.
  \<^item> \<open>Fs\<close>: the definitions of \<open>kernel/fs.c\<close>. \<open>Block_Tx\<close>: the locale \<open>logged_blocks\<close>, what the file system
    relies on in the cache and the log, and its interpretation. \<open>Block_Alloc\<close>: \<open>balloc\<close> and \<open>bfree\<close> on
    the bitmap. \<open>Inode\<close>: inodes in memory and on disk. \<open>File_Data\<close>: the block map and \<open>readi\<close>.
    \<open>File_Write\<close>: \<open>writei\<close>. Shown: a block is allocated at most once, an inode survives its way to the
    disk and back, and a file is a sequence of bytes that \<open>writei\<close> overwrites and \<open>readi\<close> delivers, to
    and from kernel and user memory.
  \<^item> \<open>Byte_Ring\<close>: rings of bytes with free-running indices, and the locale \<open>bounded_queue\<close>.
  \<^item> \<open>Uart\<close>, \<open>Console\<close>, \<open>Tty\<close>: \<open>kernel/uart.c\<close> and \<open>kernel/console.c\<close>. Shown: line editing with
    its echo and the process listing, reading of lines, and no loss or reordering of output. \<open>uartintr\<close>
    is modelled although nothing calls it.
  \<^item> \<open>File\<close>, \<open>Pipe\<close>: \<open>kernel/file.c\<close> and \<open>kernel/pipe.c\<close>. Shown: a pipe is a bounded queue of bytes.
  \<^item> \<open>Virtio\<close>, \<open>Disk\<close>: \<open>kernel/virtio_disk.c\<close>. Shown: a request, with its wait, interrupt and
    return, does what the buffer cache assumes of \<open>virtio_disk_rw\<close>; descriptors are not leaked.
  \<^item> \<open>Proc\<close>, \<open>Exec\<close>, \<open>Syscall\<close>, \<open>Sysfile\<close>, \<open>Trap\<close>: the rest of \<open>kernel/proc.c\<close>, \<open>kernel/exec.c\<close>,
    \<open>kernel/syscall.c\<close>, \<open>kernel/sysproc.c\<close>, \<open>kernel/sysfile.c\<close>, \<open>kernel/trap.c\<close>, \<open>kernel/timer.c\<close>,
    \<open>kernel/plic.c\<close>.

  \<^bold>\<open>Parameters.\<close> \<open>ap\<close> is the function pointer \<open>alloc_pages\<close>, from which the page-table walk
  takes new pages. The device behind the disk driver is a function on the state, and
  \<open>serves\<close> states the virtio block protocol. What device registers read is part of the state.

  \<^bold>\<open>Bounds and fuel.\<close> Integers that can wrap are words of their width; \<open>int\<close> values that the
  code keeps small (nesting depths such as \<open>noff\<close>, reference counts, log indices, the block counter of \<open>balloc\<close>) are
  unbounded. Bytes that are indeterminate in C (padding, local variables before their first use) are 0.
  The sector number of \<open>virtio_disk_rw\<close> is computed in 32 bits, and wraps from block \<open>2 ^ 31\<close> on; the
  transfer of \<open>Bio\<close> that stands for a request does not, and the refinement has the bound as a hypothesis. Loops
  over lists, ranges and strings are structural recursions; those whose end depends on data carry a
  termination proof, or fuel that exceeds the number of rounds: the loops over pages of \<open>Vm\<close> take
  one round more than there are pages in the address space, and are shown to end; a walk of the
  buffer list takes the number of buffers and the head; a chain of descriptors is at most \<open>NUM\<close> long.

  \<^bold>\<open>Not modelled.\<close> The assembly files \<open>kernel/entry.S\<close>, \<open>kernel/swtch.S\<close>, \<open>kernel/kernelvec.S\<close>
  and \<open>kernel/trampoline.S\<close> save and load registers; the model has their effect on the state (the
  two halves around \<open>swtch\<close>, the trap frame). The calls into the firmware of \<open>include/sbi.h\<close> and the
  accesses to control registers of \<open>include/riscv.h\<close> are inline assembly; those that trap handling
  uses are fields of the state. \<open>kernel/ramdisk.c\<close> is not in the build and does not fit the
  structures it uses. The code that runs once at boot before the parts above are set up is left out:
  \<open>kernel/main.c\<close>, the allocator \<open>mm/bootmem.c\<close>, \<open>kernel/device_tree.c\<close> and the library \<open>lib/libfdt\<close> that it
  reads the device tree with. \<open>printk\<close> is modelled in full for \<open>panic\<close> and for the listing of \<open>^P\<close>; the
  diagnostics of other routines are kept as texts in the list \<open>klog\<close>.
\<close>

end
